(* ===== verification/Prelude.thy ===== *)
theory Prelude
  imports Main "HOL-Library.Word"
begin

text \<open>
  What every component shares: the names of the machine integer types, the ways in which a
  kernel function can fail to return (\<open>fault\<close>), the sequencing operator of the error sum
  (\<open>bindE\<close>), C string literals as byte buffers, and lemmas on words and lists that several
  components use.

  A function of the kernel that can touch memory outside its object, run past a buffer,
  loop for ever or halt has the result type \<open>'a res\<close>: \<open>Inl\<close> of the fault, or \<open>Inr\<close> of the
  result. A fault ends the run (the page fault handler halts the machine), so it carries no
  state.
\<close>

unbundle bit_operations_syntax

type_synonym u8 = "8 word"
type_synonym u16 = "16 word"
type_synonym u32 = "32 word"
type_synonym u64 = "64 word"

datatype fault =
    Page_Fault u64      \<comment> \<open>an access outside the memory the component owns\<close>
  | Overrun             \<comment> \<open>an access outside a C array: undefined behaviour\<close>
  | Missing_Arg         \<comment> \<open>a variadic argument that was not passed\<close>
  | No_Return           \<comment> \<open>a loop that never exits\<close>
  | Halted              \<comment> \<open>the code called \<open>halt\<close>\<close>
  | Signed_Overflow     \<comment> \<open>an \<open>int\<close> past its range: undefined behaviour\<close>

type_synonym 'a res = "fault + 'a"

definition bindE :: "'e + 'a \<Rightarrow> ('a \<Rightarrow> 'e + 'b) \<Rightarrow> 'e + 'b" where
  "bindE m f = (case m of Inl e \<Rightarrow> Inl e | Inr x \<Rightarrow> f x)"

lemma bindE_simps [simp]:
  "bindE (Inl e) f = Inl e"
  "bindE (Inr x) f = f x"
  by (simp_all add: bindE_def)

lemma bindE_Inr_iff: "bindE m f = Inr y \<longleftrightarrow> (\<exists>x. m = Inr x \<and> f x = Inr y)"
  by (cases m) auto

lemma bindE_InrE [elim!]:
  assumes "bindE m f = Inr y"
  obtains x where "m = Inr x" and "f x = Inr y"
  using assms by (auto simp: bindE_Inr_iff)

lemma bindE_cong: "(\<And>x. m = Inr x \<Longrightarrow> f x = g x) \<Longrightarrow> bindE m f = bindE m g"
  by (cases m) simp_all

definition map_res :: "('a \<Rightarrow> 'b) \<Rightarrow> 'a res \<Rightarrow> 'b res" where
  "map_res f m = (case m of Inl e \<Rightarrow> Inl e | Inr x \<Rightarrow> Inr (f x))"

lemma map_res_simps [simp]:
  "map_res f (Inl e) = Inl e"
  "map_res f (Inr x) = Inr (f x)"
  by (simp_all add: map_res_def)

lemma bindE_map_res [simp]: "bindE (map_res f m) g = bindE m (\<lambda>x. g (f x))"
  by (cases m) simp_all

lemma map_res_eq_Inr [simp]: "map_res f m = Inr y \<longleftrightarrow> (\<exists>x. m = Inr x \<and> y = f x)"
  by (cases m) auto

text \<open>
  A loop with no bound of its own is a \<open>partial_function (option)\<close>; \<open>None\<close>, that it does not
  stop, becomes the fault \<open>No_Return\<close>.
\<close>

definition run_loop :: "'a res option \<Rightarrow> 'a res" where
  "run_loop r = (case r of None \<Rightarrow> Inl No_Return | Some x \<Rightarrow> x)"

lemma run_loop_simps [simp]: "run_loop None = Inl No_Return" "run_loop (Some x) = x"
  by (simp_all add: run_loop_def)

section \<open>C strings\<close>

text \<open>A string literal: the bytes of its characters and the terminating zero byte.\<close>

definition bytes_of :: "string \<Rightarrow> u8 list" where
  "bytes_of s = map of_char s"

definition c_lit :: "string \<Rightarrow> u8 list" where
  "c_lit s = bytes_of s @ [0]"

section \<open>Lists updated by index\<close>

lemma nth_list_update_same [simp]: "i < length xs \<Longrightarrow> (xs[i := x]) ! i = x"
  by simp

lemma take_Suc_update: "i < length xs \<Longrightarrow> take (Suc i) (xs[i := x]) = take i xs @ [x]"
  by (simp add: take_Suc_conv_app_nth)

lemma drop_update_before: "i < n \<Longrightarrow> drop n (xs[i := x]) = drop n xs"
  by simp

lemma update_as_append:
  "i < length xs \<Longrightarrow> xs[i := x] = take i xs @ x # drop (Suc i) xs"
  by (rule upd_conv_take_nth_drop)

section \<open>Words\<close>

lemma unat_of_nat_small: "n < 2 ^ LENGTH('a) \<Longrightarrow> unat (of_nat n :: 'a::len word) = n"
  by (simp add: unat_of_nat take_bit_nat_eq_self)

lemma word_of_nat_inject:
  assumes "of_nat m = (of_nat n :: 'a::len word)" and "m < 2 ^ LENGTH('a)" and "n < 2 ^ LENGTH('a)"
  shows "m = n"
  using assms by (metis unat_of_nat_small)

lemma unat_add_small:
  "unat (a :: 'a::len word) + unat b < 2 ^ LENGTH('a) \<Longrightarrow> unat (a + b) = unat a + unat b"
  by (simp add: unat_word_ariths)

lemma unat_mult_small:
  "unat (a :: 'a::len word) * unat b < 2 ^ LENGTH('a) \<Longrightarrow> unat (a * b) = unat a * unat b"
  by (simp add: unat_word_ariths)

text \<open>Conversion of a \<open>size_t\<close> to \<open>int\<close>.\<close>

definition int_of_size :: "u64 \<Rightarrow> int" where
  "int_of_size w = sint (ucast w :: u32)"

lemma int_of_size_small:
  assumes "unat w < 2 ^ 31"
  shows "int_of_size w = int (unat w)"
proof -
  have small: "signed_take_bit 31 (int n) = int n" if "n < 2 ^ 31" for n
    using that by (intro signed_take_bit_int_eq_self) simp_all
  have "unat (ucast w :: u32) = unat w"
    using assms by (simp add: unsigned_ucast_eq take_bit_nat_eq_self)
  then have "uint (ucast w :: u32) = int (unat w)" by (simp only: uint_nat)
  moreover have "signed_take_bit 31 (int (unat w)) = int (unat w)"
    by (rule small [OF assms])
  moreover have "sint (ucast w :: u32) = signed_take_bit 31 (uint (ucast w :: u32))"
    by (subst sint_uint) simp
  ultimately show ?thesis by (simp only: int_of_size_def)
qed

text \<open>The number that bytes stand for, least significant first.\<close>

primrec le_join :: "u8 list \<Rightarrow> u64" where
  "le_join [] = 0"
| "le_join (b # bs) = ucast b OR push_bit 8 (le_join bs)"

lemma bit_le_join:
  "n < 64 \<Longrightarrow> bit (le_join bs) n \<longleftrightarrow> n div 8 < length bs \<and> bit (bs ! (n div 8)) (n mod 8)"
proof (induction bs arbitrary: n)
  case (Cons b bs)
  show ?case
  proof (cases "n < 8")
    case True
    then show ?thesis by (simp add: bit_simps)
  next
    case False
    then have n: "n div 8 = Suc ((n - 8) div 8)" "n mod 8 = (n - 8) mod 8"
      by (simp_all add: le_div_geq le_mod_geq)
    have "\<not> bit b n" using False by (simp add: bit_word.rep_eq bit_take_bit_iff)
    then have "bit (le_join (b # bs)) n \<longleftrightarrow> bit (le_join bs) (n - 8)"
      using False Cons.prems by (simp add: bit_simps)
    then show ?thesis using Cons.IH [of "n - 8"] Cons.prems n by simp
  qed
qed simp

lemma unat_sub_small: "b \<le> a \<Longrightarrow> unat (a - b) = unat a - unat (b :: 'a::len word)"
  by (simp add: unat_sub)

end
