(* ===== verification/Ports.thy ===== *)
theory Ports
  imports Prelude
begin

text \<open>
  Port input and output (\<^verbatim>\<open>src/kernel/port.h\<close>) and the interrupt controllers
  (\<^verbatim>\<open>src/kernel/pic.c\<close>). The devices behind the ports are not code of the repository:
  \<open>port_in\<close> is what a read of a port yields, a part of the state that no operation here
  assigns, and \<open>port_out\<close> is the sequence of writes issued, oldest first.
\<close>

record ports =
  port_in :: "u16 \<Rightarrow> u8"
  port_out :: "(u16 \<times> u8) list"

definition outb :: "u16 \<Rightarrow> u8 \<Rightarrow> ports \<Rightarrow> ports" where
  "outb p v s = s\<lparr>port_out := port_out s @ [(p, v)]\<rparr>"

definition inb :: "u16 \<Rightarrow> ports \<Rightarrow> u8" where
  "inb p s = port_in s p"

definition io_wait :: "ports \<Rightarrow> ports" where
  "io_wait s = outb 0x80 0 s"

lemma port_in_outb [simp]: "port_in (outb p v s) = port_in s"
  by (simp add: outb_def)

lemma inb_outb [simp]: "inb q (outb p v s) = inb q s"
  by (simp add: inb_def)

lemma port_out_outb [simp]: "port_out (outb p v s) = port_out s @ [(p, v)]"
  by (simp add: outb_def)

section \<open>The interrupt controllers\<close>

abbreviation "PIC1_COMMAND \<equiv> (0x20 :: u16)"
abbreviation "PIC1_DATA \<equiv> (0x21 :: u16)"
abbreviation "PIC2_COMMAND \<equiv> (0xA0 :: u16)"
abbreviation "PIC2_DATA \<equiv> (0xA1 :: u16)"
abbreviation "PIC_EOI \<equiv> (0x20 :: u8)"

definition pic_init :: "ports \<Rightarrow> ports" where
  "pic_init s =
    (let s = io_wait (outb PIC1_COMMAND (0x10 OR 0x01) s);
         s = io_wait (outb PIC2_COMMAND (0x10 OR 0x01) s);
         s = io_wait (outb PIC1_DATA 0x20 s);
         s = io_wait (outb PIC2_DATA 0x28 s);
         s = io_wait (outb PIC1_DATA 0x04 s);
         s = io_wait (outb PIC2_DATA 0x02 s);
         s = io_wait (outb PIC1_DATA 0x01 s);
         s = io_wait (outb PIC2_DATA 0x01 s);
         s = outb PIC1_DATA 0xFF s
     in outb PIC2_DATA 0xFF s)"

text \<open>
  \<open>1 << num\<close> is an \<open>int\<close>, truncated to eight bits by the assignment to \<open>mask\<close>; the guards
  keep the shift below eight.
\<close>

definition pic_mask_irq :: "u8 \<Rightarrow> ports \<Rightarrow> ports" where
  "pic_mask_irq num s =
    (if num < 8 then outb PIC1_DATA (inb PIC1_DATA s OR push_bit (unat num) 1) s
     else if num < 16 then outb PIC2_DATA (inb PIC2_DATA s OR push_bit (unat (num - 8)) 1) s
     else s)"

definition pic_unmask_irq :: "u8 \<Rightarrow> ports \<Rightarrow> ports" where
  "pic_unmask_irq num s =
    (if num < 8 then outb PIC1_DATA (inb PIC1_DATA s AND NOT (push_bit (unat num) 1)) s
     else if num < 16 then outb PIC2_DATA (inb PIC2_DATA s AND NOT (push_bit (unat (num - 8)) 1)) s
     else s)"

text \<open>
  The mask registers behave as memory (the documented behaviour of the controller's data
  port after initialisation): \<open>settle\<close> makes a write to one of the two data ports what the
  next read of that port yields.
\<close>

definition settle :: "ports \<Rightarrow> ports" where
  "settle s = s\<lparr>port_in := (\<lambda>p. if p \<in> {PIC1_DATA, PIC2_DATA}
     then (case filter (\<lambda>w. fst w = p) (rev (port_out s)) of [] \<Rightarrow> port_in s p | w # _ \<Rightarrow> snd w)
     else port_in s p)\<rparr>"

text \<open>Bit \<open>i\<close> (0 to 15) of the pair of mask registers as reads show it.\<close>

definition irq_masked :: "ports \<Rightarrow> nat \<Rightarrow> bool" where
  "irq_masked s i = (if i < 8 then bit (inb PIC1_DATA s) i else bit (inb PIC2_DATA s) (i - 8))"

section \<open>Masking one line\<close>

lemma inb_settle:
  "inb p (settle s) = (if p \<in> {PIC1_DATA, PIC2_DATA}
     then (case filter (\<lambda>w. fst w = p) (rev (port_out s)) of [] \<Rightarrow> inb p s | w # _ \<Rightarrow> snd w) else inb p s)"
  by (simp add: inb_def settle_def split: list.split)

lemma settle_out [simp]: "port_out (settle s) = port_out s"
  by (simp add: settle_def)

text \<open>Writing a mask register and reading it back; the other one is untouched.\<close>

lemma inb_settle_outb:
  "q \<in> {PIC1_DATA, PIC2_DATA} \<Longrightarrow> p \<in> {PIC1_DATA, PIC2_DATA} \<Longrightarrow>
   inb q (settle (outb p v (settle s))) = (if q = p then v else inb q (settle s))"
  by (auto simp: inb_settle split: list.splits)

lemma irq_bit: "i < 8 \<Longrightarrow> j < 8 \<Longrightarrow> bit (push_bit j 1 :: u8) i \<longleftrightarrow> i = j"
  by (auto simp: bit_exp_iff)

lemma irq_masked_settle:
  assumes "unat num < 16" and "i < 16"
  shows "irq_masked (settle (pic_mask_irq num (settle s))) i \<longleftrightarrow> irq_masked (settle s) i \<or> i = unat num"
    and "irq_masked (settle (pic_unmask_irq num (settle s))) i \<longleftrightarrow> irq_masked (settle s) i \<and> i \<noteq> unat num"
proof -
  have hi: "unat (num - 8) = unat num - 8" if "\<not> unat num < 8"
    using that by (subst unat_sub_small) (simp_all add: word_le_nat_alt)
  show "irq_masked (settle (pic_mask_irq num (settle s))) i \<longleftrightarrow> irq_masked (settle s) i \<or> i = unat num"
    using assms hi irq_bit [of i "unat num"] irq_bit [of "i - 8" "unat num - 8"]
    by (auto simp: pic_mask_irq_def irq_masked_def word_less_nat_alt inb_settle_outb bit_or_iff)
  show "irq_masked (settle (pic_unmask_irq num (settle s))) i \<longleftrightarrow> irq_masked (settle s) i \<and> i \<noteq> unat num"
    using assms hi irq_bit [of i "unat num"] irq_bit [of "i - 8" "unat num - 8"]
    by (auto simp: pic_unmask_irq_def irq_masked_def word_less_nat_alt inb_settle_outb bit_and_iff bit_not_iff)
qed

text \<open>After the initialisation and the start of the kernel only the keyboard's line is open.\<close>

lemma pic_init_masks: "irq_masked (settle (pic_init s)) i \<longleftrightarrow> i < 16"
proof -
  have m: "(0xFF :: u8) = mask 8" by (simp add: mask_eq_exp_minus_1)
  have b: "bit (0xFF :: u8) n \<longleftrightarrow> n < 8" for n unfolding m by (simp add: bit_mask_iff)
  have "\<exists>x. pic_init s = outb PIC2_DATA 0xFF (outb PIC1_DATA 0xFF x)"
    unfolding pic_init_def Let_def by blast
  then obtain x where x: "pic_init s = outb PIC2_DATA 0xFF (outb PIC1_DATA 0xFF x)" ..
  have "inb PIC1_DATA (settle (pic_init s)) = 0xFF" "inb PIC2_DATA (settle (pic_init s)) = 0xFF"
    unfolding x inb_settle port_out_outb by simp_all
  then show ?thesis unfolding irq_masked_def by (cases "i < 8") (simp_all only: b if_True if_False, auto)
qed
lemma only_keyboard_line:
  "irq_masked (settle (pic_unmask_irq 1 (settle (pic_init s)))) k \<longleftrightarrow> k < 16 \<and> k \<noteq> 1"
proof (cases "k < 16")
  case True
  then show ?thesis using irq_masked_settle(2) [of 1 k "pic_init s"] by (auto simp: pic_init_masks)
next
  case False
  then have "\<not> bit w (k - 8)" for w :: u8 using bit_imp_le_length [of w "k - 8"] by auto
  then show ?thesis using False by (simp add: irq_masked_def)
qed

end
