(* ===== verification/CString.thy ===== *)
theory CString
  imports Prelude
begin

text \<open>
  \<^verbatim>\<open>src/stdlib/string.c\<close> and the byte routines of \<^verbatim>\<open>src/stdlib/mem.c\<close> (linked into the
  kernel through \<^verbatim>\<open>libc.a\<close>). A C buffer is the list of its bytes; a read or a write past
  its end is the fault \<open>Overrun\<close>. \<open>cstr\<close> is the string a buffer holds: its bytes before
  the first zero byte.
\<close>

section \<open>strcmp, strcpy, strlen\<close>

text \<open>
  The loop index of the source is the number of bytes already dropped from both buffers.
  Both bytes are read in every iteration and after the loop. \<open>char\<close> is signed on the
  target (x86-64), so the difference is taken of the signed values.
\<close>

fun strcmp :: "u8 list \<Rightarrow> u8 list \<Rightarrow> int res" where
  "strcmp (a # s1) (b # s2) =
     (if a \<noteq> 0 \<and> b \<noteq> 0 then
        (if a \<noteq> b then Inr (sint a - sint b) else strcmp s1 s2)
      else if a = 0 \<and> b = 0 then Inr 0
      else if a = 0 then Inr (-1)
      else Inr 1)"
| "strcmp _ _ = Inl Overrun"

fun strcpy_loop :: "nat \<Rightarrow> u8 list \<Rightarrow> u8 list \<Rightarrow> u8 list res" where
  "strcpy_loop i dest [] = Inl Overrun"
| "strcpy_loop i dest (c # src) =
     (if i < length dest then
        (if c \<noteq> 0 then strcpy_loop (Suc i) (dest[i := c]) src
         else Inr (dest[i := 0]))
      else Inl Overrun)"

definition strcpy :: "u8 list \<Rightarrow> u8 list \<Rightarrow> u8 list res" where
  "strcpy dest src = strcpy_loop 0 dest src"

fun strlen_loop :: "int \<Rightarrow> u8 list \<Rightarrow> int res" where
  "strlen_loop i [] = Inl Overrun"
| "strlen_loop i (c # str) = (if c \<noteq> 0 then strlen_loop (i + 1) str else Inr (i - 1))"

definition strlen :: "u8 list \<Rightarrow> int res" where
  "strlen str = strlen_loop 0 str"

section \<open>memset, memcpy\<close>

text \<open>
  \<open>memset\<close> advances its own pointer argument and returns it: the second component of the
  result is the offset of the returned pointer in the buffer.
\<close>

fun memset :: "u8 list \<Rightarrow> nat \<Rightarrow> int \<Rightarrow> nat \<Rightarrow> (u8 list \<times> nat) res" where
  "memset buf p c 0 = Inr (buf, p)"
| "memset buf p c (Suc n) =
     (if p < length buf then memset (buf[p := word_of_int c]) (Suc p) c n else Inl Overrun)"

text \<open>
  \<open>memcpy\<close> within one array of \<open>'a\<close> cells (bytes, or objects whose size divides both
  offsets): an ascending loop that reads \<open>src + i\<close> and writes \<open>dst + i\<close>.
\<close>

fun memcpy_loop :: "nat \<Rightarrow> nat \<Rightarrow> nat \<Rightarrow> nat \<Rightarrow> 'a list \<Rightarrow> 'a list res" where
  "memcpy_loop i dst src 0 xs = Inr xs"
| "memcpy_loop i dst src (Suc n) xs =
     (if dst + i < length xs \<and> src + i < length xs
      then memcpy_loop (Suc i) dst src n (xs[dst + i := xs ! (src + i)])
      else Inl Overrun)"

definition memcpy :: "nat \<Rightarrow> nat \<Rightarrow> nat \<Rightarrow> 'a list \<Rightarrow> 'a list res" where
  "memcpy dst src n xs = memcpy_loop 0 dst src n xs"

section \<open>The string a buffer holds\<close>

definition terminated :: "u8 list \<Rightarrow> bool" where
  "terminated b \<longleftrightarrow> 0 \<in> set b"

definition cstr :: "u8 list \<Rightarrow> u8 list" where
  "cstr b = takeWhile (\<lambda>c. c \<noteq> 0) b"

lemma terminated_simps [simp]:
  "\<not> terminated []"
  "terminated (c # b) \<longleftrightarrow> c = 0 \<or> terminated b"
  by (auto simp: terminated_def)

lemma cstr_simps [simp]:
  "cstr [] = []"
  "cstr (c # b) = (if c = 0 then [] else c # cstr b)"
  by (simp_all add: cstr_def)

lemma cstr_no_zero [simp]: "0 \<notin> set (cstr b)"
  by (auto simp: cstr_def dest: set_takeWhileD)

lemma cstr_of_literal: "0 \<notin> set xs \<Longrightarrow> cstr (xs @ 0 # ys) = xs"
  by (induction xs) auto

lemma terminated_append [simp]: "terminated (xs @ ys) \<longleftrightarrow> terminated xs \<or> terminated ys"
  by (auto simp: terminated_def)

lemma terminated_split: "terminated b \<Longrightarrow> \<exists>ys. b = cstr b @ 0 # ys"
  by (induction b) auto

lemma length_cstr_less: "terminated b \<Longrightarrow> length (cstr b) < length b"
  by (induction b) auto

lemma strcmp_returns: "terminated s1 \<Longrightarrow> terminated s2 \<Longrightarrow> \<exists>r. strcmp s1 s2 = Inr r"
  by (induction s1 s2 rule: strcmp.induct) auto

lemma sint_eq_iff: "sint (a :: u8) - sint b = 0 \<longleftrightarrow> a = b"
  by (metis right_minus_eq signed_word_eqI)

lemma strcmp_zero_iff:
  "terminated s1 \<Longrightarrow> terminated s2 \<Longrightarrow> strcmp s1 s2 = Inr 0 \<longleftrightarrow> cstr s1 = cstr s2"
  by (induction s1 s2 rule: strcmp.induct) (auto simp: sint_eq_iff dest: signed_word_eqI)

lemma strcpy_loop_fits:
  "terminated src \<Longrightarrow> i + length (cstr src) < length dest \<Longrightarrow>
   strcpy_loop i dest src =
     Inr (take i dest @ cstr src @ 0 # drop (i + length (cstr src) + 1) dest)"
proof (induction i dest src rule: strcpy_loop.induct)
  case (2 i dest c src)
  show ?case
  proof (cases "c = 0")
    case True
    with 2 show ?thesis by (simp add: update_as_append)
  next
    case False
    with 2 show ?thesis by (simp add: take_Suc_update)
  qed
qed simp

lemma strcpy_loop_overruns:
  "length dest \<le> i + length (cstr src) \<Longrightarrow> strcpy_loop i dest src = Inl Overrun"
  by (induction i dest src rule: strcpy_loop.induct) auto

lemma strcpy_fits:
  assumes "terminated src" and "length (cstr src) < length dest"
  shows "strcpy dest src = Inr (cstr src @ 0 # drop (length (cstr src) + 1) dest)"
  using strcpy_loop_fits [of src 0 dest] assms by (simp add: strcpy_def)

lemma strcpy_overruns: "length dest \<le> length (cstr src) \<Longrightarrow> strcpy dest src = Inl Overrun"
  using strcpy_loop_overruns [of dest 0 src] by (simp add: strcpy_def)

lemma strcpy_result:
  assumes "strcpy dest src = Inr d" and "terminated src"
  shows "cstr d = cstr src \<and> length d = length dest \<and> terminated d"
proof -
  have fits: "length (cstr src) < length dest"
    using assms strcpy_overruns [of dest src] by (cases "length dest \<le> length (cstr src)") auto
  with assms have "d = cstr src @ 0 # drop (length (cstr src) + 1) dest"
    by (simp add: strcpy_fits)
  with fits show ?thesis by (simp add: cstr_of_literal)
qed

lemma strlen_loop_value:
  "terminated b \<Longrightarrow> strlen_loop i b = Inr (i + int (length (cstr b)) - 1)"
  by (induction b arbitrary: i) auto

section \<open>An ascending copy inside one array\<close>

lemma memcpy_loop_down:
  "dst < src \<Longrightarrow> src + i + n \<le> length xs \<Longrightarrow>
   memcpy_loop i dst src n xs =
     Inr (take (dst + i) xs @ take n (drop (src + i) xs) @ drop (dst + i + n) xs)"
proof (induction n arbitrary: i xs)
  case 0
  then show ?case by simp
next
  case (Suc n)
  let ?ys = "xs[dst + i := xs ! (src + i)]"
  have "memcpy_loop i dst src (Suc n) xs = memcpy_loop (Suc i) dst src n ?ys"
    using Suc.prems by simp
  also have "\<dots> = Inr (take (dst + Suc i) ?ys @ take n (drop (src + Suc i) ?ys)
                          @ drop (dst + Suc i + n) ?ys)"
    using Suc.prems by (intro Suc.IH) auto
  also have "take (dst + Suc i) ?ys = take (dst + i) xs @ [xs ! (src + i)]"
    using Suc.prems by (simp add: take_Suc_update)
  also have "drop (src + Suc i) ?ys = drop (src + Suc i) xs"
    using Suc.prems by simp
  also have "drop (dst + Suc i + n) ?ys = drop (dst + i + Suc n) xs"
    using Suc.prems by simp
  also have "(take (dst + i) xs @ [xs ! (src + i)]) @ take n (drop (src + Suc i) xs)
               @ drop (dst + i + Suc n) xs
             = take (dst + i) xs @ take (Suc n) (drop (src + i) xs) @ drop (dst + i + Suc n) xs"
    using Suc.prems by (simp add: Cons_nth_drop_Suc [symmetric])
  finally show ?case .
qed

lemma memcpy_down:
  "dst < src \<Longrightarrow> src + n \<le> length xs \<Longrightarrow>
   memcpy dst src n xs = Inr (take dst xs @ take n (drop src xs) @ drop (dst + n) xs)"
  using memcpy_loop_down [of dst src 0 n xs] by (simp add: memcpy_def)

end
