(* ===== verification/Terminal.thy ===== *)
theory Terminal
  imports Ports CString
begin

text \<open>
  The text terminal, \<^verbatim>\<open>src/kernel/terminal.c\<close>. \<open>term_buf\<close> is the VGA text memory behind
  the pointer \<open>term\<close>, one \<open>vga_entry\<close> per cell in row-major order; a store outside its cells
  is the fault \<open>Overrun\<close>. The cursor's \<open>size_t\<close> coordinates are \<open>nat\<close>: the invariant
  \<open>term_ok\<close> keeps them at most 80 and 24 and the only decrement is guarded, so they never
  wrap.
\<close>

abbreviation "VGA_WIDTH \<equiv> (80 :: nat)"
abbreviation "VGA_HEIGHT \<equiv> (25 :: nat)"

record vga_entry =
  vga_c :: u8
  vga_fg :: "4 word"
  vga_bg :: "4 word"

record term_state =
  tports :: ports
  term_ptr :: u64
  term_buf :: "vga_entry list"
  term_col :: nat
  term_row :: nat

definition blank :: vga_entry where
  "blank = \<lparr>vga_c = 32, vga_fg = 15, vga_bg = 0\<rparr>"

definition glyph :: "u8 \<Rightarrow> vga_entry" where
  "glyph c = \<lparr>vga_c = c, vga_fg = 15, vga_bg = 0\<rparr>"

definition term_outb :: "u16 \<Rightarrow> u8 \<Rightarrow> term_state \<Rightarrow> term_state" where
  "term_outb p v s = s\<lparr>tports := outb p v (tports s)\<rparr>"

definition term_enable_cursor :: "term_state \<Rightarrow> term_state" where
  "term_enable_cursor s =
    (let s = term_outb 0x3D4 0x0A s;
         s = term_outb 0x3D5 ((inb 0x3D5 (tports s) AND 0xC0) OR 13) s;
         s = term_outb 0x3D4 0x0B s
     in term_outb 0x3D5 ((inb 0x3D5 (tports s) AND 0xE0) OR 15) s)"

definition term_update_cursor :: "term_state \<Rightarrow> term_state" where
  "term_update_cursor s =
    (let pos = (of_nat (term_row s * VGA_WIDTH + term_col s) :: u16);
         s = term_outb 0x3D4 0x0F s;
         s = term_outb 0x3D5 (ucast (pos AND 0xFF)) s;
         s = term_outb 0x3D4 0x0E s
     in term_outb 0x3D5 (ucast (drop_bit 8 pos AND 0xFF)) s)"

definition set_cell :: "nat \<Rightarrow> (vga_entry \<Rightarrow> vga_entry) \<Rightarrow> term_state \<Rightarrow> term_state res" where
  "set_cell i f s =
    (if i < length (term_buf s) then Inr (s\<lparr>term_buf := (term_buf s)[i := f (term_buf s ! i)]\<rparr>)
     else Inl Overrun)"

text \<open>The loops that blank cells \<open>from\<close>, \<open>from + 1\<close>, \dots (\<open>n\<close> of them).\<close>

fun blank_cells :: "nat \<Rightarrow> nat \<Rightarrow> term_state \<Rightarrow> term_state res" where
  "blank_cells from 0 s = Inr s"
| "blank_cells from (Suc n) s = bindE (set_cell from (\<lambda>_. blank) s) (blank_cells (Suc from) n)"

definition term_clear :: "term_state \<Rightarrow> term_state res" where
  "term_clear s =
     bindE (blank_cells 0 (VGA_WIDTH * VGA_HEIGHT) s) (\<lambda>s.
       Inr (term_update_cursor (s\<lparr>term_col := 0, term_row := 0\<rparr>)))"

text \<open>
  Scrolling copies 24 rows of two-byte cells down by one row with the ascending byte loop
  of \<open>memcpy\<close>; both offsets are whole cells, so the copy is modelled on cells.
\<close>

definition term_scroll :: "term_state \<Rightarrow> term_state res" where
  "term_scroll s =
     bindE (memcpy 0 VGA_WIDTH (VGA_WIDTH * (VGA_HEIGHT - 1)) (term_buf s)) (\<lambda>buf.
       let s = s\<lparr>term_buf := buf, term_row := term_row s - 1\<rparr>
       in blank_cells (term_row s * VGA_WIDTH) VGA_WIDTH s)"

definition term_putchar :: "u8 \<Rightarrow> term_state \<Rightarrow> term_state res" where
  "term_putchar c s =
    (if c = 13 then Inr (term_update_cursor (s\<lparr>term_col := 0\<rparr>))
     else if c = 8 then
       map_res term_update_cursor
        (if term_col s > 0 then
           (let s = s\<lparr>term_col := term_col s - 1\<rparr>
            in set_cell (term_row s * VGA_WIDTH + term_col s) (\<lambda>e. e\<lparr>vga_c := 32\<rparr>) s)
         else Inr s)
     else
       (let s = (if c = 10 then s\<lparr>term_col := 0, term_row := term_row s + 1\<rparr> else s);
            s = (if term_col s = VGA_WIDTH then s\<lparr>term_col := 0, term_row := term_row s + 1\<rparr> else s)
        in bindE (if term_row s = VGA_HEIGHT then term_scroll s else Inr s) (\<lambda>s.
           map_res term_update_cursor
            (if c \<noteq> 10 then
               map_res (\<lambda>s. s\<lparr>term_col := term_col s + 1\<rparr>)
                 (set_cell (term_col s + term_row s * VGA_WIDTH) (\<lambda>_. glyph c) s)
             else Inr s))))"

text \<open>\<open>ptov_vga\<close> is \<open>ptov(VGA_BUFFER)\<close>, computed by the caller from the memory state.\<close>

definition term_init :: "u64 \<Rightarrow> term_state \<Rightarrow> term_state res" where
  "term_init ptov_vga s = term_clear (term_enable_cursor (s\<lparr>term_ptr := ptov_vga\<rparr>))"

section \<open>The invariant\<close>

definition term_ok :: "term_state \<Rightarrow> bool" where
  "term_ok s \<longleftrightarrow> length (term_buf s) = VGA_WIDTH * VGA_HEIGHT
     \<and> term_col s \<le> VGA_WIDTH \<and> term_row s < VGA_HEIGHT"

lemma term_outb_fields [simp]:
  "term_buf (term_outb p v s) = term_buf s" "term_col (term_outb p v s) = term_col s"
  "term_row (term_outb p v s) = term_row s" "term_ptr (term_outb p v s) = term_ptr s"
  by (simp_all add: term_outb_def)

lemma term_update_cursor_fields [simp]:
  "term_buf (term_update_cursor s) = term_buf s" "term_col (term_update_cursor s) = term_col s"
  "term_row (term_update_cursor s) = term_row s" "term_ptr (term_update_cursor s) = term_ptr s"
  by (simp_all add: term_update_cursor_def Let_def)

lemma term_enable_cursor_fields [simp]:
  "term_buf (term_enable_cursor s) = term_buf s" "term_col (term_enable_cursor s) = term_col s"
  "term_row (term_enable_cursor s) = term_row s"
  by (simp_all add: term_enable_cursor_def Let_def)

lemma term_ok_update_cursor [simp]: "term_ok (term_update_cursor s) \<longleftrightarrow> term_ok s"
  by (simp add: term_ok_def)

lemma set_cell_in: "i < length (term_buf s) \<Longrightarrow>
  set_cell i f s = Inr (s\<lparr>term_buf := (term_buf s)[i := f (term_buf s ! i)]\<rparr>)"
  by (simp add: set_cell_def)

lemma blank_cells_in: "from + n \<le> length (term_buf s) \<Longrightarrow>
  blank_cells from n s =
    Inr (s\<lparr>term_buf := take from (term_buf s) @ replicate n blank @ drop (from + n) (term_buf s)\<rparr>)"
proof (induction n arbitrary: "from" s)
  case (Suc n)
  then show ?case
    by (simp add: set_cell_in take_Suc_update)
qed simp

lemma term_scroll_eq:
  assumes "length (term_buf s) = VGA_WIDTH * VGA_HEIGHT" and "term_row s = VGA_HEIGHT"
  shows "term_scroll s =
    Inr (s\<lparr>term_buf := drop VGA_WIDTH (term_buf s) @ replicate VGA_WIDTH blank,
           term_row := VGA_HEIGHT - 1\<rparr>)"
  using assms by (simp add: term_scroll_def memcpy_down Let_def blank_cells_in)

text \<open>From a well-formed state a character is stored without leaving the screen memory.\<close>

lemma term_putchar_ok:
  assumes "term_ok s"
  shows "\<exists>s'. term_putchar c s = Inr s' \<and> term_ok s'"
proof -
  have len: "length (term_buf s) = 2000" and col: "term_col s \<le> 80" and row: "term_row s < 25"
    using assms by (simp_all add: term_ok_def)
  consider "c = 13" | "c = 8" | "c = 10" | "c \<noteq> 13" "c \<noteq> 8" "c \<noteq> 10" by blast
  then show ?thesis
  proof cases
    case 1
    then show ?thesis using assms by (simp add: term_putchar_def term_ok_def)
  next
    case 2
    then show ?thesis using assms
      by (auto simp: term_putchar_def term_ok_def set_cell_in Let_def)
  next
    case 3
    then show ?thesis using len row
      by (auto simp: term_putchar_def term_ok_def term_scroll_eq Let_def)
  next
    case 4
    then show ?thesis using len col row
      by (auto simp: term_putchar_def term_ok_def term_scroll_eq set_cell_in Let_def)
  qed
qed

lemma term_clear_eq:
  assumes "length (term_buf s) = VGA_WIDTH * VGA_HEIGHT"
  shows "term_clear s = Inr (term_update_cursor
    (s\<lparr>term_buf := replicate (VGA_WIDTH * VGA_HEIGHT) blank, term_col := 0, term_row := 0\<rparr>))"
  using assms by (simp add: term_clear_def blank_cells_in)

lemma term_init_ok:
  assumes "length (term_buf s) = VGA_WIDTH * VGA_HEIGHT"
  shows "\<exists>s'. term_init p s = Inr s' \<and> term_ok s'"
  using assms by (simp add: term_init_def term_clear_eq term_ok_def)

section \<open>A sink of characters\<close>

text \<open>
  The interface the printing routines use: an operation that takes one character, a state
  predicate under which it returns. \<open>puts\<close> feeds it a list.
\<close>

fun puts :: "('c \<Rightarrow> 's \<Rightarrow> 's res) \<Rightarrow> 'c list \<Rightarrow> 's \<Rightarrow> 's res" where
  "puts putc [] s = Inr s"
| "puts putc (c # cs) s = bindE (putc c s) (puts putc cs)"

locale char_sink =
  fixes putc :: "'c \<Rightarrow> 's \<Rightarrow> 's res" and ok :: "'s \<Rightarrow> bool"
  assumes putc_ok: "ok s \<Longrightarrow> \<exists>s'. putc c s = Inr s' \<and> ok s'"
begin

lemma puts_append: "puts putc (xs @ ys) s = bindE (puts putc xs s) (puts putc ys)"
proof (induction xs arbitrary: s)
  case (Cons x xs)
  then show ?case by (cases "putc x s") simp_all
qed simp

lemma puts_ok: "ok s \<Longrightarrow> \<exists>s'. puts putc xs s = Inr s' \<and> ok s'"
proof (induction xs arbitrary: s)
  case (Cons x xs)
  from putc_ok [OF Cons.prems, of x] obtain t where "putc x s = Inr t" "ok t" by blast
  with Cons.IH [of t] show ?case by simp
qed simp

lemma puts_keeps: "ok s \<Longrightarrow> puts putc xs s = Inr s' \<Longrightarrow> ok s'"
  using puts_ok [of s xs] by auto

end

interpretation console: char_sink term_putchar term_ok
  by unfold_locales (rule term_putchar_ok)

section \<open>The screen as rows\<close>

text \<open>
  What the terminal promises: 25 rows of 80 cells and a cursor. \<open>screen_put\<close> is the
  specification of \<open>term_putchar\<close> on that view, with scrolling as dropping the first row.
\<close>

record screen =
  scr_rows :: "vga_entry list list"
  scr_col :: nat
  scr_row :: nat

definition row_of :: "vga_entry list \<Rightarrow> nat \<Rightarrow> vga_entry list" where
  "row_of buf r = take VGA_WIDTH (drop (r * VGA_WIDTH) buf)"

definition screen_of :: "term_state \<Rightarrow> screen" where
  "screen_of s = \<lparr>scr_rows = map (row_of (term_buf s)) [0..<VGA_HEIGHT],
                  scr_col = term_col s, scr_row = term_row s\<rparr>"

definition newline :: "screen \<Rightarrow> screen" where
  "newline d =
    (if scr_row d = VGA_HEIGHT - 1
     then d\<lparr>scr_rows := tl (scr_rows d) @ [replicate VGA_WIDTH blank], scr_col := 0\<rparr>
     else d\<lparr>scr_col := 0, scr_row := scr_row d + 1\<rparr>)"

definition overwrite :: "(vga_entry \<Rightarrow> vga_entry) \<Rightarrow> screen \<Rightarrow> screen" where
  "overwrite f d = d\<lparr>scr_rows := (scr_rows d)[scr_row d :=
     (scr_rows d ! scr_row d)[scr_col d := f (scr_rows d ! scr_row d ! scr_col d)]]\<rparr>"

definition screen_put :: "u8 \<Rightarrow> screen \<Rightarrow> screen" where
  "screen_put c d =
    (if c = 13 then d\<lparr>scr_col := 0\<rparr>
     else if c = 8 then
       (if scr_col d = 0 then d
        else overwrite (\<lambda>e. e\<lparr>vga_c := 32\<rparr>) (d\<lparr>scr_col := scr_col d - 1\<rparr>))
     else if c = 10 then newline d
     else (let d = overwrite (\<lambda>_. glyph c) (if scr_col d = VGA_WIDTH then newline d else d)
           in d\<lparr>scr_col := scr_col d + 1\<rparr>))"

lemma length_row_of: "length buf = VGA_WIDTH * VGA_HEIGHT \<Longrightarrow> r < VGA_HEIGHT \<Longrightarrow> length (row_of buf r) = VGA_WIDTH"
  by (simp add: row_of_def)

lemma row_of_nth:
  "length buf = VGA_WIDTH * VGA_HEIGHT \<Longrightarrow> r < VGA_HEIGHT \<Longrightarrow> k < VGA_WIDTH \<Longrightarrow>
   row_of buf r ! k = buf ! (r * VGA_WIDTH + k)"
  by (simp add: row_of_def)

lemma cell_coords:
  assumes "k < VGA_WIDTH" and "j < VGA_WIDTH"
  shows "r * VGA_WIDTH + k = q * VGA_WIDTH + j \<longleftrightarrow> r = q \<and> k = j"
proof
  assume eq: "r * VGA_WIDTH + k = q * VGA_WIDTH + j"
  have "(r * VGA_WIDTH + k) div VGA_WIDTH = r" and "(q * VGA_WIDTH + j) div VGA_WIDTH = q"
    using assms by simp_all
  with eq show "r = q \<and> k = j" by simp
qed simp

lemma row_of_update:
  assumes "length buf = VGA_WIDTH * VGA_HEIGHT" and "r < VGA_HEIGHT" and "k < VGA_WIDTH" and "q < VGA_HEIGHT"
  shows "row_of (buf[r * VGA_WIDTH + k := e]) q = (if q = r then (row_of buf q)[k := e] else row_of buf q)"
proof (rule nth_equalityI)
  show "length (row_of (buf[r * VGA_WIDTH + k := e]) q)
        = length (if q = r then (row_of buf q)[k := e] else row_of buf q)"
    using assms by (simp add: length_row_of)
  fix j assume "j < length (row_of (buf[r * VGA_WIDTH + k := e]) q)"
  then have j: "j < VGA_WIDTH" using assms by (simp add: length_row_of)
  have "r * 80 + k = q * 80 + j \<longleftrightarrow> r = q \<and> k = j"
    using cell_coords [OF assms(3) j] by simp
  then show "row_of (buf[r * VGA_WIDTH + k := e]) q ! j
        = (if q = r then (row_of buf q)[k := e] else row_of buf q) ! j"
    using assms j by (auto simp: row_of_nth length_row_of nth_list_update)
qed

lemma rows_update:
  assumes "length buf = VGA_WIDTH * VGA_HEIGHT" and "r < VGA_HEIGHT" and "k < VGA_WIDTH"
  shows "map (row_of (buf[r * VGA_WIDTH + k := e])) [0..<VGA_HEIGHT]
       = (map (row_of buf) [0..<VGA_HEIGHT])[r := (row_of buf r)[k := e]]"
  using assms by (intro nth_equalityI) (auto simp: row_of_update nth_list_update)

lemma rows_scroll:
  assumes "length buf = VGA_WIDTH * VGA_HEIGHT"
  shows "map (row_of (drop VGA_WIDTH buf @ replicate VGA_WIDTH blank)) [0..<VGA_HEIGHT]
       = tl (map (row_of buf) [0..<VGA_HEIGHT]) @ [replicate VGA_WIDTH blank]"
proof (rule nth_equalityI)
  fix i assume "i < length (map (row_of (drop VGA_WIDTH buf @ replicate VGA_WIDTH blank)) [0..<VGA_HEIGHT])"
  then have i: "i < 25" by simp
  show "map (row_of (drop VGA_WIDTH buf @ replicate VGA_WIDTH blank)) [0..<VGA_HEIGHT] ! i
      = (tl (map (row_of buf) [0..<VGA_HEIGHT]) @ [replicate VGA_WIDTH blank]) ! i"
  proof (cases "i = 24")
    case True
    with assms show ?thesis by (simp add: nth_append row_of_def)
  next
    case False
    with i assms show ?thesis
      by (simp add: nth_append nth_tl row_of_def add.commute)
  qed
qed simp

lemma screen_set_cell:
  assumes "length (term_buf s) = VGA_WIDTH * VGA_HEIGHT" and "term_row s < VGA_HEIGHT" and "term_col s < VGA_WIDTH"
  shows "set_cell (term_row s * VGA_WIDTH + term_col s) f s = Inr s' \<Longrightarrow>
    screen_of s' = overwrite f (screen_of s)"
  using assms
  by (auto simp: set_cell_in overwrite_def screen_of_def rows_update row_of_nth)

text \<open>The two ways in which a line ends: a newline, and a character past column 79.\<close>

definition end_line :: "term_state \<Rightarrow> term_state res" where
  "end_line s = (let s = s\<lparr>term_col := 0, term_row := term_row s + 1\<rparr>
     in if term_row s = VGA_HEIGHT then term_scroll s else Inr s)"

lemma end_line_refines:
  assumes "term_ok s"
  shows "\<exists>s'. end_line s = Inr s' \<and> term_ok s' \<and> screen_of s' = newline (screen_of s) \<and> term_col s' = 0"
proof (cases "term_row s = VGA_HEIGHT - 1")
  case True
  with assms show ?thesis
    by (auto simp: end_line_def term_scroll_eq term_ok_def screen_of_def newline_def rows_scroll)
next
  case False
  with assms show ?thesis
    by (auto simp: end_line_def term_ok_def screen_of_def newline_def)
qed

lemma screen_of_update_cursor [simp]: "screen_of (term_update_cursor s) = screen_of s"
  by (simp add: screen_of_def)

lemma term_putchar_newline:
  assumes "term_ok s"
  shows "term_putchar 10 s = map_res term_update_cursor (end_line s)"
  using assms by (simp add: term_putchar_def end_line_def Let_def map_res_def bindE_def split: sum.split)

lemma term_putchar_glyph:
  assumes "term_ok s" and "c \<noteq> 13" and "c \<noteq> 8" and "c \<noteq> 10"
  shows "term_putchar c s = bindE (if term_col s = VGA_WIDTH then end_line s else Inr s) (\<lambda>s.
     map_res (\<lambda>s. term_update_cursor (s\<lparr>term_col := term_col s + 1\<rparr>))
       (set_cell (term_row s * VGA_WIDTH + term_col s) (\<lambda>_. glyph c) s))"
  using assms
  by (auto simp: term_putchar_def end_line_def term_ok_def Let_def map_res_def bindE_def add.commute
      split: sum.split)

lemma screen_store_glyph:
  assumes "term_ok s" and "term_col s < VGA_WIDTH"
  shows "\<exists>t. set_cell (term_row s * VGA_WIDTH + term_col s) f s = Inr t \<and> term_col t = term_col s
     \<and> screen_of t = overwrite f (screen_of s)"
proof -
  have "term_row s * VGA_WIDTH + term_col s < length (term_buf s)"
    using assms by (simp add: term_ok_def)
  then obtain t where t: "set_cell (term_row s * VGA_WIDTH + term_col s) f s = Inr t"
    and "term_col t = term_col s" by (simp add: set_cell_in)
  moreover have "screen_of t = overwrite f (screen_of s)"
    using screen_set_cell [OF _ _ _ t] assms by (simp add: term_ok_def)
  ultimately show ?thesis by blast
qed

lemma screen_of_col [simp]: "scr_col (screen_of s) = term_col s"
  by (simp add: screen_of_def)

lemma screen_of_set_col: "screen_of (s\<lparr>term_col := k\<rparr>) = (screen_of s)\<lparr>scr_col := k\<rparr>"
  by (simp add: screen_of_def)

lemma screen_put_glyph:
  assumes "term_ok s" and "c \<noteq> 13" and "c \<noteq> 8" and "c \<noteq> 10"
    and "term_putchar c s = Inr s'"
  shows "screen_of s' = screen_put c (screen_of s)"
proof -
  obtain u where u: "(if term_col s = VGA_WIDTH then end_line s else Inr s) = Inr u"
    and ok: "term_ok u" "term_col u < VGA_WIDTH"
    and scr: "screen_of u = (if term_col s = VGA_WIDTH then newline (screen_of s) else screen_of s)"
    using end_line_refines [OF assms(1)] assms(1)
    by (cases "term_col s = VGA_WIDTH") (auto simp: term_ok_def)
  obtain t where t: "set_cell (term_row u * VGA_WIDTH + term_col u) (\<lambda>_. glyph c) u = Inr t"
    "term_col t = term_col u" "screen_of t = overwrite (\<lambda>_. glyph c) (screen_of u)"
    using screen_store_glyph [OF ok] by blast
  from assms(5) have "s' = term_update_cursor (t\<lparr>term_col := term_col t + 1\<rparr>)"
    unfolding term_putchar_glyph [OF assms(1-4)] u using t(1) by simp
  moreover have "scr_col (overwrite f d) = scr_col d" for f d by (simp add: overwrite_def)
  ultimately show ?thesis
    using t(2,3) scr assms(2-4)
    by (auto simp: screen_put_def Let_def screen_of_set_col simp flip: screen_of_col)
qed

lemma screen_put_refines:
  assumes "term_ok s" and "term_putchar c s = Inr s'"
  shows "screen_of s' = screen_put c (screen_of s)"
proof -
  consider "c = 13" | "c = 8" "term_col s = 0" | "c = 8" "term_col s > 0" | "c = 10"
    | "c \<noteq> 13" "c \<noteq> 8" "c \<noteq> 10" by blast
  then show ?thesis
  proof cases
    case 3
    let ?u = "s\<lparr>term_col := term_col s - 1\<rparr>"
    have "term_ok ?u" "term_col ?u < VGA_WIDTH" using assms(1) 3 by (auto simp: term_ok_def)
    then obtain t where t: "set_cell (term_row ?u * VGA_WIDTH + term_col ?u) (\<lambda>e. e\<lparr>vga_c := 32\<rparr>) ?u = Inr t"
      "screen_of t = overwrite (\<lambda>e. e\<lparr>vga_c := 32\<rparr>) (screen_of ?u)"
      using screen_store_glyph by blast
    then have "s' = term_update_cursor t" using assms(2) 3 by (simp add: term_putchar_def Let_def)
    then show ?thesis using t(2) 3 by (simp add: screen_put_def screen_of_set_col)
  next
    case 4
    then show ?thesis using assms end_line_refines [OF assms(1)]
      by (auto simp: term_putchar_newline screen_put_def)
  next
    case 5
    then show ?thesis using screen_put_glyph assms by blast
  qed (use assms in \<open>auto simp: term_putchar_def screen_put_def screen_of_set_col screen_of_def\<close>)
qed

section \<open>Properties\<close>

lemma puts_refines:
  "term_ok s \<Longrightarrow> puts term_putchar cs s = Inr s' \<Longrightarrow>
   screen_of s' = fold screen_put cs (screen_of s)"
proof (induction cs arbitrary: s)
  case (Cons c cs)
  then obtain t where t: "term_putchar c s = Inr t" "puts term_putchar cs t = Inr s'"
    by auto
  then have "term_ok t" using Cons.prems(1) term_putchar_ok [of s c] by auto
  with Cons.IH t(2) have "screen_of s' = fold screen_put cs (screen_of t)" by blast
  then show ?case using screen_put_refines [OF Cons.prems(1) t(1)] by simp
qed simp

end
