(* ===== verification/Kprint.thy ===== *)
theory Kprint
  imports Terminal
begin

text \<open>
  Formatted output of the kernel, \<^verbatim>\<open>src/kernel/kprint.c\<close>: numbers are rendered into a
  20-byte buffer from its end, \<open>kprintf\<close> interprets a format string. \<open>kfmt\<close> is its
  specification: the bytes it prints, without a terminal.
\<close>

section \<open>Writing bytes\<close>

fun term_write :: "u8 list \<Rightarrow> nat \<Rightarrow> term_state \<Rightarrow> term_state res" where
  "term_write str 0 s = Inr s"
| "term_write [] (Suc n) s = Inl Overrun"
| "term_write (c # str) (Suc n) s = bindE (term_putchar c s) (term_write str n)"

definition kprint_c :: "u8 \<Rightarrow> term_state \<Rightarrow> term_state res" where
  "kprint_c c s = term_write [c] 1 s"

fun kprint_s :: "u8 list \<Rightarrow> term_state \<Rightarrow> term_state res" where
  "kprint_s [] s = Inl Overrun"
| "kprint_s (c # str) s =
     (if c \<noteq> 0 then bindE (term_write (c # str) 1 s) (kprint_s str) else Inr s)"

section \<open>Numbers\<close>

definition dec_digit :: "u64 \<Rightarrow> u8" where
  "dec_digit v = ucast (v mod 10) + 48"

definition hex_digit :: "u64 \<Rightarrow> u8" where
  "hex_digit v = (let remainder = v mod 16;
                      remainder = (if remainder > 9 then remainder + 39 else remainder)
                  in ucast remainder + 48)"

text \<open>
  The do-while loop of \<open>kprint_d\<close> and \<open>kprint_x\<close>: \<open>i\<close> is the index of the last digit written
  (20 at the start); \<open>str[--i]\<close> with \<open>i = 0\<close> is the fault \<open>Overrun\<close>.
\<close>

fun digit_loop :: "u64 \<Rightarrow> (u64 \<Rightarrow> u8) \<Rightarrow> u64 \<Rightarrow> nat \<Rightarrow> u8 list \<Rightarrow> (u8 list \<times> nat) res" where
  "digit_loop base digit value 0 str = Inl Overrun"
| "digit_loop base digit value (Suc i) str =
     (let str = str[i := digit value]; value = value div base
      in if value \<noteq> 0 then digit_loop base digit value i str else Inr (str, i))"

definition kprint_d :: "u64 \<Rightarrow> term_state \<Rightarrow> term_state res" where
  "kprint_d value s =
     bindE (digit_loop 10 dec_digit value 20 (replicate 20 0)) (\<lambda>(str, i).
       term_write (drop i str) (20 - i) s)"

definition kprint_x :: "u64 \<Rightarrow> term_state \<Rightarrow> term_state res" where
  "kprint_x value s =
     bindE (digit_loop 16 hex_digit value 20 (replicate 20 0)) (\<lambda>(str, i).
       term_write (drop i str) (20 - i) s)"

definition kprint_p :: "u64 \<Rightarrow> term_state \<Rightarrow> term_state res" where
  "kprint_p ptr s = bindE (term_write (c_lit ''0x'') 2 s) (kprint_x ptr)"

section \<open>Format strings\<close>

text \<open>
  A variadic argument is a word (an integer or a pointer value) or a pointer to a string,
  given by the string's buffer. Taking an argument that was not passed, or one of the other
  sort, is \<open>Missing_Arg\<close>.
\<close>

datatype karg = Word_Arg u64 | Str_Arg "u8 list"

fun directive :: "u8 \<Rightarrow> karg list \<Rightarrow> term_state \<Rightarrow> (karg list \<times> term_state) res" where
  "directive d args s =
    (if d = 37 then map_res (Pair args) (kprint_c d s)
     else if d = 99 then
       (case args of Word_Arg w # args \<Rightarrow> map_res (Pair args) (kprint_c (ucast w) s) | _ \<Rightarrow> Inl Missing_Arg)
     else if d = 115 then
       (case args of Str_Arg b # args \<Rightarrow> map_res (Pair args) (kprint_s b s) | _ \<Rightarrow> Inl Missing_Arg)
     else if d = 100 then
       (case args of Word_Arg w # args \<Rightarrow> map_res (Pair args) (kprint_d w s) | _ \<Rightarrow> Inl Missing_Arg)
     else if d = 120 then
       (case args of Word_Arg w # args \<Rightarrow> map_res (Pair args) (kprint_x w s) | _ \<Rightarrow> Inl Missing_Arg)
     else if d = 112 then
       (case args of Word_Arg w # args \<Rightarrow> map_res (Pair args) (kprint_p w s) | _ \<Rightarrow> Inl Missing_Arg)
     else map_res (Pair args) (kprint_s (c_lit ''????'') s))"

text \<open>
  After a directive the position moves past it whatever it was, so a \<open>%\<close> at the end of the
  format steps over the terminating zero.
\<close>

fun kprintf :: "u8 list \<Rightarrow> karg list \<Rightarrow> term_state \<Rightarrow> term_state res" where
  "kprintf [] args s = Inl Overrun"
| "kprintf (c # pos) args s =
    (if c = 0 then Inr s
     else if c = 37 then
       (case pos of [] \<Rightarrow> Inl Overrun
        | d # pos' \<Rightarrow> bindE (directive d args s) (\<lambda>(args', s'). kprintf pos' args' s'))
     else bindE (kprint_c c s) (kprintf pos args))"

declare directive.simps [simp del]

section \<open>What is printed\<close>

text \<open>Base-\<open>b\<close> digits of a number, most significant first.\<close>

function digits :: "nat \<Rightarrow> nat \<Rightarrow> nat list" where
  "digits b n = (if b < 2 \<or> n < b then [n] else digits b (n div b) @ [n mod b])"
  by pat_completeness auto
termination
  by (relation "measure snd") auto

declare digits.simps [simp del]

lemma digits_small: "n < b \<Longrightarrow> digits b n = [n]"
  by (simp add: digits.simps)

lemma digits_step: "2 \<le> b \<Longrightarrow> b \<le> n \<Longrightarrow> digits b n = digits b (n div b) @ [n mod b]"
  by (subst digits.simps) simp

lemma digits_nonempty [simp]: "digits b n \<noteq> []"
  by (subst digits.simps) simp

lemma digits_length: "2 \<le> b \<Longrightarrow> n < b ^ k \<Longrightarrow> 0 < k \<Longrightarrow> length (digits b n) \<le> k"
proof (induction k arbitrary: n)
  case (Suc k)
  show ?case
  proof (cases "n < b")
    case False
    then have "b \<le> n" by simp
    have k: "0 < k" using False Suc.prems(2) by (cases k) auto
    have "n div b < b ^ k" using Suc.prems by (simp add: less_mult_imp_div_less mult.commute)
    then have "length (digits b (n div b)) \<le> k" using Suc k by blast
    then show ?thesis using digits_step [OF Suc.prems(1) \<open>b \<le> n\<close>] by simp
  qed (simp add: digits_small)
qed simp

lemma digits_value: "2 \<le> b \<Longrightarrow> foldl (\<lambda>a d. a * b + d) 0 (digits b n) = n"
proof (induction n rule: less_induct)
  case (less n)
  show ?case
  proof (cases "n < b")
    case False
    with less.prems have "n div b < n" by (auto intro: div_less_dividend)
    with less False show ?thesis by (simp add: digits_step)
  qed (simp add: digits_small)
qed

lemma digits_less: "2 \<le> b \<Longrightarrow> d \<in> set (digits b n) \<Longrightarrow> d < b"
proof (induction n rule: less_induct)
  case (less n)
  show ?case
  proof (cases "n < b")
    case True
    with less.prems show ?thesis by (simp add: digits_small)
  next
    case False
    with less.prems have lt: "n div b < n" by (auto intro: div_less_dividend)
    have "d \<in> set (digits b (n div b)) \<or> d = n mod b"
      using less.prems False by (auto simp: digits_step)
    then show ?thesis using less.IH [OF lt] less.prems(1) by auto
  qed
qed

lemma digits_no_leading_zero: "2 \<le> b \<Longrightarrow> 0 < n \<Longrightarrow> hd (digits b n) \<noteq> 0"
proof (induction n rule: less_induct)
  case (less n)
  show ?case
  proof (cases "n < b")
    case False
    with less.prems have "n div b < n" "0 < n div b"
      by (auto intro: div_less_dividend simp: div_greater_zero_iff)
    with less False show ?thesis by (simp add: digits_step)
  qed (use less.prems in \<open>simp add: digits_small\<close>)
qed

definition digit_char :: "nat \<Rightarrow> u8" where
  "digit_char d = (if d < 10 then of_nat (48 + d) else of_nat (87 + d))"

definition render :: "nat \<Rightarrow> u64 \<Rightarrow> u8 list" where
  "render b v = map digit_char (digits b (unat v))"

text \<open>
  The specification of \<open>kprintf\<close>: what one directive and what a whole format stand for, as
  bytes, with the arguments left over.
\<close>

definition directive_out :: "u8 \<Rightarrow> karg list \<Rightarrow> (karg list \<times> u8 list) res" where
  "directive_out d args =
    (if d = 37 then Inr (args, [37])
     else if d \<notin> {99, 115, 100, 120, 112} then Inr (args, bytes_of ''????'')
     else case args of [] \<Rightarrow> Inl Missing_Arg
      | Str_Arg b # args' \<Rightarrow>
          (if d \<noteq> 115 then Inl Missing_Arg
           else if terminated b then Inr (args', cstr b) else Inl Overrun)
      | Word_Arg w # args' \<Rightarrow>
          (if d = 115 then Inl Missing_Arg
           else Inr (args', if d = 99 then [ucast w] else if d = 100 then render 10 w
                    else if d = 120 then render 16 w else bytes_of ''0x'' @ render 16 w)))"

fun kfmt :: "u8 list \<Rightarrow> karg list \<Rightarrow> u8 list res" where
  "kfmt [] args = Inl Overrun"
| "kfmt (c # pos) args =
    (if c = 0 then Inr []
     else if c \<noteq> 37 then map_res (Cons c) (kfmt pos args)
     else case pos of [] \<Rightarrow> Inl Overrun | d # pos' \<Rightarrow>
       bindE (directive_out d args) (\<lambda>(args', out). map_res ((@) out) (kfmt pos' args')))"

section \<open>The printing routines print what they should\<close>

text \<open>Stated of the functions, so that they rewrite under \<open>bindE\<close> as well.\<close>

lemma term_write_puts: "n \<le> length str \<Longrightarrow> term_write str n = puts term_putchar (take n str)"
proof (induction n arbitrary: str)
  case (Suc n)
  then obtain c cs where "str = c # cs" by (cases str) auto
  with Suc show ?case by (intro ext) simp
qed (intro ext, simp)

lemma kprint_c_puts: "kprint_c c = puts term_putchar [c]"
  by (simp add: kprint_c_def fun_eq_iff term_write_puts)

lemma bindE_return [simp]: "bindE m Inr = m"
  by (cases m) simp_all

lemma puts_Nil_fun: "puts putc [] = Inr"
  by (simp add: fun_eq_iff)

lemma kprint_s_puts: "terminated b \<Longrightarrow> kprint_s b = puts term_putchar (cstr b)"
proof (induction b)
  case (Cons c b)
  then show ?case by (intro ext) (auto simp: term_write_puts puts_Nil_fun)
qed simp

lemma kprint_s_overruns: "term_ok s \<Longrightarrow> \<not> terminated b \<Longrightarrow> kprint_s b s = Inl Overrun"
proof (induction b s rule: kprint_s.induct)
  case (2 c str s)
  obtain t where "term_putchar c s = Inr t" "term_ok t"
    using term_putchar_ok [OF 2(2)] by blast
  with 2 show ?case by simp
qed simp

text \<open>
  With room for the digits, the loop leaves them in front of what was already written and
  touches nothing else.
\<close>

lemma digit_loop_writes:
  fixes v :: u64
  assumes base: "unat base = b" "2 \<le> b"
    and digit: "\<And>w. digit w = digit_char (unat w mod b)"
  shows "length (digits b (unat v)) \<le> i \<Longrightarrow> i \<le> length str \<Longrightarrow>
    \<exists>str'. digit_loop base digit v i str = Inr (str', i - length (digits b (unat v)))
      \<and> length str' = length str
      \<and> drop (i - length (digits b (unat v))) str' = render b v @ drop i str"
proof (induction i arbitrary: v str)
  case (Suc i)
  let ?str = "str[i := digit v]"
  have drop_i: "drop i ?str = digit v # drop (Suc i) str"
    using Suc.prems by (simp add: Cons_nth_drop_Suc [symmetric])
  have div_unat: "unat (v div base) = unat v div b" using base by (simp add: unat_div_distrib)
  show ?case
  proof (cases "unat v < b")
    case True
    then have "v div base = 0" using div_unat by (simp add: unat_eq_zero [symmetric])
    with True Suc.prems drop_i show ?thesis
      by (simp add: digits_small Let_def render_def digit)
  next
    case False
    then have ne: "v div base \<noteq> 0"
      using div_unat base(2) by (metis div_greater_zero_iff not_less unat_0 less_le_trans zero_less_numeral neq0_conv)
    have step: "digits b (unat v) = digits b (unat (v div base)) @ [unat v mod b]"
      using False base(2) div_unat by (simp add: digits_step)
    have "length (digits b (unat (v div base))) \<le> i" "i \<le> length ?str"
      using step Suc.prems by simp_all
    from Suc.IH [OF this] ne step drop_i show ?thesis
      by (auto simp: Let_def render_def digit)
  qed
qed simp

lemma dec_digit_char: "dec_digit v = digit_char (unat v mod 10)"
proof -
  have u: "unat (v mod 10) = unat v mod 10" by (simp add: unat_mod_distrib)
  have "dec_digit v = of_nat (unat (v mod 10)) + 48" by (simp add: dec_digit_def)
  also have "\<dots> = digit_char (unat v mod 10)" unfolding u digit_char_def by simp
  finally show ?thesis .
qed

lemma hex_digit_char: "hex_digit v = digit_char (unat v mod 16)"
proof -
  have u: "unat (v mod 16) = unat v mod 16" by (simp add: unat_mod_distrib)
  have small: "unat v mod 16 < 16" by simp
  have cast: "(ucast (of_nat n :: u64) :: u8) = of_nat n" if "n < 256" for n
    using that by (simp add: unsigned_of_nat take_bit_nat_eq_self)
  show ?thesis
  proof (cases "v mod 16 > 9")
    case True
    then have "9 < unat v mod 16" using u by (simp add: word_less_nat_alt)
    moreover have "hex_digit v = ucast (v mod 16 + 39) + 48" using True by (simp add: hex_digit_def)
    moreover have "v mod 16 + 39 = of_nat (unat v mod 16 + 39)" by (simp flip: u)
    ultimately have "hex_digit v = of_nat (unat v mod 16 + 39) + 48"
      using small cast [of "unat v mod 16 + 39"] by simp
    then show ?thesis using \<open>9 < unat v mod 16\<close> by (simp add: digit_char_def)
  next
    case False
    then have "unat v mod 16 < 10" using u by (simp add: word_less_nat_alt not_less word_le_nat_alt)
    moreover have "hex_digit v = ucast (v mod 16) + 48" using False by (simp add: hex_digit_def)
    moreover have "(ucast (v mod 16) :: u8) = of_nat (unat v mod 16)"
      by (simp flip: u)
    ultimately show ?thesis by (simp add: digit_char_def)
  qed
qed

lemma render_length: "2 \<le> b \<Longrightarrow> 2 ^ 64 \<le> b ^ k \<Longrightarrow> 0 < k \<Longrightarrow> length (render b v) \<le> k"
proof -
  assume a: "2 \<le> b" "2 ^ 64 \<le> b ^ k" "0 < k"
  have "unat v < 2 ^ LENGTH(64)" by (rule unsigned_less)
  then have "unat v < 2 ^ 64" by simp
  with a have "unat v < b ^ k" by linarith
  then show ?thesis using digits_length a by (simp add: render_def)
qed

lemma kprint_d_puts: "kprint_d v = puts term_putchar (render 10 v)"
proof -
  have "length (digits 10 (unat v)) \<le> 20" using render_length [of 10 20 v] by (simp add: render_def)
  with digit_loop_writes [of 10 10 dec_digit v 20 "replicate 20 0"]
  obtain str where "digit_loop 10 dec_digit v 20 (replicate 20 0) = Inr (str, 20 - length (digits 10 (unat v)))"
    and "length str = 20" and "drop (20 - length (digits 10 (unat v))) str = render 10 v"
    by (auto simp: dec_digit_char)
  then show ?thesis by (simp add: kprint_d_def fun_eq_iff term_write_puts render_def)
qed

lemma kprint_x_puts: "kprint_x v = puts term_putchar (render 16 v)"
proof -
  have "length (digits 16 (unat v)) \<le> 20" using render_length [of 16 20 v] by (simp add: render_def)
  with digit_loop_writes [of 16 16 hex_digit v 20 "replicate 20 0"]
  obtain str where "digit_loop 16 hex_digit v 20 (replicate 20 0) = Inr (str, 20 - length (digits 16 (unat v)))"
    and "length str = 20" and "drop (20 - length (digits 16 (unat v))) str = render 16 v"
    by (auto simp: hex_digit_char)
  then show ?thesis by (simp add: kprint_x_def fun_eq_iff term_write_puts render_def)
qed

lemma puts_append_fun: "puts putc (xs @ ys) = (\<lambda>s. bindE (puts putc xs s) (puts putc ys))"
proof (rule ext)
  fix s
  show "puts putc (xs @ ys) s = bindE (puts putc xs s) (puts putc ys)"
  proof (induction xs arbitrary: s)
    case (Cons x xs)
    then show ?case by (cases "putc x s") simp_all
  qed simp
qed

lemma kprint_p_puts: "kprint_p v = puts term_putchar (bytes_of ''0x'' @ render 16 v)"
proof (rule ext)
  fix s
  have "term_write (c_lit ''0x'') 2 = puts term_putchar (bytes_of ''0x'')"
    by (simp add: term_write_puts c_lit_def bytes_of_def)
  then show "kprint_p v s = puts term_putchar (bytes_of ''0x'' @ render 16 v) s"
    unfolding puts_append_fun by (simp only: kprint_p_def kprint_x_puts)
qed

lemma directive_prints:
  assumes "term_ok s"
  shows "directive d args s =
    bindE (directive_out d args) (\<lambda>(args', out). map_res (Pair args') (puts term_putchar out s))"
proof -
  have s: "kprint_s b s = Inl Overrun" if "\<not> terminated b" for b
    using that kprint_s_overruns assms by blast
  have q: "terminated (c_lit ''????'')" "cstr (c_lit ''????'') = bytes_of ''????''"
    by (simp_all add: c_lit_def bytes_of_def)
  show ?thesis
    by (auto simp: directive.simps directive_out_def kprint_c_puts kprint_s_puts kprint_d_puts
        kprint_x_puts kprint_p_puts s q split: list.splits karg.splits)
qed

lemma kprintf_prints:
  "term_ok s \<Longrightarrow> kprintf fmt args s = bindE (kfmt fmt args) (\<lambda>out. puts term_putchar out s)"
proof (induction fmt args s rule: kprintf.induct)
  case (2 c pos args s)
  consider "c = 0" | "c \<noteq> 0" "c \<noteq> 37" | "c = 37" "pos = []" | d pos' where "c = 37" "pos = d # pos'"
    by (cases pos) auto
  then show ?case
  proof cases
    case 2
    obtain t where "term_putchar c s = Inr t" "term_ok t"
      using term_putchar_ok [OF "2.prems"] by blast
    with 2 "2.IH" show ?thesis by (simp add: kprint_c_puts)
  next
    case 4
    show ?thesis
    proof (cases "directive_out d args")
      case (Inr r)
      then obtain args' out where r: "directive_out d args = Inr (args', out)" by (cases r) auto
      obtain t where t: "puts term_putchar out s = Inr t" "term_ok t"
        using console.puts_ok [OF "2.prems"] by blast
      have "kprintf pos' args' t = bindE (kfmt pos' args') (\<lambda>out. puts term_putchar out t)"
        using 4 "2.IH"(1) t(2) by simp
      then show ?thesis
        using 4 r t by (simp add: directive_prints [OF "2.prems"] puts_append_fun)
    qed (use 4 in \<open>simp add: directive_prints [OF "2.prems"]\<close>)
  qed simp_all
qed simp

lemma kprintf_ok:
  assumes "term_ok s" and "kfmt fmt args = Inr out"
  shows "\<exists>s'. kprintf fmt args s = Inr s' \<and> term_ok s' \<and> screen_of s' = fold screen_put out (screen_of s)"
  using assms kprintf_prints console.puts_ok [OF assms(1), of out] puts_refines by auto

text \<open>A message without directives, and the one-character format.\<close>

lemma kfmt_plain: "0 \<notin> set xs \<Longrightarrow> 37 \<notin> set xs \<Longrightarrow> kfmt (xs @ [0]) args = Inr xs"
  by (induction xs) auto

lemma kfmt_char: "kfmt (c_lit ''%c'') (Word_Arg w # args) = Inr [ucast w]"
  by (simp add: c_lit_def bytes_of_def directive_out_def)

end
