(* ===== verification/Physmem.thy ===== *)
theory Physmem
  imports Kprint
begin

text \<open>
  The physical page allocator of \<^verbatim>\<open>src/kernel/memory.c\<close>, and the lookup of boot information
  tags (\<open>find_tag\<close> of \<^verbatim>\<open>src/kernel/boot.c\<close>).

  Physical memory is reached through the higher-half direct map: \<open>cells\<close> gives the 64-bit
  word at a virtual address of that map. Everything memory.c stores there (the nodes of the
  free list, the entries of page tables) is made of 64-bit words at addresses divisible by
  eight, so words are the unit, and a node and a page-table entry at the same address are the
  same cell. \<open>FREELIST\<close> is the pointer \<open>freelist\<close>; a node at \<open>p\<close> has its size at \<open>p\<close>, the
  physical address of its chunk at \<open>p + 8\<close> and its successor at \<open>p + 16\<close>.
\<close>

section \<open>Boot information\<close>

record mmap_entry =
  mm_base :: u64
  mm_length :: u64
  mm_type :: u32

record boot_module =
  mod_begin :: u64
  mod_end :: u64
  mod_string :: "u8 list"
  mod_image :: "u8 list"   \<comment> \<open>the bytes from \<open>begin\<close> on\<close>

text \<open>
  The tags form a singly linked list made by the boot loader; the model has the list. A tag
  the kernel does not use keeps its identifier.
\<close>

datatype stivale_tag =
    Memmap_Tag "mmap_entry list"
  | Hhdm_Tag u64
  | Modules_Tag "boot_module list"
  | Other_Tag u64

abbreviation "MEMMAP_ID \<equiv> (0x2187f79e8612de07 :: u64)"
abbreviation "HHDM_ID \<equiv> (0xb0ed257db18cb58f :: u64)"
abbreviation "MODULES_ID \<equiv> (0x4b6fe466aade04ce :: u64)"

fun tag_identifier :: "stivale_tag \<Rightarrow> u64" where
  "tag_identifier (Memmap_Tag _) = MEMMAP_ID"
| "tag_identifier (Hhdm_Tag _) = HHDM_ID"
| "tag_identifier (Modules_Tag _) = MODULES_ID"
| "tag_identifier (Other_Tag i) = i"

fun find_tag :: "stivale_tag list \<Rightarrow> u64 \<Rightarrow> stivale_tag option" where
  "find_tag [] i = None"
| "find_tag (current # rest) i =
     (if tag_identifier current = i then Some current else find_tag rest i)"

section \<open>State\<close>

record mem_state =
  con :: term_state
  hhdm_addr :: u64
  freelist :: u64
  cells :: "u64 \<Rightarrow> u64"
  cr3 :: u64
  tlb_log :: "u64 list"   \<comment> \<open>pages invalidated, newest first\<close>

abbreviation "PAGESIZE \<equiv> (0x1000 :: u64)"

definition mprintf :: "u8 list \<Rightarrow> karg list \<Rightarrow> mem_state \<Rightarrow> mem_state res" where
  "mprintf fmt args s = map_res (\<lambda>c. s\<lparr>con := c\<rparr>) (kprintf fmt args (con s))"

definition ptov :: "u64 \<Rightarrow> mem_state \<Rightarrow> u64" where
  "ptov phys_add s = phys_add + hhdm_addr s"

definition read_cr3 :: "mem_state \<Rightarrow> u64" where
  "read_cr3 s = cr3 s"

definition store :: "u64 \<Rightarrow> u64 \<Rightarrow> mem_state \<Rightarrow> mem_state" where
  "store a v s = s\<lparr>cells := (cells s)(a := v)\<rparr>"

lemma store_fields [simp]:
  "hhdm_addr (store a v s) = hhdm_addr s" "freelist (store a v s) = freelist s"
  "con (store a v s) = con s" "cr3 (store a v s) = cr3 s" "tlb_log (store a v s) = tlb_log s"
  by (simp_all add: store_def)

abbreviation node_size :: "mem_state \<Rightarrow> u64 \<Rightarrow> u64" where "node_size s p \<equiv> cells s p"
abbreviation node_addr :: "mem_state \<Rightarrow> u64 \<Rightarrow> u64" where "node_addr s p \<equiv> cells s (p + 8)"
abbreviation node_next :: "mem_state \<Rightarrow> u64 \<Rightarrow> u64" where "node_next s p \<equiv> cells s (p + 16)"

section \<open>The allocator\<close>

text \<open>The three stores of a new node, and its link to the front of the list.\<close>

definition push_node :: "u64 \<Rightarrow> u64 \<Rightarrow> u64 \<Rightarrow> mem_state \<Rightarrow> mem_state" where
  "push_node node sz addr s =
    (let s = store node sz s;
         s = store (node + 8) addr s;
         s = store (node + 16) (freelist s) s
     in s\<lparr>freelist := node\<rparr>)"

fun freelist_add :: "mmap_entry list \<Rightarrow> mem_state \<Rightarrow> mem_state" where
  "freelist_add [] s = s"
| "freelist_add (entry # rest) s =
     freelist_add rest
       (if mm_type entry = 1
        then push_node (mm_base entry + hhdm_addr s) (mm_length entry) (mm_base entry) s else s)"

definition freelist_init :: "stivale_tag list \<Rightarrow> mem_state \<Rightarrow> mem_state res" where
  "freelist_init hdr s =
    (case (find_tag hdr MEMMAP_ID, find_tag hdr HHDM_ID) of
       (Some (Memmap_Tag memmap), Some (Hhdm_Tag addr)) \<Rightarrow>
         Inr (freelist_add memmap (s\<lparr>hhdm_addr := addr\<rparr>))
     | _ \<Rightarrow> bindE (mprintf (c_lit ''Could not find memmap or hhdm tags'') [] s) (\<lambda>_. Inl Halted))"

text \<open>\<open>usable_mem\<close> prints the usable ranges, physical and in the direct map.\<close>

fun print_usable :: "mmap_entry list \<Rightarrow> mem_state \<Rightarrow> mem_state res" where
  "print_usable [] s = Inr s"
| "print_usable (entry # memmap) s =
    (if mm_type entry \<noteq> 1 then print_usable memmap s
     else bindE (mprintf (c_lit (''%p-%p mapped at %p-%p'' @ [CHR 0x0A]))
         [Word_Arg (mm_base entry), Word_Arg (mm_base entry + mm_length entry),
          Word_Arg (mm_base entry + hhdm_addr s), Word_Arg (mm_base entry + mm_length entry + hhdm_addr s)] s)
       (print_usable memmap))"

definition usable_mem :: "stivale_tag list \<Rightarrow> mem_state \<Rightarrow> mem_state res" where
  "usable_mem hdr s =
    (case (find_tag hdr MEMMAP_ID, find_tag hdr HHDM_ID) of
       (Some (Memmap_Tag memmap), Some (Hhdm_Tag addr)) \<Rightarrow> print_usable memmap (s\<lparr>hhdm_addr := addr\<rparr>)
     | _ \<Rightarrow> bindE (mprintf (c_lit ''Could not find memmap or hhdm tags'') [] s) (\<lambda>_. Inl Halted))"

text \<open>
  The search of \<open>pmem_alloc\<close> for a chunk of at least one page. On a list that never reaches
  \<open>NULL\<close> it may not stop: \<open>None\<close>. \<open>-1\<close> is the value on exhaustion.
\<close>

partial_function (option) pmem_alloc_loop ::
  "u64 \<Rightarrow> u64 \<Rightarrow> mem_state \<Rightarrow> (u64 \<times> mem_state) option" where
  "pmem_alloc_loop cur prev s =
    (if cur = 0 then Some (-1, s)
     else if node_size s cur < PAGESIZE then pmem_alloc_loop (node_next s cur) cur s
     else
       (let result = node_addr s cur + node_size s cur - PAGESIZE;
            s = store cur (node_size s cur - PAGESIZE) s;
            s = (if node_size s cur = 0 then
                   (if prev = 0 then s\<lparr>freelist := node_next s cur\<rparr>
                    else store (prev + 16) (node_next s cur) s)
                 else s)
        in Some (result, s)))"

definition pmem_alloc :: "mem_state \<Rightarrow> (u64 \<times> mem_state) res" where
  "pmem_alloc s =
    (case pmem_alloc_loop (freelist s) 0 s of None \<Rightarrow> Inl No_Return | Some r \<Rightarrow> Inr r)"

definition pmem_free :: "u64 \<Rightarrow> mem_state \<Rightarrow> mem_state" where
  "pmem_free p s = push_node (p + hhdm_addr s) PAGESIZE p s"

section \<open>Page-aligned addresses\<close>

definition aligned :: "u64 \<Rightarrow> bool" where
  "aligned a \<longleftrightarrow> 4096 dvd unat a"

lemma unat_less_64: "unat (a :: u64) < 18446744073709551616"
  using unsigned_less [of a] by simp

lemma aligned_room: "aligned a \<Longrightarrow> unat a + 4096 \<le> 2 ^ 64"
proof -
  assume "aligned a"
  then obtain k where k: "unat a = 4096 * k" by (auto simp: aligned_def)
  with unat_less_64 [of a] have "k < 4503599627370496" by simp
  with k show ?thesis by simp
qed

lemma unat_aligned_offset: "aligned a \<Longrightarrow> unat d < 4096 \<Longrightarrow> unat (a + d) = unat a + unat d"
  using aligned_room [of a] by (simp add: unat_word_ariths)

text \<open>Objects in the pages at two different aligned addresses do not overlap.\<close>

lemma aligned_offset_eq:
  assumes "aligned a" and "aligned b" and "unat d < 4096" and "unat e < 4096"
  shows "a + d = b + e \<longleftrightarrow> a = b \<and> d = e"
proof
  assume eq: "a + d = b + e"
  have "unat a + unat d = unat b + unat e"
    using unat_aligned_offset assms eq by metis
  moreover obtain k l where "unat a = 4096 * k" "unat b = 4096 * l"
    using assms(1,2) unfolding aligned_def by (elim dvdE)
  ultimately have "k * 4096 + unat d = l * 4096 + unat e" by simp
  then have "(k * 4096 + unat d) div 4096 = (l * 4096 + unat e) div 4096" by simp
  then have "k = l" using assms(3,4) by simp
  then have "unat a = unat b" using \<open>unat a = 4096 * k\<close> \<open>unat b = 4096 * l\<close> by simp
  then have "a = b" by (simp add: word_unat_eq_iff)
  with eq show "a = b \<and> d = e" by simp
qed simp

lemma aligned_offset_self:
  assumes "aligned a" and "aligned b" and "unat d < 4096"
  shows "a + d = b \<longleftrightarrow> a = b \<and> d = 0" and "b = a + d \<longleftrightarrow> a = b \<and> d = 0"
  using aligned_offset_eq [OF assms(1,2,3), of 0] by auto

lemmas aligned_distinct = aligned_offset_eq aligned_offset_self

section \<open>The free list as a list\<close>

text \<open>\<open>nodes m p xs\<close>: following successors from \<open>p\<close> passes exactly \<open>xs\<close> and reaches \<open>NULL\<close>.\<close>

fun nodes :: "(u64 \<Rightarrow> u64) \<Rightarrow> u64 \<Rightarrow> u64 list \<Rightarrow> bool" where
  "nodes m p [] \<longleftrightarrow> p = 0"
| "nodes m p (x # xs) \<longleftrightarrow> p = x \<and> x \<noteq> 0 \<and> nodes m (m (x + 16)) xs"

lemma nodes_frame: "(\<And>x. x \<in> set xs \<Longrightarrow> m' (x + 16) = m (x + 16)) \<Longrightarrow> nodes m' p xs = nodes m p xs"
  by (induction xs arbitrary: p) auto

lemma nodes_unique: "nodes m p xs \<Longrightarrow> nodes m p ys \<Longrightarrow> xs = ys"
proof (induction xs arbitrary: p ys)
  case Nil
  then show ?case by (cases ys) auto
next
  case (Cons x xs)
  then show ?case by (cases ys) auto
qed

text \<open>On a list that ends, the search returns.\<close>

lemma pmem_alloc_loop_returns: "nodes (cells s) cur xs \<Longrightarrow> \<exists>r. pmem_alloc_loop cur prev s = Some r"
proof (induction xs arbitrary: cur prev)
  case Nil
  then show ?case by (simp add: pmem_alloc_loop.simps)
next
  case (Cons x xs)
  then show ?case
    by (cases "node_size s x < PAGESIZE") (auto simp: pmem_alloc_loop.simps [of x] Let_def)
qed

text \<open>
  A chunk is a physical address and a size; its pages. The invariant of the free list:
  page-aligned nodes at the start of their chunks, sizes that are positive multiples of the
  page size, no chunk past the end of the address space, no page in two chunks.
\<close>

definition chunk_pages :: "u64 \<Rightarrow> u64 \<Rightarrow> u64 set" where
  "chunk_pages a sz = {a + of_nat k * 4096 |k. k < unat sz div 4096}"

definition fits :: "u64 \<Rightarrow> u64 \<Rightarrow> bool" where
  "fits a sz \<longleftrightarrow> unat a + unat sz \<le> 2 ^ 64"

definition chunk_ok :: "mem_state \<Rightarrow> u64 \<Rightarrow> bool" where
  "chunk_ok s x \<longleftrightarrow> aligned (node_addr s x) \<and> x = node_addr s x + hhdm_addr s
     \<and> aligned (node_size s x) \<and> 0 < unat (node_size s x)
     \<and> fits (node_addr s x) (node_size s x)"

definition pages_at :: "mem_state \<Rightarrow> u64 \<Rightarrow> u64 set" where
  "pages_at s x = chunk_pages (node_addr s x) (node_size s x)"

definition fl_inv :: "mem_state \<Rightarrow> u64 list \<Rightarrow> bool" where
  "fl_inv s xs \<longleftrightarrow> aligned (hhdm_addr s) \<and> nodes (cells s) (freelist s) xs \<and> distinct xs
     \<and> (\<forall>x \<in> set xs. chunk_ok s x)
     \<and> (\<forall>x \<in> set xs. \<forall>y \<in> set xs. x \<noteq> y \<longrightarrow> pages_at s x \<inter> pages_at s y = {})"

definition free_pages :: "mem_state \<Rightarrow> u64 list \<Rightarrow> u64 set" where
  "free_pages s xs = (\<Union>x \<in> set xs. pages_at s x)"

lemma aligned_add: "aligned a \<Longrightarrow> aligned b \<Longrightarrow> aligned (a + b)"
proof -
  assume "aligned a" "aligned b"
  then have "4096 dvd (unat a + unat b) mod 2 ^ 64"
    by (simp add: aligned_def dvd_mod_iff)
  then show ?thesis by (simp add: aligned_def unat_word_ariths)
qed

lemma aligned_sub: "aligned a \<Longrightarrow> aligned b \<Longrightarrow> b \<le> a \<Longrightarrow> aligned (a - b)"
  by (simp add: aligned_def unat_sub_small)

lemma aligned_page [simp]: "aligned PAGESIZE"
  by (simp add: aligned_def)

lemma chunk_ok_aligned: "aligned (hhdm_addr s) \<Longrightarrow> chunk_ok s x \<Longrightarrow> aligned x"
  unfolding chunk_ok_def by (metis aligned_add)

lemma fl_inv_aligned: "fl_inv s xs \<Longrightarrow> x \<in> set xs \<Longrightarrow> aligned x"
  by (auto simp: fl_inv_def intro: chunk_ok_aligned)

lemma chunk_page_unat:
  assumes "k < unat sz div 4096" and "fits a sz"
  shows "unat (a + of_nat k * 4096) = unat a + k * 4096"
proof -
  have le: "k * 4096 + 4096 \<le> unat sz" using assms(1) by linarith
  then have "k * 4096 < 2 ^ LENGTH(64)" using unat_less_64 [of sz] by simp
  then have "unat (of_nat (k * 4096) :: u64) = k * 4096" by (rule unat_of_nat_small)
  then have "unat (of_nat k * 4096 :: u64) = k * 4096" by simp
  then show ?thesis using le assms(2) by (simp add: unat_word_ariths fits_def)
qed

lemma chunk_first_page: "aligned (sz :: u64) \<Longrightarrow> 0 < unat sz \<Longrightarrow> a \<in> chunk_pages a sz"
  unfolding chunk_pages_def aligned_def
  by (rule CollectI, rule exI [of _ 0]) (auto elim!: dvdE)

lemma chunk_pages_aligned:
  assumes "aligned a" and "fits a sz" and "p \<in> chunk_pages a sz"
  shows "aligned p"
proof -
  obtain k where "k < unat sz div 4096" "p = a + of_nat k * 4096"
    using assms(3) by (auto simp: chunk_pages_def)
  then have "unat p = unat a + k * 4096" using chunk_page_unat assms(2) by blast
  then show ?thesis using assms(1) by (simp add: aligned_def)
qed

text \<open>Chopping the last page off a chunk.\<close>

lemma chunk_pages_chop:
  assumes "aligned sz" and "0 < unat sz" and "fits a sz"
  shows "a + sz - PAGESIZE \<in> chunk_pages a sz"
    and "chunk_pages a (sz - PAGESIZE) = chunk_pages a sz - {a + sz - PAGESIZE}"
    and "unat (sz - PAGESIZE) = unat sz - 4096"
proof -
  obtain n where n: "unat sz = 4096 * Suc n"
    using assms(1,2) unfolding aligned_def by (metis dvdE mult_0_right not0_implies_Suc not_less_iff_gr_or_eq)
  have sub: "unat (sz - PAGESIZE) = 4096 * n"
    using n by (subst unat_sub_small) (simp_all add: word_le_nat_alt)
  then show "unat (sz - PAGESIZE) = unat sz - 4096" using n by simp
  have "sz - PAGESIZE = of_nat (4096 * n)" using sub by (metis unat_of_nat_small unat_eq_nat_uint
        word_unat_eq_iff unsigned_less)
  then have last: "a + sz - PAGESIZE = a + of_nat n * 4096" by (simp add: algebra_simps)
  show "a + sz - PAGESIZE \<in> chunk_pages a sz"
    unfolding last chunk_pages_def using n by auto
  have ne: "a + of_nat k * 4096 \<noteq> a + of_nat n * 4096" if "k < n" for k
  proof -
    have "unat (a + of_nat k * 4096) = unat a + k * 4096" "unat (a + of_nat n * 4096) = unat a + n * 4096"
      using that n by (intro chunk_page_unat [OF _ assms(3)], simp)+
    with that show ?thesis by auto
  qed
  show "chunk_pages a (sz - PAGESIZE) = chunk_pages a sz - {a + sz - PAGESIZE}"
    unfolding last using ne by (auto simp: chunk_pages_def n sub less_Suc_eq)
qed

lemma free_pages_Cons [simp]: "free_pages s (x # xs) = pages_at s x \<union> free_pages s xs"
  by (simp add: free_pages_def)

lemma free_pages_aligned: "fl_inv s xs \<Longrightarrow> p \<in> free_pages s xs \<Longrightarrow> aligned p"
  by (auto simp: fl_inv_def free_pages_def pages_at_def chunk_ok_def intro: chunk_pages_aligned)

lemma fl_inv_chunk: "fl_inv s xs \<Longrightarrow> x \<in> set xs \<Longrightarrow> chunk_ok s x"
  by (simp add: fl_inv_def)

lemma node_page_free:
  assumes "fl_inv s xs" and "x \<in> set xs"
  shows "x - hhdm_addr s \<in> pages_at s x"
proof -
  have "chunk_ok s x" using fl_inv_chunk assms .
  then show ?thesis unfolding chunk_ok_def pages_at_def
    by (metis add_diff_cancel_right' chunk_first_page)
qed

text \<open>The free list of a state whose cells at the nodes are those of another.\<close>

lemma fl_inv_frame:
  assumes "fl_inv s xs" and "hhdm_addr s' = hhdm_addr s"
    and same: "\<And>x d. x \<in> set xs \<Longrightarrow> d \<in> {0, 8, 16} \<Longrightarrow> cells s' (x + d) = cells s (x + d)"
    and start: "nodes (cells s) (freelist s') ys" "set ys \<subseteq> set xs" "distinct ys"
  shows "fl_inv s' ys" and "free_pages s' ys = free_pages s ys"
proof -
  have same': "cells s' x = cells s x" "cells s' (x + 8) = cells s (x + 8)"
      "cells s' (x + 16) = cells s (x + 16)" if "x \<in> set xs" for x
    using same [OF that, of 0] same [OF that, of 8] same [OF that, of 16] by simp_all
  have pages: "pages_at s' x = pages_at s x" if "x \<in> set ys" for x
    using that start(2) same' by (auto simp: pages_at_def)
  have "nodes (cells s') (freelist s') ys"
    using start same' nodes_frame [of ys "cells s'" "cells s"] by (auto simp: subset_iff)
  then show "fl_inv s' ys"
    using assms(1,2) start same' pages unfolding fl_inv_def chunk_ok_def subset_iff by auto
  show "free_pages s' ys = free_pages s ys" using pages by (simp add: free_pages_def)
qed

section \<open>Allocation\<close>

lemma nodes_head: "nodes m p (x # xs) \<Longrightarrow> p = x \<and> x \<noteq> 0"
  by simp

lemma page_le_size: "aligned (sz :: u64) \<Longrightarrow> 0 < unat sz \<Longrightarrow> \<not> sz < PAGESIZE"
  unfolding aligned_def by (auto simp: word_less_nat_alt dest: dvd_imp_le)

text \<open>
  With a free list in order, the first chunk serves the request: its last page is handed out
  and only the first node's size cell is written.
\<close>

lemma pmem_alloc_cons:
  assumes inv: "fl_inv s (x # xs)"
  shows "\<exists>s' ys. pmem_alloc s = Inr (node_addr s x + node_size s x - PAGESIZE, s')
    \<and> fl_inv s' ys \<and> free_pages s' ys = free_pages s (x # xs) - {node_addr s x + node_size s x - PAGESIZE}
    \<and> node_addr s x + node_size s x - PAGESIZE \<in> free_pages s (x # xs)
    \<and> s' = s\<lparr>freelist := freelist s', cells := (cells s)(x := node_size s x - PAGESIZE)\<rparr>"
proof -
  let ?sz = "node_size s x" and ?p = "node_addr s x + node_size s x - PAGESIZE"
  let ?s1 = "store x (?sz - PAGESIZE) s"
  have chunk: "aligned (node_addr s x)" "x = node_addr s x + hhdm_addr s" "aligned ?sz"
      "0 < unat ?sz" "fits (node_addr s x) ?sz"
    using fl_inv_chunk [OF inv, of x] by (simp_all add: chunk_ok_def)
  have al: "aligned y" if "y \<in> set (x # xs)" for y using fl_inv_aligned [OF inv that] .
  have head: "freelist s = x" "x \<noteq> 0" "nodes (cells s) (node_next s x) xs" "x \<notin> set xs" "distinct xs"
    using inv by (auto simp: fl_inv_def)
  note chop = chunk_pages_chop [OF chunk(3,4,5)]
  have off [simp]: "x + 16 \<noteq> x" "x + 8 \<noteq> x" by (simp_all add: aligned_distinct al)
  have same: "cells ?s1 (y + d) = cells s (y + d)" if "y \<in> set xs" "d \<in> {0, 8, 16}" for y d
  proof -
    have "unat d < 4096" "y \<noteq> x" using that head(4) by auto
    then have "y + d \<noteq> x" using al that(1) by (simp add: aligned_distinct)
    then show ?thesis by (simp add: store_def)
  qed
  have disj: "pages_at s x \<inter> free_pages s xs = {}"
    using inv head(4) by (auto simp: fl_inv_def free_pages_def)
  have in_x: "?p \<in> pages_at s x" using chop(1) by (simp add: pages_at_def)
  show ?thesis
  proof (cases "?sz - PAGESIZE = 0")
    case True
    then have size: "?sz = PAGESIZE" by simp
    let ?s2 = "?s1\<lparr>freelist := node_next s x\<rparr>"
    have inv_xs: "fl_inv (s\<lparr>freelist := node_next s x\<rparr>) xs"
      using inv head by (auto simp: fl_inv_def chunk_ok_def pages_at_def)
    have "pmem_alloc s = Inr (?p, ?s2)"
      using True head page_le_size [OF chunk(3,4)]
      by (simp add: pmem_alloc_def pmem_alloc_loop.simps [of x] Let_def store_def)
    moreover have "fl_inv ?s2 xs \<and> free_pages ?s2 xs = free_pages (s\<lparr>freelist := node_next s x\<rparr>) xs"
      using fl_inv_frame [OF inv_xs, of ?s2 xs] same head by simp
    moreover have "free_pages (s\<lparr>freelist := node_next s x\<rparr>) xs = free_pages s xs"
      by (simp add: free_pages_def pages_at_def)
    moreover have "pages_at s x = {?p}"
      using size by (auto simp: pages_at_def chunk_pages_def)
    ultimately show ?thesis using disj True in_x
      by (intro exI [of _ ?s2] exI [of _ xs]) (auto simp: store_def)
  next
    case False
    have pos: "0 < unat (?sz - PAGESIZE)" using False by (simp add: unat_gt_0)
    have alp: "aligned (?sz - PAGESIZE)"
      using page_le_size [OF chunk(3,4)] chunk(3) by (intro aligned_sub) simp_all
    have fit: "fits (node_addr s x) (?sz - PAGESIZE)"
      using chunk(5) chop(3) by (simp add: fits_def)
    have ok: "chunk_ok ?s1 x" using chunk alp pos fit by (simp add: chunk_ok_def store_def)
    have px: "pages_at ?s1 x = pages_at s x - {?p}" using chop(2) by (simp add: pages_at_def store_def)
    have rest: "chunk_ok ?s1 y = chunk_ok s y" "pages_at ?s1 y = pages_at s y" if "y \<in> set xs" for y
      using same [OF that, of 0] same [OF that, of 8]
      by (simp_all add: chunk_ok_def pages_at_def)
    have "nodes (cells ?s1) x (x # xs)"
      using head nodes_frame [of xs "cells ?s1" "cells s"] same by (simp add: store_def)
    then have "fl_inv ?s1 (x # xs)"
      using inv ok rest px head unfolding fl_inv_def
      by (auto simp: store_def)
    moreover have "pmem_alloc s = Inr (?p, ?s1)"
      using False head page_le_size [OF chunk(3,4)]
      by (simp add: pmem_alloc_def pmem_alloc_loop.simps [of x] Let_def store_def)
    moreover have "free_pages ?s1 (x # xs) = free_pages s (x # xs) - {?p}"
      using px rest(2) disj in_x by (auto simp: free_pages_def)
    ultimately show ?thesis using in_x
      by (intro exI [of _ ?s1] exI [of _ "x # xs"]) (auto simp: store_def)
  qed
qed

lemma pmem_alloc_nil: "fl_inv s [] \<Longrightarrow> pmem_alloc s = Inr (-1, s)"
  by (simp add: fl_inv_def pmem_alloc_def pmem_alloc_loop.simps)

section \<open>Release\<close>

text \<open>
  Linking a chunk in front: its node is the first 24 bytes of its first page, which no other
  chunk holds, so no other node is written.
\<close>

lemma push_node_inv:
  assumes inv: "fl_inv s xs" and node: "node = a + hhdm_addr s" "node \<noteq> 0"
    and chunk: "aligned a" "aligned sz" "0 < unat sz" "fits a sz"
    and new: "chunk_pages a sz \<inter> free_pages s xs = {}"
  shows "fl_inv (push_node node sz a s) (node # xs)"
    and "free_pages (push_node node sz a s) (node # xs) = chunk_pages a sz \<union> free_pages s xs"
proof -
  let ?t = "push_node node sz a s"
  have al: "aligned node" using node(1) chunk(1) inv by (simp add: fl_inv_def aligned_add)
  have notin: "node \<notin> set xs"
  proof
    assume "node \<in> set xs"
    then have "a \<in> pages_at s node" using node_page_free [OF inv] node(1) by fastforce
    then have "a \<in> free_pages s xs" using \<open>node \<in> set xs\<close> by (auto simp: free_pages_def)
    with new chunk_first_page [OF chunk(2,3)] show False by blast
  qed
  have off [simp]: "node + 8 \<noteq> node" "node + 16 \<noteq> node" "node + 8 \<noteq> node + 16"
    by (simp_all add: aligned_distinct al)
  have at_node: "cells ?t node = sz" "cells ?t (node + 8) = a" "cells ?t (node + 16) = freelist s"
      "freelist ?t = node" "hhdm_addr ?t = hhdm_addr s"
    using off off [symmetric] by (simp_all add: push_node_def Let_def store_def)
  have same: "cells ?t (y + d) = cells s (y + d)" if "y \<in> set xs" "d \<in> {0, 8, 16}" for y d
  proof -
    have "y \<noteq> node" "aligned y" "unat d < 4096" using that notin fl_inv_aligned [OF inv] by auto
    then have "y + d \<noteq> node" "y + d \<noteq> node + 8" "y + d \<noteq> node + 16"
      using al by (simp_all add: aligned_distinct)
    then show ?thesis by (simp add: push_node_def Let_def store_def)
  qed
  have rest: "chunk_ok ?t y = chunk_ok s y" "pages_at ?t y = pages_at s y" if "y \<in> set xs" for y
    using same [OF that, of 0] same [OF that, of 8] at_node(5)
    by (simp_all add: chunk_ok_def pages_at_def)
  have pages: "pages_at ?t node = chunk_pages a sz" using at_node by (simp add: pages_at_def)
  have "nodes (cells ?t) node (node # xs)"
    using inv at_node node(2) nodes_frame [of xs "cells ?t" "cells s"] same by (simp add: fl_inv_def)
  moreover have "chunk_ok ?t node" using at_node node chunk by (simp add: chunk_ok_def)
  moreover have "pages_at s y \<inter> chunk_pages a sz = {}" if "y \<in> set xs" for y
    using new that by (auto simp: free_pages_def)
  ultimately show "fl_inv ?t (node # xs)"
    using inv rest pages notin at_node(4,5) unfolding fl_inv_def by auto
  show "free_pages ?t (node # xs) = chunk_pages a sz \<union> free_pages s xs"
    using rest(2) pages by (simp add: free_pages_def)
qed

lemma page_chunk: "chunk_pages p PAGESIZE = {p}"
  by (auto simp: chunk_pages_def)

lemma pmem_free_inv:
  assumes "fl_inv s xs" and "aligned p" and "p + hhdm_addr s \<noteq> 0" and "p \<notin> free_pages s xs"
  shows "fl_inv (pmem_free p s) ((p + hhdm_addr s) # xs)"
    and "free_pages (pmem_free p s) ((p + hhdm_addr s) # xs) = insert p (free_pages s xs)"
  using push_node_inv [OF assms(1) refl assms(3,2), of PAGESIZE] assms aligned_room [of p]
  by (simp_all add: pmem_free_def page_chunk fits_def)

section \<open>Initialisation from the memory map\<close>

definition usable :: "mmap_entry list \<Rightarrow> mmap_entry list" where
  "usable memmap = filter (\<lambda>e. mm_type e = 1) memmap"

definition entry_pages :: "mmap_entry \<Rightarrow> u64 set" where
  "entry_pages e = chunk_pages (mm_base e) (mm_length e)"

text \<open>
  What the boot protocol documents of the map: usable entries are page-aligned, not empty and
  do not overlap. The direct map sends no usable page to address 0.
\<close>

definition memmap_ok :: "u64 \<Rightarrow> mmap_entry list \<Rightarrow> bool" where
  "memmap_ok hhdm memmap \<longleftrightarrow> aligned hhdm
     \<and> (\<forall>e \<in> set (usable memmap). aligned (mm_base e) \<and> aligned (mm_length e)
          \<and> 0 < unat (mm_length e) \<and> fits (mm_base e) (mm_length e) \<and> mm_base e + hhdm \<noteq> 0)
     \<and> pairwise (\<lambda>e f. disjnt e f) (set (map entry_pages (usable memmap)))
     \<and> distinct (map entry_pages (usable memmap))"

lemma push_node_fields [simp]:
  "hhdm_addr (push_node n z a s) = hhdm_addr s" "con (push_node n z a s) = con s"
  "cr3 (push_node n z a s) = cr3 s" "freelist (push_node n z a s) = n"
  by (simp_all add: push_node_def Let_def)

lemma freelist_add_fields [simp]:
  "hhdm_addr (freelist_add es s) = hhdm_addr s" "con (freelist_add es s) = con s"
  "cr3 (freelist_add es s) = cr3 s"
  by (induction es s rule: freelist_add.induct) simp_all

lemma memmap_ok_Cons:
  assumes "memmap_ok h (e # es)"
  shows "memmap_ok h es"
    and "mm_type e = 1 \<Longrightarrow> aligned (mm_base e) \<and> aligned (mm_length e) \<and> 0 < unat (mm_length e)
      \<and> fits (mm_base e) (mm_length e) \<and> mm_base e + h \<noteq> 0
      \<and> entry_pages e \<inter> \<Union> (entry_pages ` set (usable es)) = {}"
  using assms by (auto simp: memmap_ok_def usable_def pairwise_def disjnt_def split: if_splits)

lemma disjoint_step:
  "A = E \<union> F \<Longrightarrow> E \<inter> U = {} \<Longrightarrow> F \<inter> (E \<union> U) = {} \<Longrightarrow> A \<inter> U = {}"
  by blast

lemma freelist_add_inv:
  "fl_inv s xs \<Longrightarrow> memmap_ok (hhdm_addr s) es \<Longrightarrow>
   free_pages s xs \<inter> \<Union> (entry_pages ` set (usable es)) = {} \<Longrightarrow>
   \<exists>ys. fl_inv (freelist_add es s) ys
     \<and> free_pages (freelist_add es s) ys = free_pages s xs \<union> \<Union> (entry_pages ` set (usable es))"
proof (induction es arbitrary: s xs)
  case Nil
  then show ?case by (auto simp: usable_def)
next
  case (Cons e es)
  note ok = memmap_ok_Cons [OF Cons.prems(2)]
  show ?case
  proof (cases "mm_type e = 1")
    case False
    then show ?thesis using Cons ok(1) by (auto simp: usable_def)
  next
    case True
    let ?n = "mm_base e + hhdm_addr s"
    let ?t = "push_node ?n (mm_length e) (mm_base e) s"
    have u: "\<Union> (entry_pages ` set (usable (e # es))) = entry_pages e \<union> \<Union> (entry_pages ` set (usable es))"
      using True by (simp add: usable_def)
    have d: "entry_pages e \<inter> \<Union> (entry_pages ` set (usable es)) = {}" using ok(2) True by blast
    have disj: "chunk_pages (mm_base e) (mm_length e) \<inter> free_pages s xs = {}"
      using Cons.prems(3) True by (auto simp: usable_def entry_pages_def)
    have e: "?n \<noteq> 0" "aligned (mm_base e)" "aligned (mm_length e)" "0 < unat (mm_length e)"
        "fits (mm_base e) (mm_length e)"
      using ok(2) True by simp_all
    have t: "fl_inv ?t (?n # xs)" "free_pages ?t (?n # xs) = entry_pages e \<union> free_pages s xs"
      using push_node_inv [OF Cons.prems(1) refl e disj] by (simp_all only: entry_pages_def)
    have dis: "free_pages ?t (?n # xs) \<inter> \<Union> (entry_pages ` set (usable es)) = {}"
      by (rule disjoint_step [OF t(2) d]) (use Cons.prems(3) u in simp)
    have "memmap_ok (hhdm_addr ?t) es" using ok(1) by simp
    from Cons.IH [OF t(1) this dis] obtain ys where "fl_inv (freelist_add es ?t) ys"
      and "free_pages (freelist_add es ?t) ys
        = free_pages ?t (?n # xs) \<union> \<Union> (entry_pages ` set (usable es))" by (elim exE conjE)
    moreover have "freelist_add (e # es) s = freelist_add es ?t" using True by simp
    ultimately show ?thesis unfolding u t(2) by (intro exI [of _ ys]) (simp add: Un_ac)
  qed
qed

section \<open>The allocator interface\<close>

text \<open>
  What a client relies on: as long as something is available an allocation takes it out of
  the pool, and on an empty pool it reports failure and changes nothing. \<open>alloc_n\<close> is a
  client that allocates until it has \<open>n\<close> or the pool is empty.
\<close>

locale allocator =
  fixes alloc :: "'s \<Rightarrow> ('p option \<times> 's) res" and inv :: "'s \<Rightarrow> bool" and avail :: "'s \<Rightarrow> 'p set"
  assumes alloc_some: "inv s \<Longrightarrow> avail s \<noteq> {} \<Longrightarrow>
      \<exists>p s'. alloc s = Inr (Some p, s') \<and> p \<in> avail s \<and> avail s' = avail s - {p} \<and> inv s'"
    and alloc_none: "inv s \<Longrightarrow> avail s = {} \<Longrightarrow> alloc s = Inr (None, s)"
begin

primrec alloc_n :: "nat \<Rightarrow> 's \<Rightarrow> ('p list \<times> 's) res" where
  "alloc_n 0 s = Inr ([], s)"
| "alloc_n (Suc n) s = bindE (alloc s) (\<lambda>(r, s). case r of None \<Rightarrow> Inr ([], s)
     | Some p \<Rightarrow> map_res (\<lambda>(ps, s). (p # ps, s)) (alloc_n n s))"

lemma alloc_n_distinct:
  "inv s \<Longrightarrow> finite (avail s) \<Longrightarrow>
   \<exists>ps s'. alloc_n n s = Inr (ps, s') \<and> distinct ps \<and> set ps \<subseteq> avail s
     \<and> avail s' = avail s - set ps \<and> inv s' \<and> length ps = min n (card (avail s))"
proof (induction n arbitrary: s)
  case (Suc n)
  show ?case
  proof (cases "avail s = {}")
    case True
    then show ?thesis using alloc_none Suc.prems by simp
  next
    case False
    from alloc_some [OF Suc.prems(1) this] obtain p t where p: "alloc s = Inr (Some p, t)"
      "p \<in> avail s" "avail t = avail s - {p}" "inv t" by (elim exE conjE)
    have "finite (avail t)" using p(3) Suc.prems(2) by simp
    from Suc.IH [OF p(4) this] obtain ps s' where ps:
      "alloc_n n t = Inr (ps, s')" "distinct ps" "set ps \<subseteq> avail t" "avail s' = avail t - set ps"
      "inv s'" "length ps = min n (card (avail t))" by (elim exE conjE)
    have "card (avail s) = Suc (card (avail t))"
      using card.remove [OF Suc.prems(2) p(2)] p(3) by simp
    then show ?thesis using p ps by (intro exI [of _ "p # ps"] exI [of _ s']) auto
  qed
qed simp

end

text \<open>\<open>pmem_alloc\<close> through that interface: \<open>-1\<close> is the failure value, no page address.\<close>

definition page_alloc :: "mem_state \<Rightarrow> (u64 option \<times> mem_state) res" where
  "page_alloc s = map_res (\<lambda>(p, s). (if p = -1 then None else Some p, s)) (pmem_alloc s)"

definition mem_inv :: "mem_state \<Rightarrow> bool" where
  "mem_inv s \<longleftrightarrow> (\<exists>xs. fl_inv s xs)"

text \<open>The free pages of a state in order; \<open>{}\<close> for any other.\<close>

definition mem_avail :: "mem_state \<Rightarrow> u64 set" where
  "mem_avail s = {p. \<exists>xs. fl_inv s xs \<and> p \<in> free_pages s xs}"

lemma fl_inv_unique: "fl_inv s xs \<Longrightarrow> fl_inv s ys \<Longrightarrow> xs = ys"
  unfolding fl_inv_def by (blast dest: nodes_unique)

lemma mem_avail_eq: "fl_inv s xs \<Longrightarrow> mem_avail s = free_pages s xs"
  using fl_inv_unique by (auto simp: mem_avail_def)

lemma page_not_minus_one: "aligned p \<Longrightarrow> p \<noteq> -1"
  by (auto simp: aligned_def unsigned_minus_1_eq_mask mask_eq_exp_minus_1)

interpretation pages: allocator page_alloc mem_inv mem_avail
proof unfold_locales
  fix s assume "mem_inv s" and ne: "mem_avail s \<noteq> {}"
  then obtain xs where xs: "fl_inv s xs" by (auto simp: mem_inv_def)
  then obtain x rest where cons: "xs = x # rest"
    using ne mem_avail_eq by (cases xs) (auto simp: free_pages_def)
  obtain p s' ys where p: "pmem_alloc s = Inr (p, s')" "fl_inv s' ys"
      "free_pages s' ys = free_pages s xs - {p}" "p \<in> free_pages s xs"
    using pmem_alloc_cons xs cons by blast
  have "p \<noteq> -1" using free_pages_aligned [OF xs p(4)] page_not_minus_one by blast
  then show "\<exists>p s'. page_alloc s = Inr (Some p, s') \<and> p \<in> mem_avail s
      \<and> mem_avail s' = mem_avail s - {p} \<and> mem_inv s'"
    using p xs by (auto simp: page_alloc_def mem_avail_eq mem_inv_def)
next
  fix s assume "mem_inv s" and empty: "mem_avail s = {}"
  then obtain xs where xs: "fl_inv s xs" by (auto simp: mem_inv_def)
  then have "xs = []"
    using empty node_page_free [OF xs] mem_avail_eq [OF xs] by (cases xs) (auto simp: free_pages_def)
  then show "page_alloc s = Inr (None, s)" using xs pmem_alloc_nil by (simp add: page_alloc_def)
qed

end
