(* ===== verification/Paging.thy ===== *)
theory Paging
  imports Physmem
begin

text \<open>
  Four-level page tables, \<^verbatim>\<open>src/kernel/memory.c\<close> from \<open>translate\<close> to \<open>unmap_lower_half\<close>.
  A page-table entry is the 64-bit cell that holds it; the bit-fields of \<open>pt_entry_t\<close> are
  read and written in the cell (\<open>present\<close> bit 0, \<open>writable\<close> 1, \<open>user\<close> 2, \<open>page_size\<close> 7,
  \<open>address\<close> bits 12 to 51, \<open>no_execute\<close> bit 63).
\<close>

section \<open>Page-table entries\<close>

definition pte_present :: "u64 \<Rightarrow> bool" where "pte_present e = bit e 0"
definition pte_writable :: "u64 \<Rightarrow> bool" where "pte_writable e = bit e 1"
definition pte_user :: "u64 \<Rightarrow> bool" where "pte_user e = bit e 2"
definition pte_page_size :: "u64 \<Rightarrow> bool" where "pte_page_size e = bit e 7"
definition pte_no_execute :: "u64 \<Rightarrow> bool" where "pte_no_execute e = bit e 63"

definition pte_address :: "u64 \<Rightarrow> u64" where
  "pte_address e = drop_bit 12 e AND mask 40"

definition put_bit :: "nat \<Rightarrow> bool \<Rightarrow> u64 \<Rightarrow> u64" where
  "put_bit n b e = (if b then set_bit n e else unset_bit n e)"

text \<open>Assigning the fields \<open>present\<close>, \<open>user\<close>, \<open>writable\<close> and \<open>no_execute\<close>.\<close>

definition pte_set_flags :: "bool \<Rightarrow> bool \<Rightarrow> bool \<Rightarrow> bool \<Rightarrow> u64 \<Rightarrow> u64" where
  "pte_set_flags p u w nx e = put_bit 63 nx (put_bit 1 w (put_bit 2 u (put_bit 0 p e)))"

definition pte_set_address :: "u64 \<Rightarrow> u64 \<Rightarrow> u64" where
  "pte_set_address a e = (e AND NOT (push_bit 12 (mask 40))) OR push_bit 12 (a AND mask 40)"

text \<open>The table or page an entry refers to, as a physical address.\<close>

definition pte_target :: "u64 \<Rightarrow> u64" where
  "pte_target e = push_bit 12 (pte_address e)"

text \<open>The index of an address in the table whose index bits start at bit \<open>sh\<close>.\<close>

definition pt_index :: "u64 \<Rightarrow> nat \<Rightarrow> u64" where
  "pt_index address sh = drop_bit sh address AND 0x1FF"

definition entry_at :: "mem_state \<Rightarrow> u64 \<Rightarrow> u64 \<Rightarrow> nat \<Rightarrow> u64" where
  "entry_at s table address sh = ptov table s + 8 * pt_index address sh"

definition invalidate_tlb :: "u64 \<Rightarrow> mem_state \<Rightarrow> mem_state" where
  "invalidate_tlb a s = s\<lparr>tlb_log := a # tlb_log s\<rparr>"

definition write_cr3 :: "u64 \<Rightarrow> mem_state \<Rightarrow> mem_state" where
  "write_cr3 v s = s\<lparr>cr3 := v\<rparr>"

definition zero_page :: "u64 \<Rightarrow> mem_state \<Rightarrow> mem_state" where
  "zero_page base s = s\<lparr>cells := (\<lambda>a. if a - base < PAGESIZE then 0 else cells s a)\<rparr>"

section \<open>vm_map\<close>

text \<open>
  The loop over levels 4 to 2, by the shifts of their index bits. The result is the table
  reached (\<open>None\<close> when no page was left for a missing table) and the state.
\<close>

fun vm_map_walk :: "nat list \<Rightarrow> u64 \<Rightarrow> u64 \<Rightarrow> mem_state \<Rightarrow> (u64 option \<times> mem_state) res" where
  "vm_map_walk [] address cur_phys_table s = Inr (Some cur_phys_table, s)"
| "vm_map_walk (sh # shs) address cur_phys_table s =
    (let cur_entry = entry_at s cur_phys_table address sh in
     if pte_present (cells s cur_entry) then
       vm_map_walk shs address (pte_target (cells s cur_entry)) s
     else bindE (pmem_alloc s) (\<lambda>(new_page, s).
       if new_page = -1 then
         bindE (mprintf (c_lit ''Could not allocate new page'') [] s) (\<lambda>s. Inr (None, s))
       else
        (let s = zero_page (ptov new_page s) s;
             s = store cur_entry (pte_set_flags True True True False (cells s cur_entry)) s;
             s = store cur_entry (pte_set_address (drop_bit 12 new_page) (cells s cur_entry)) s
         in vm_map_walk shs address (pte_target (cells s cur_entry)) s)))"

definition vm_map :: "u64 \<Rightarrow> u64 \<Rightarrow> bool \<Rightarrow> bool \<Rightarrow> bool \<Rightarrow> mem_state \<Rightarrow> (bool \<times> mem_state) res" where
  "vm_map root address user writable executable s =
     bindE (vm_map_walk [39, 30, 21] address root s) (\<lambda>(r, s).
       case r of None \<Rightarrow> Inr (False, s)
       | Some table \<Rightarrow>
          (let cur_entry = entry_at s table address 12 in
           if pte_present (cells s cur_entry) then
             bindE (mprintf (c_lit (''Address is already mapped'' @ [CHR 0x0A])) [] s) (\<lambda>s. Inr (False, s))
           else
             Inr (True, invalidate_tlb address
               (store cur_entry
                 (pte_set_flags True user writable (\<not> executable) (cells s cur_entry)) s))))"

section \<open>vm_protect, vm_unmap\<close>

text \<open>
  \<open>vm_protect\<close> works on \<open>cur_entry\<close>, a copy of the entry: the assignments at its end are to
  the copy, the third component of \<open>vm_protect_copy\<close>.
\<close>

fun vm_protect_walk :: "nat list \<Rightarrow> u64 \<Rightarrow> u64 \<Rightarrow> mem_state \<Rightarrow> u64 option" where
  "vm_protect_walk [] address cur_phys_table s = Some cur_phys_table"
| "vm_protect_walk (sh # shs) address cur_phys_table s =
    (let cur_entry = cells s (entry_at s cur_phys_table address sh) in
     if \<not> pte_present cur_entry then None
     else vm_protect_walk shs address (pte_target cur_entry) s)"

definition vm_protect_copy ::
  "u64 \<Rightarrow> u64 \<Rightarrow> bool \<Rightarrow> bool \<Rightarrow> bool \<Rightarrow> mem_state \<Rightarrow> bool \<times> mem_state \<times> u64" where
  "vm_protect_copy root address user writable executable s =
    (case vm_protect_walk [39, 30, 21] address root s of
       None \<Rightarrow> (False, s, 0)
     | Some table \<Rightarrow>
        (let cur_entry = cells s (entry_at s table address 12) in
         if \<not> pte_present cur_entry then (False, s, cur_entry)
         else
          (let cur_entry = put_bit 2 user cur_entry;
               cur_entry = put_bit 1 writable cur_entry;
               cur_entry = put_bit 63 (\<not> executable) cur_entry
           in (True, invalidate_tlb address s, cur_entry))))"

definition vm_protect :: "u64 \<Rightarrow> u64 \<Rightarrow> bool \<Rightarrow> bool \<Rightarrow> bool \<Rightarrow> mem_state \<Rightarrow> bool \<times> mem_state" where
  "vm_protect root address user writable executable s =
    (case vm_protect_copy root address user writable executable s of (rc, s, _) \<Rightarrow> (rc, s))"

definition vm_unmap :: "u64 \<Rightarrow> u64 \<Rightarrow> mem_state \<Rightarrow> bool \<times> mem_state" where
  "vm_unmap root address s = (True, s)"

section \<open>translate\<close>

fun translate_walk :: "nat list \<Rightarrow> nat \<Rightarrow> u64 \<Rightarrow> u64 \<Rightarrow> mem_state \<Rightarrow> (u64 option \<times> mem_state) res" where
  "translate_walk [] i address cur_phys_table s = Inr (Some cur_phys_table, s)"
| "translate_walk (sh # shs) i address cur_phys_table s =
    (let cur_index = pt_index address sh;
         cur_entry = cells s (ptov cur_phys_table s + 8 * cur_index)
     in bindE (mprintf (c_lit (''  Level %d (%d index of %p)'' @ [CHR 0x0A]))
                 [Word_Arg (of_nat (4 - i)), Word_Arg cur_index, Word_Arg cur_phys_table] s) (\<lambda>s.
        if pte_present cur_entry then
          (let next_table = pte_target cur_entry in
           bindE (mprintf (c_lit ''    %s'')
                   [Str_Arg (if pte_user cur_entry then c_lit ''user'' else c_lit ''kernel'')] s) (\<lambda>s.
           bindE (mprintf (c_lit ''%s'')
                   [Str_Arg (if pte_writable cur_entry then c_lit '' writable'' else c_lit '''')] s) (\<lambda>s.
           bindE (mprintf (c_lit ''%s'')
                   [Str_Arg (if pte_no_execute cur_entry then c_lit '''' else c_lit '' executable'')] s) (\<lambda>s.
           bindE (mprintf (c_lit ('' -> %p'' @ [CHR 0x0A])) [Word_Arg next_table] s) (\<lambda>s.
             translate_walk shs (Suc i) address next_table s)))))
        else bindE (mprintf (c_lit (''    not present'' @ [CHR 0x0A])) [] s) (\<lambda>s. Inr (None, s))))"

definition translate :: "u64 \<Rightarrow> u64 \<Rightarrow> mem_state \<Rightarrow> mem_state res" where
  "translate page_table address s =
     bindE (mprintf (c_lit (''Translating %p'' @ [CHR 0x0A])) [Word_Arg address] s) (\<lambda>s.
     bindE (translate_walk [39, 30, 21, 12] 0 address (page_table AND NOT 0xFFF) s) (\<lambda>(r, s).
       case r of None \<Rightarrow> Inr s
       | Some cur_phys_table \<Rightarrow>
           mprintf (c_lit (''%p maps to %p'' @ [CHR 0x0A]))
             [Word_Arg address, Word_Arg (cur_phys_table + (address AND 0xFFF))] s))"

section \<open>unmap_lower_half\<close>

text \<open>The three nested loops, each over the indices that are left.\<close>

fun unmap_l2 :: "nat list \<Rightarrow> u64 \<Rightarrow> mem_state \<Rightarrow> mem_state" where
  "unmap_l2 [] l2_table s = s"
| "unmap_l2 (l2_index # is) l2_table s =
    (let e = cells s (l2_table + 8 * of_nat l2_index) in
     unmap_l2 is l2_table
       (if pte_present e \<and> \<not> pte_page_size e then pmem_free (pte_target e) s else s))"

fun unmap_l3 :: "nat list \<Rightarrow> u64 \<Rightarrow> mem_state \<Rightarrow> mem_state" where
  "unmap_l3 [] l3_table s = s"
| "unmap_l3 (l3_index # is) l3_table s =
    (let p = l3_table + 8 * of_nat l3_index; e = cells s p in
     unmap_l3 is l3_table
       (if pte_present e \<and> \<not> pte_page_size e then
          (let s = unmap_l2 [0..<512] (ptov (pte_target e) s) s
           in pmem_free (pte_target (cells s p)) s)
        else s))"

fun unmap_l4 :: "nat list \<Rightarrow> u64 \<Rightarrow> mem_state \<Rightarrow> mem_state" where
  "unmap_l4 [] l4_table s = s"
| "unmap_l4 (l4_index # is) l4_table s =
    (let p = l4_table + 8 * of_nat l4_index in
     unmap_l4 is l4_table
       (if pte_present (cells s p) then
          (let s = store p (put_bit 0 False (cells s p)) s;
               s = unmap_l3 [0..<512] (ptov (pte_target (cells s p)) s) s
           in pmem_free (pte_target (cells s p)) s)
        else s))"

definition unmap_lower_half :: "u64 \<Rightarrow> mem_state \<Rightarrow> mem_state" where
  "unmap_lower_half root s =
    (let s = unmap_l4 [0..<256] (ptov root s) s in write_cr3 (read_cr3 s) s)"

section \<open>Fields of an entry\<close>

lemma bit_put_bit: "n < 64 \<Longrightarrow> bit (put_bit n b e) k \<longleftrightarrow> (if k = n then b else bit e k)"
  by (auto simp: put_bit_def bit_set_bit_iff bit_unset_bit_iff)

lemma pte_flags [simp]:
  "pte_present (pte_set_flags p u w nx e) = p" "pte_user (pte_set_flags p u w nx e) = u"
  "pte_writable (pte_set_flags p u w nx e) = w" "pte_no_execute (pte_set_flags p u w nx e) = nx"
  by (simp_all add: pte_present_def pte_user_def pte_writable_def pte_no_execute_def
      pte_set_flags_def bit_put_bit)

lemma pte_address_flags [simp]: "pte_address (pte_set_flags p u w nx e) = pte_address e"
  unfolding pte_address_def pte_set_flags_def
  by (rule bit_word_eqI) (auto simp: bit_simps bit_put_bit)

lemma pte_target_flags [simp]: "pte_target (pte_set_flags p u w nx e) = pte_target e"
  by (simp add: pte_target_def)

lemma pte_present_address [simp]: "pte_present (pte_set_address a e) = pte_present e"
  by (simp add: pte_present_def pte_set_address_def bit_simps)

lemma pte_address_set [simp]: "pte_address (pte_set_address a e) = a AND mask 40"
  unfolding pte_address_def pte_set_address_def
  by (rule bit_word_eqI) (auto simp: bit_simps)

text \<open>Physical addresses have at most 52 bits, which is what an entry can hold.\<close>

definition phys :: "u64 \<Rightarrow> bool" where
  "phys p \<longleftrightarrow> drop_bit 52 p = 0"

lemma aligned_low_bits: "aligned p \<Longrightarrow> k < 12 \<Longrightarrow> \<not> bit p k"
proof -
  assume "aligned p" and k: "k < 12"
  have "unat (take_bit 12 p) = take_bit 12 (unat p)" by (rule unsigned_take_bit_eq)
  also have "\<dots> = 0" using \<open>aligned p\<close> unfolding aligned_def take_bit_eq_mod by simp
  finally have "take_bit 12 p = 0" by (simp only: unat_eq_0)
  then have "\<not> bit (take_bit 12 p) k" by simp
  with k show ?thesis by (simp add: bit_take_bit_iff)
qed

lemma phys_high_bits: "phys p \<Longrightarrow> 52 \<le> k \<Longrightarrow> \<not> bit p k"
proof -
  assume "phys p" and k: "52 \<le> k"
  then have "\<not> bit (drop_bit 52 p) (k - 52)" by (simp add: phys_def)
  with k show ?thesis by (simp add: bit_drop_bit_eq)
qed

lemma pte_target_set: "aligned p \<Longrightarrow> phys p \<Longrightarrow> pte_target (pte_set_address (drop_bit 12 p) e) = p"
proof -
  assume p: "aligned p" "phys p"
  have "bit (push_bit 12 (drop_bit 12 p AND mask 40)) n \<longleftrightarrow> bit p n" if "n < 64" for n
  proof (cases "12 \<le> n")
    case True
    have "n < 52 \<or> \<not> bit p n" using phys_high_bits [of p n] p by (cases "52 \<le> n") auto
    with True that show ?thesis by (auto simp: bit_simps)
  next
    case False
    with p aligned_low_bits [of p n] show ?thesis by (simp add: bit_simps)
  qed
  then show ?thesis unfolding pte_target_def pte_address_set by (intro bit_word_eqI) simp
qed

lemma aligned_push: "aligned (push_bit 12 w)"
proof -
  have "unat (push_bit 12 w) = (unat w * 4096) mod 2 ^ 64"
    by (simp only: unsigned_push_bit_eq) (simp add: push_bit_eq_mult take_bit_eq_mod)
  then show ?thesis by (simp add: aligned_def dvd_mod_iff)
qed

lemma pte_target_aligned [simp]: "aligned (pte_target e)"
  by (simp add: pte_target_def aligned_push)

lemma pt_index_bound: "unat (8 * pt_index address sh) < 4096"
proof -
  have "pt_index address sh \<le> 0x1FF" unfolding pt_index_def by (rule word_and_le1)
  then have "unat (pt_index address sh) \<le> 511" by (simp add: word_le_nat_alt)
  then show ?thesis by (simp add: unat_word_ariths)
qed

section \<open>What vm_map does to the tables\<close>

text \<open>The tables a walk visits until one is missing, and the table it ends at, if any.\<close>

fun path_tables :: "mem_state \<Rightarrow> nat list \<Rightarrow> u64 \<Rightarrow> u64 \<Rightarrow> u64 list" where
  "path_tables s [] address t = [t]"
| "path_tables s (sh # shs) address t =
    t # (let e = cells s (entry_at s t address sh) in
         if pte_present e then path_tables s shs address (pte_target e) else [])"

fun table_path :: "mem_state \<Rightarrow> nat list \<Rightarrow> u64 \<Rightarrow> u64 \<Rightarrow> u64 option" where
  "table_path s [] address t = Some t"
| "table_path s (sh # shs) address t =
    (let e = cells s (entry_at s t address sh) in
     if pte_present e then table_path s shs address (pte_target e) else None)"

text \<open>
  The memory that serves a walk: a free list in order whose pages are physical pages, a
  terminal in order (for the messages), and on the path pairwise distinct, page-aligned tables
  that are not free.
\<close>

definition walk_ok :: "mem_state \<Rightarrow> u64 list \<Rightarrow> nat list \<Rightarrow> u64 \<Rightarrow> u64 \<Rightarrow> bool" where
  "walk_ok s xs shs address t \<longleftrightarrow> fl_inv s xs \<and> term_ok (con s) \<and> (\<forall>p \<in> free_pages s xs. phys p)
     \<and> distinct (path_tables s shs address t)
     \<and> (\<forall>q \<in> set (path_tables s shs address t). aligned q \<and> q \<notin> free_pages s xs)"

text \<open>Two states agree on the page with a physical address.\<close>

definition same_page :: "mem_state \<Rightarrow> mem_state \<Rightarrow> u64 \<Rightarrow> bool" where
  "same_page s s' q \<longleftrightarrow> (\<forall>d. unat d < 4096 \<longrightarrow> cells s' (q + hhdm_addr s + d) = cells s (q + hhdm_addr s + d))"

lemma ptov_offset_eq:
  assumes "aligned q" and "aligned p" and "unat d < 4096" and "unat e < 4096"
  shows "q + h + d = p + h + e \<longleftrightarrow> q = p \<and> d = e"
  using aligned_offset_eq [OF assms] by (simp add: add.commute add.left_commute)

lemma entry_at_page: "entry_at s t address sh = t + hhdm_addr s + 8 * pt_index address sh"
  by (simp add: entry_at_def ptov_def)

lemma same_page_entry:
  "same_page s s' t \<Longrightarrow> hhdm_addr s' = hhdm_addr s \<Longrightarrow>
   cells s' (entry_at s' t address sh) = cells s (entry_at s t address sh)"
  using pt_index_bound by (simp add: same_page_def entry_at_page)

lemma zero_page_cells:
  assumes "aligned p" and "aligned q" and "unat d < 4096"
  shows "cells (zero_page (p + h) s) (q + h + d) = (if q = p then 0 else cells s (q + h + d))"
proof -
  have "q + h + d - (p + h) < PAGESIZE \<longleftrightarrow> q = p"
  proof
    assume lt: "q + h + d - (p + h) < PAGESIZE"
    define e where "e = q + h + d - (p + h)"
    have "q + d = p + e" by (simp add: e_def)
    moreover have "unat e < 4096" using lt by (simp add: e_def word_less_nat_alt)
    ultimately show "q = p" using aligned_offset_eq assms by blast
  qed (use assms(3) in \<open>simp add: word_less_nat_alt\<close>)
  then show ?thesis by (simp add: zero_page_def)
qed

lemma zero_page_fields [simp]:
  "hhdm_addr (zero_page b s) = hhdm_addr s" "freelist (zero_page b s) = freelist s"
  "con (zero_page b s) = con s" "cr3 (zero_page b s) = cr3 s"
  by (simp_all add: zero_page_def)

text \<open>Writes to pages outside the free memory keep the free list.\<close>

lemma fl_inv_outside:
  assumes "fl_inv s xs" and "hhdm_addr s' = hhdm_addr s" and "freelist s' = freelist s"
    and "\<And>q. q \<in> free_pages s xs \<Longrightarrow> same_page s s' q"
  shows "fl_inv s' xs" and "free_pages s' xs = free_pages s xs"
proof -
  have same: "cells s' (x + d) = cells s (x + d)" if "x \<in> set xs" "d \<in> {0, 8, 16}" for x d
  proof -
    have "x - hhdm_addr s \<in> free_pages s xs"
      using node_page_free [OF assms(1) that(1)] that(1) by (auto simp: free_pages_def)
    moreover have "unat d < 4096" using that(2) by auto
    ultimately show ?thesis using assms(4) by (fastforce simp: same_page_def)
  qed
  have "nodes (cells s) (freelist s') xs" "distinct xs"
    using assms(1,3) by (simp_all add: fl_inv_def)
  then show "fl_inv s' xs" "free_pages s' xs = free_pages s xs"
    using fl_inv_frame [OF assms(1,2), of xs] same by auto
qed

lemma mprintf_ok:
  assumes "term_ok (con s)" and "kfmt fmt args = Inr out"
  shows "\<exists>c. mprintf fmt args s = Inr (s\<lparr>con := c\<rparr>) \<and> term_ok c
     \<and> screen_of c = fold screen_put out (screen_of (con s))"
  using kprintf_ok [OF assms] by (auto simp: mprintf_def)

lemma mprintf_plain:
  assumes "term_ok (con s)" and "0 \<notin> set (bytes_of m)" and "37 \<notin> set (bytes_of m)"
  shows "\<exists>c. mprintf (c_lit m) [] s = Inr (s\<lparr>con := c\<rparr>) \<and> term_ok c"
  using mprintf_ok [OF assms(1) kfmt_plain [OF assms(2,3)]] by (auto simp: c_lit_def)

text \<open>Creating a missing table: the state between the allocation and the next level.\<close>

definition link_table :: "u64 \<Rightarrow> u64 \<Rightarrow> mem_state \<Rightarrow> mem_state" where
  "link_table cur_entry new_page s =
    (let s = zero_page (ptov new_page s) s;
         s = store cur_entry (pte_set_flags True True True False (cells s cur_entry)) s
     in store cur_entry (pte_set_address (drop_bit 12 new_page) (cells s cur_entry)) s)"

lemma link_table_fields [simp]:
  "hhdm_addr (link_table e p s) = hhdm_addr s" "freelist (link_table e p s) = freelist s"
  "con (link_table e p s) = con s" "cr3 (link_table e p s) = cr3 s"
  by (simp_all add: link_table_def Let_def)

lemma vm_map_walk_new:
  assumes "\<not> pte_present (cells s (entry_at s t address sh))"
    and "pmem_alloc s = Inr (p, s1)" and "p \<noteq> -1"
  shows "vm_map_walk (sh # shs) address t s =
    (let e = entry_at s t address sh; s' = link_table e p s1
     in vm_map_walk shs address (pte_target (cells s' e)) s')"
  using assms by (simp add: link_table_def Let_def)

lemma pte_page_size_set [simp]:
  "pte_page_size (pte_set_flags p u w nx e) = pte_page_size e" "pte_page_size (pte_set_address a e) = pte_page_size e"
  by (simp_all add: pte_page_size_def pte_set_flags_def bit_put_bit pte_set_address_def bit_simps)

lemma link_table_effect:
  assumes "aligned p" and "phys p" and "aligned t" and "t \<noteq> p"
    and e: "e = t + hhdm_addr s + d" "unat d < 4096"
  shows "pte_present (cells (link_table e p s) e)" and "pte_target (cells (link_table e p s) e) = p"
    and "\<And>q. aligned q \<Longrightarrow> q \<noteq> p \<Longrightarrow> q \<noteq> t \<Longrightarrow> same_page s (link_table e p s) q"
    and "\<And>d. unat d < 4096 \<Longrightarrow> cells (link_table e p s) (p + hhdm_addr s + d) = 0"
    and "\<And>q d. aligned q \<Longrightarrow> q \<noteq> p \<Longrightarrow> unat d < 4096 \<Longrightarrow> q + hhdm_addr s + d \<noteq> e \<Longrightarrow>
       cells (link_table e p s) (q + hhdm_addr s + d) = cells s (q + hhdm_addr s + d)"
    and "pte_page_size (cells (link_table e p s) e) = pte_page_size (cells s e)"
proof -
  show "pte_page_size (cells (link_table e p s) e) = pte_page_size (cells s e)"
    using zero_page_cells [OF assms(1,3) e(2)] assms(4) e(1)
    by (simp add: link_table_def Let_def store_def ptov_def)
  show "pte_present (cells (link_table e p s) e)" "pte_target (cells (link_table e p s) e) = p"
    using pte_target_set [OF assms(1,2)] by (simp_all add: link_table_def Let_def store_def)
  show cell: "cells (link_table e p s) (q + hhdm_addr s + d') = cells s (q + hhdm_addr s + d')"
    if "aligned q" "q \<noteq> p" "unat d' < 4096" "q + hhdm_addr s + d' \<noteq> e" for q d'
    using zero_page_cells [OF assms(1) that(1,3)] that(2,4)
    by (simp add: link_table_def Let_def store_def ptov_def)
  show "same_page s (link_table e p s) q" if "aligned q" "q \<noteq> p" "q \<noteq> t" for q
    unfolding same_page_def
    using cell ptov_offset_eq [OF that(1) assms(3) _ e(2)] that e(1) by simp
  show "cells (link_table e p s) (p + hhdm_addr s + d') = 0" if d': "unat d' < 4096" for d'
  proof -
    have "p + hhdm_addr s + d' \<noteq> e" using ptov_offset_eq [OF assms(1,3) d' e(2)] assms(4) e(1) by simp
    then show ?thesis using zero_page_cells [OF assms(1,1) d']
      by (simp add: link_table_def Let_def store_def ptov_def)
  qed
qed

text \<open>A fresh, zeroed table has no entry, so a walk from it stops there.\<close>

lemma zero_table_path:
  assumes "\<And>d. unat d < 4096 \<Longrightarrow> cells s (p + hhdm_addr s + d) = 0"
  shows "path_tables s shs address p = [p]" and "shs \<noteq> [] \<Longrightarrow> table_path s shs address p = None"
proof -
  have "cells s (entry_at s p address sh) = 0" for sh
    using assms [OF pt_index_bound] by (simp add: entry_at_page)
  then show "path_tables s shs address p = [p]" "shs \<noteq> [] \<Longrightarrow> table_path s shs address p = None"
    by (cases shs; simp add: pte_present_def)+
qed

lemma same_page_trans:
  "same_page s t q \<Longrightarrow> same_page t u q \<Longrightarrow> hhdm_addr t = hhdm_addr s \<Longrightarrow> same_page s u q"
  by (simp add: same_page_def)

text \<open>One missing level: the allocator gives a page, which becomes the next table.\<close>

lemma new_table_step:
  assumes ok: "walk_ok s xs (sh # shs) address t"
    and absent: "\<not> pte_present (cells s (entry_at s t address sh))" and some: "free_pages s xs \<noteq> {}"
  shows "\<exists>p s4 ys. p \<in> free_pages s xs \<and> vm_map_walk (sh # shs) address t s = vm_map_walk shs address p s4
    \<and> walk_ok s4 ys shs address p \<and> free_pages s4 ys = free_pages s xs - {p}
    \<and> hhdm_addr s4 = hhdm_addr s \<and> cr3 s4 = cr3 s
    \<and> pte_present (cells s4 (entry_at s4 t address sh)) \<and> pte_target (cells s4 (entry_at s4 t address sh)) = p
    \<and> (\<forall>q. aligned q \<longrightarrow> q \<notin> free_pages s xs \<longrightarrow> q \<noteq> t \<longrightarrow> same_page s s4 q)
    \<and> (\<forall>d. unat d < 4096 \<longrightarrow> cells s4 (p + hhdm_addr s + d) = 0)
    \<and> (\<forall>q d. aligned q \<longrightarrow> q \<notin> free_pages s xs \<longrightarrow> unat d < 4096 \<longrightarrow>
         q + hhdm_addr s + d \<noteq> entry_at s t address sh \<longrightarrow>
         cells s4 (q + hhdm_addr s + d) = cells s (q + hhdm_addr s + d))
    \<and> pte_page_size (cells s4 (entry_at s t address sh)) = pte_page_size (cells s (entry_at s t address sh))"
proof -
  have inv: "fl_inv s xs" and t: "aligned t" "t \<notin> free_pages s xs"
    and ph: "\<And>p. p \<in> free_pages s xs \<Longrightarrow> phys p" and tok: "term_ok (con s)"
    using ok by (simp_all add: walk_ok_def)
  obtain x rest where xs: "xs = x # rest" using some by (cases xs) (auto simp: free_pages_def)
  define p where "p = node_addr s x + node_size s x - PAGESIZE"
  obtain s1 ys where s1: "pmem_alloc s = Inr (p, s1)" "fl_inv s1 ys" "free_pages s1 ys = free_pages s xs - {p}"
      "p \<in> free_pages s xs" "s1 = s\<lparr>freelist := freelist s1, cells := (cells s)(x := node_size s x - PAGESIZE)\<rparr>"
    using pmem_alloc_cons [of s x rest] inv unfolding xs p_def [symmetric] by blast
  have s1f: "hhdm_addr s1 = hhdm_addr s" "con s1 = con s" "cr3 s1 = cr3 s"
    by (subst s1(5), simp)+
  have p: "aligned p" "phys p" "t \<noteq> p" "p \<noteq> -1"
    using free_pages_aligned [OF inv s1(4)] ph s1(4) t page_not_minus_one by auto
  define e where "e = entry_at s t address sh"
  have e: "e = t + hhdm_addr s1 + 8 * pt_index address sh" by (simp add: e_def entry_at_page s1f)
  define s4 where "s4 = link_table e p s1"
  note eff = link_table_effect [OF p(1,2) t(1) p(3) e pt_index_bound, folded s4_def]
  have x_page: "x - hhdm_addr s \<in> free_pages s xs" "aligned (x - hhdm_addr s)"
    using node_page_free [OF inv, of x] free_pages_aligned [OF inv] xs by auto
  have same1: "same_page s s1 q" if "aligned q" "q \<notin> free_pages s xs" for q
    unfolding same_page_def
  proof (intro allI impI)
    fix d :: u64 assume "unat d < 4096"
    then have "q + hhdm_addr s + d \<noteq> x"
      using ptov_offset_eq [OF that(1) x_page(2), of d 0 "hhdm_addr s"] x_page(1) that(2) by auto
    then show "cells s1 (q + hhdm_addr s + d) = cells s (q + hhdm_addr s + d)" by (subst s1(5)) simp
  qed
  have same4: "same_page s s4 q" if "aligned q" "q \<notin> free_pages s xs" "q \<noteq> t" for q
  proof -
    have "q \<noteq> p" using that(2) s1(4) by blast
    then show ?thesis using same_page_trans [OF same1 [OF that(1,2)] eff(3)] that s1f by simp
  qed
  have cell4: "cells s4 (q + hhdm_addr s + d) = cells s (q + hhdm_addr s + d)"
    if "aligned q" "q \<notin> free_pages s xs" "unat d < 4096" "q + hhdm_addr s + d \<noteq> entry_at s t address sh" for q d
  proof -
    have "q \<noteq> p" using that(2) s1(4) by blast
    then show ?thesis
      using eff(5) [of q d] same1 [OF that(1,2)] that s1f by (simp add: same_page_def e_def)
  qed
  have "same_page s1 s4 q" if "q \<in> free_pages s1 ys" for q
    using eff(3) that free_pages_aligned [OF s1(2)] s1(3) t(2) by blast
  then have fl4: "fl_inv s4 ys" "free_pages s4 ys = free_pages s1 ys"
    using fl_inv_outside [OF s1(2), of s4] by (simp_all add: s4_def)
  have zero: "cells s4 (p + hhdm_addr s4 + d) = 0" if "unat d < 4096" for d
    using eff(4) that by (simp add: s4_def)
  have "walk_ok s4 ys shs address p"
    using fl4 zero_table_path(1) [OF zero] s1(3) ph p(1) tok s1f
    by (simp add: walk_ok_def) (simp add: s4_def)
  moreover have "vm_map_walk (sh # shs) address t s = vm_map_walk shs address p s4"
    unfolding vm_map_walk_new [OF absent s1(1) p(4)] using eff(2) by (simp add: Let_def s4_def e_def)
  moreover have "entry_at s4 t address sh = e" by (simp add: e_def entry_at_page s4_def s1f)
  moreover have "pte_page_size (cells s4 e) = pte_page_size (cells s e)"
  proof -
    have "cells s1 e = cells s e" using same1 [OF t] e s1f pt_index_bound by (simp add: same_page_def)
    then show ?thesis using eff(6) by simp
  qed
  moreover note e_def
  ultimately show ?thesis using s1(3,4) fl4(2) eff(1,2) same4 zero cell4
    by (intro exI [of _ p] exI [of _ s4] exI [of _ ys]) (simp add: s4_def s1f)
qed

text \<open>The whole walk, by induction on the levels.\<close>

definition walk_post :: "mem_state \<Rightarrow> u64 list \<Rightarrow> nat list \<Rightarrow> u64 \<Rightarrow> u64 \<Rightarrow> u64 option
    \<Rightarrow> mem_state \<Rightarrow> u64 list \<Rightarrow> bool" where
  "walk_post s xs shs address t r s' ys \<longleftrightarrow>
     fl_inv s' ys \<and> free_pages s' ys \<subseteq> free_pages s xs \<and> term_ok (con s')
     \<and> hhdm_addr s' = hhdm_addr s \<and> cr3 s' = cr3 s
     \<and> (\<forall>q. aligned q \<longrightarrow> q \<notin> free_pages s xs \<longrightarrow> q \<notin> set (path_tables s shs address t) \<longrightarrow> same_page s s' q)
     \<and> (case r of
          None \<Rightarrow> free_pages s' ys = {} \<and> table_path s shs address t = None
        | Some u \<Rightarrow> walk_ok s' ys shs address t \<and> table_path s' shs address t = Some u
            \<and> set (path_tables s' shs address t) \<subseteq> set (path_tables s shs address t) \<union> free_pages s xs
            \<and> (case table_path s shs address t of
                 Some v \<Rightarrow> s' = s
               | None \<Rightarrow> \<forall>d. unat d < 4096 \<longrightarrow> cells s' (u + hhdm_addr s + d) = 0))"

lemma vm_map_walk_full:
  assumes ok: "walk_ok s xs (sh # shs) address t"
    and absent: "\<not> pte_present (cells s (entry_at s t address sh))" and none: "free_pages s xs = {}"
  shows "\<exists>c. vm_map_walk (sh # shs) address t s = Inr (None, s\<lparr>con := c\<rparr>) \<and> term_ok c
    \<and> walk_post s xs (sh # shs) address t None (s\<lparr>con := c\<rparr>) xs"
proof -
  have inv: "fl_inv s xs" and tok: "term_ok (con s)" using ok by (simp_all add: walk_ok_def)
  then have xs: "xs = []" using none node_page_free [OF inv] by (cases xs) (auto simp: free_pages_def)
  obtain c where c: "mprintf (c_lit ''Could not allocate new page'') [] s = Inr (s\<lparr>con := c\<rparr>)" "term_ok c"
    using mprintf_plain [OF tok, of "''Could not allocate new page''"] by (auto simp: bytes_of_def)
  have "fl_inv (s\<lparr>con := c\<rparr>) xs" using inv xs by (simp add: fl_inv_def)
  then show ?thesis
    using absent c pmem_alloc_nil inv xs
    by (auto simp: walk_post_def Let_def free_pages_def same_page_def)
qed

lemma same_page_refl [simp]: "same_page s s q"
  by (simp add: same_page_def)

lemma vm_map_walk_spec:
  "walk_ok s xs shs address t \<Longrightarrow>
   \<exists>r s' ys. vm_map_walk shs address t s = Inr (r, s') \<and> walk_post s xs shs address t r s' ys"
proof (induction shs arbitrary: s xs t)
  case Nil
  then show ?case
    by (intro exI [of _ "Some t"] exI [of _ s] exI [of _ xs]) (auto simp: walk_post_def walk_ok_def)
next
  case (Cons sh shs)
  let ?e = "entry_at s t address sh"
  have t: "aligned t" "t \<notin> free_pages s xs" using Cons.prems by (simp_all add: walk_ok_def)
  show ?case
  proof (cases "pte_present (cells s ?e)")
    case True
    let ?n = "pte_target (cells s ?e)"
    have paths: "path_tables s (sh # shs) address t = t # path_tables s shs address ?n"
      "table_path s (sh # shs) address t = table_path s shs address ?n" using True by simp_all
    have n: "walk_ok s xs shs address ?n" using Cons.prems unfolding walk_ok_def paths by simp
    from Cons.IH [OF n] obtain r s' ys where r: "vm_map_walk shs address ?n s = Inr (r, s')"
      and post: "walk_post s xs shs address ?n r s' ys" by blast
    have "t \<notin> set (path_tables s shs address ?n)" using Cons.prems unfolding walk_ok_def paths by simp
    then have same: "same_page s s' t" and h: "hhdm_addr s' = hhdm_addr s"
      using post t by (auto simp: walk_post_def)
    have e': "cells s' (entry_at s' t address sh) = cells s ?e" using same_page_entry [OF same h] .
    then have paths': "path_tables s' (sh # shs) address t = t # path_tables s' shs address ?n"
      "table_path s' (sh # shs) address t = table_path s' shs address ?n" using True by simp_all
    have "walk_post s xs (sh # shs) address t r s' ys"
      using post t \<open>t \<notin> set (path_tables s shs address ?n)\<close>
      unfolding walk_post_def walk_ok_def paths paths' by (auto split: option.splits)
    then show ?thesis using r True by auto
  next
    case False
    show ?thesis
    proof (cases "free_pages s xs = {}")
      case True
      then show ?thesis using vm_map_walk_full [OF Cons.prems False] by blast
    next
      case ne: False
      from new_table_step [OF Cons.prems False ne] obtain p s4 ys where p: "p \<in> free_pages s xs"
        "vm_map_walk (sh # shs) address t s = vm_map_walk shs address p s4"
        "walk_ok s4 ys shs address p" "free_pages s4 ys = free_pages s xs - {p}"
        "hhdm_addr s4 = hhdm_addr s" "cr3 s4 = cr3 s"
        "pte_present (cells s4 (entry_at s4 t address sh))" "pte_target (cells s4 (entry_at s4 t address sh)) = p"
        and same4: "\<forall>q. aligned q \<longrightarrow> q \<notin> free_pages s xs \<longrightarrow> q \<noteq> t \<longrightarrow> same_page s s4 q"
        and zero: "\<forall>d. unat d < 4096 \<longrightarrow> cells s4 (p + hhdm_addr s + d) = 0"
        using that by (elim exE conjE)
      from Cons.IH [OF p(3)] obtain r s' zs where r: "vm_map_walk shs address p s4 = Inr (r, s')"
        and post: "walk_post s4 ys shs address p r s' zs" by blast
      have path4: "path_tables s4 shs address p = [p]" "shs \<noteq> [] \<Longrightarrow> table_path s4 shs address p = None"
        using zero_table_path [of s4 p] zero p(5) by simp_all
      have tp: "t \<noteq> p" using p(1) t(2) by blast
      have same': "same_page s4 s' q" if "aligned q" "q \<notin> free_pages s xs" for q
        using post that p(1,4) path4(1) by (auto simp: walk_post_def)
      have h: "hhdm_addr s' = hhdm_addr s" "cr3 s' = cr3 s" using post p(5,6) by (simp_all add: walk_post_def)
      have e': "cells s' (entry_at s' t address sh) = cells s4 (entry_at s4 t address sh)"
        using same_page_entry [OF same' [OF t]] h(1) p(5) by simp
      have paths: "path_tables s (sh # shs) address t = [t]" "table_path s (sh # shs) address t = None"
        using False by simp_all
      have paths': "path_tables s' (sh # shs) address t = t # path_tables s' shs address p"
        "table_path s' (sh # shs) address t = table_path s' shs address p" using e' p(7,8) by simp_all
      have frame: "same_page s s' q" if "aligned q" "q \<notin> free_pages s xs" "q \<noteq> t" for q
        using same_page_trans same4 same' that p(5) by blast
      have fresh: "\<forall>d. unat d < 4096 \<longrightarrow> cells s' (u + hhdm_addr s + d) = 0" if "r = Some u" for u
        using post that path4(2) zero p(5) by (cases shs) (auto simp: walk_post_def)
      have "walk_post s xs (sh # shs) address t r s' zs"
        unfolding walk_post_def paths paths'
      proof (intro conjI)
        show "case r of None \<Rightarrow> free_pages s' zs = {} \<and> None = None
          | Some u \<Rightarrow> walk_ok s' zs (sh # shs) address t \<and> table_path s' shs address p = Some u
            \<and> set (t # path_tables s' shs address p) \<subseteq> set [t] \<union> free_pages s xs
            \<and> (case None of Some v \<Rightarrow> s' = s | None \<Rightarrow> \<forall>d. unat d < 4096 \<longrightarrow> cells s' (u + hhdm_addr s + d) = 0)"
        proof (cases r)
          case None
          then show ?thesis using post by (simp add: walk_post_def)
        next
          case (Some u)
          have "set (path_tables s' shs address p) \<subseteq> free_pages s xs" 
            using post Some path4(1) p(1,4) by (auto simp: walk_post_def)
          moreover have "free_pages s' zs \<subseteq> free_pages s xs" using post p(4) by (auto simp: walk_post_def)
          ultimately show ?thesis using Some post t fresh [OF Some]
            unfolding walk_post_def walk_ok_def paths' by auto
        qed
      qed (use post p(4) h frame in \<open>auto simp: walk_post_def\<close>)
      then show ?thesis using r p(2) by auto
    qed
  qed
qed

section \<open>What vm_map establishes\<close>

definition leaf_entry :: "mem_state \<Rightarrow> u64 \<Rightarrow> u64 \<Rightarrow> u64 option" where
  "leaf_entry s address root =
     map_option (\<lambda>t. cells s (entry_at s t address 12)) (table_path s [39, 30, 21] address root)"

lemma table_path_last: "table_path s shs address t = Some u \<Longrightarrow> u \<in> set (path_tables s shs address t)"
  by (induction shs arbitrary: t) (auto simp: Let_def split: if_splits)

text \<open>A change confined to the last table of a path leaves the path alone.\<close>

lemma table_path_frame:
  "table_path s shs address t = Some u \<Longrightarrow> distinct (path_tables s shs address t) \<Longrightarrow>
   hhdm_addr s' = hhdm_addr s \<Longrightarrow>
   (\<And>q. q \<in> set (path_tables s shs address t) \<Longrightarrow> q \<noteq> u \<Longrightarrow> same_page s s' q) \<Longrightarrow>
   table_path s' shs address t = Some u"
proof (induction shs arbitrary: t)
  case (Cons sh shs)
  let ?e = "cells s (entry_at s t address sh)"
  from Cons.prems(1) have pres: "pte_present ?e" and rest: "table_path s shs address (pte_target ?e) = Some u"
    by (simp_all add: Let_def split: if_splits)
  have "t \<noteq> u" using table_path_last [OF rest] Cons.prems(2) pres by auto
  then have "same_page s s' t" using Cons.prems(4) by simp
  then have "cells s' (entry_at s' t address sh) = ?e" using same_page_entry Cons.prems(3) by blast
  moreover have "table_path s' shs address (pte_target ?e) = Some u"
    using Cons.prems pres rest by (intro Cons.IH) auto
  ultimately show ?case using pres by simp
qed simp

definition map_post :: "mem_state \<Rightarrow> u64 list \<Rightarrow> u64 \<Rightarrow> u64 \<Rightarrow> bool \<Rightarrow> bool \<Rightarrow> bool \<Rightarrow> bool
    \<Rightarrow> mem_state \<Rightarrow> u64 list \<Rightarrow> bool" where
  "map_post s xs root address u w x ok s' ys \<longleftrightarrow>
     fl_inv s' ys \<and> free_pages s' ys \<subseteq> free_pages s xs \<and> term_ok (con s')
     \<and> hhdm_addr s' = hhdm_addr s \<and> cr3 s' = cr3 s
     \<and> (if ok then \<exists>e. leaf_entry s' address root = Some e \<and> pte_present e \<and> pte_user e = u
            \<and> pte_writable e = w \<and> pte_no_execute e = (\<not> x)
            \<and> pte_target e = (case leaf_entry s address root of None \<Rightarrow> 0 | Some e0 \<Rightarrow> pte_target e0)
        else (\<exists>e0. leaf_entry s address root = Some e0 \<and> pte_present e0 \<and> cells s' = cells s)
           \<or> (free_pages s' ys = {} \<and> leaf_entry s address root = None))"

lemma leaf_of_path: "table_path s [39, 30, 21] address root = Some t \<Longrightarrow>
  leaf_entry s address root = Some (cells s (entry_at s t address 12))"
  by (simp add: leaf_entry_def)

lemma fl_inv_con: "fl_inv (s\<lparr>con := c\<rparr>) xs = fl_inv s xs" "free_pages (s\<lparr>con := c\<rparr>) xs = free_pages s xs"
  by (simp_all add: fl_inv_def chunk_ok_def free_pages_def pages_at_def)

lemma fl_inv_tlb: "fl_inv (invalidate_tlb a s) xs = fl_inv s xs"
    "free_pages (invalidate_tlb a s) xs = free_pages s xs"
  by (simp_all add: invalidate_tlb_def fl_inv_def chunk_ok_def free_pages_def pages_at_def)

lemma leaf_entry_cells:
  "cells s' = cells s \<Longrightarrow> hhdm_addr s' = hhdm_addr s \<Longrightarrow> table_path s' shs a t = table_path s shs a t"
  by (induction shs arbitrary: t) (auto simp: entry_at_page Let_def)

lemma vm_map_leaf:
  assumes ok: "walk_ok s ys [39, 30, 21] address root" and path: "table_path s [39, 30, 21] address root = Some t"
    and absent: "\<not> pte_present (cells s (entry_at s t address 12))"
    and s'_def: "s' = invalidate_tlb address (store (entry_at s t address 12)
      (pte_set_flags True u w (\<not> x) (cells s (entry_at s t address 12))) s)"
  shows "fl_inv s' ys" and "free_pages s' ys = free_pages s ys"
    and "leaf_entry s' address root = Some (pte_set_flags True u w (\<not> x) (cells s (entry_at s t address 12)))"
proof -
  let ?p = "entry_at s t address 12"
  have inv: "fl_inv s ys" and dist: "distinct (path_tables s [39, 30, 21] address root)"
    and al: "\<And>q. q \<in> set (path_tables s [39, 30, 21] address root) \<Longrightarrow> aligned q \<and> q \<notin> free_pages s ys"
    using ok unfolding walk_ok_def by blast+
  have t: "aligned t" "t \<notin> free_pages s ys" using al table_path_last [OF path] by blast+
  have same: "same_page s s' q" if "aligned q" "q \<noteq> t" for q
    unfolding same_page_def
  proof (intro allI impI)
    fix d :: u64 assume "unat d < 4096"
    then have "q + hhdm_addr s + d \<noteq> ?p"
      using ptov_offset_eq [OF that(1) t(1) _ pt_index_bound] that(2) by (simp add: entry_at_page)
    then show "cells s' (q + hhdm_addr s + d) = cells s (q + hhdm_addr s + d)"
      by (simp add: s'_def store_def invalidate_tlb_def)
  qed
  have f: "hhdm_addr s' = hhdm_addr s" "freelist s' = freelist s"
    by (simp_all add: s'_def invalidate_tlb_def)
  have "same_page s s' q" if "q \<in> free_pages s ys" for q
    using same free_pages_aligned [OF inv that] that t(2) by blast
  then show "fl_inv s' ys" "free_pages s' ys = free_pages s ys"
    using fl_inv_outside [OF inv f] by blast+
  have "table_path s' [39, 30, 21] address root = Some t"
    using table_path_frame [OF path dist f(1)] same al by blast
  then show "leaf_entry s' address root = Some (pte_set_flags True u w (\<not> x) (cells s ?p))"
    using f(1) by (simp add: leaf_of_path entry_at_page) (simp add: s'_def store_def invalidate_tlb_def entry_at_page)
qed

lemma vm_map_post:
  assumes ok: "walk_ok s xs [39, 30, 21] address root"
  shows "\<exists>rc s' ys. vm_map root address u w x s = Inr (rc, s') \<and> map_post s xs root address u w x rc s' ys"
proof -
  obtain r s1 ys where r: "vm_map_walk [39, 30, 21] address root s = Inr (r, s1)"
    and post: "walk_post s xs [39, 30, 21] address root r s1 ys"
    using vm_map_walk_spec [OF ok] by blast
  have base: "fl_inv s1 ys" "free_pages s1 ys \<subseteq> free_pages s xs" "term_ok (con s1)"
      "hhdm_addr s1 = hhdm_addr s" "cr3 s1 = cr3 s" using post by (simp_all add: walk_post_def)
  show ?thesis
  proof (cases r)
    case None
    then have "map_post s xs root address u w x False s1 ys"
      using base post by (simp add: map_post_def walk_post_def leaf_entry_def)
    then show ?thesis using r None unfolding vm_map_def by auto
  next
    case (Some t)
    let ?p = "entry_at s1 t address 12"
    have path: "table_path s1 [39, 30, 21] address root = Some t" and ok1: "walk_ok s1 ys [39, 30, 21] address root"
      using post Some by (simp_all add: walk_post_def)
    have prev: "case leaf_entry s address root of Some e0 \<Rightarrow> s1 = s \<and> e0 = cells s ?p | None \<Rightarrow> cells s1 ?p = 0"
    proof (cases "table_path s [39, 30, 21] address root")
      case None
      then have "cells s1 (t + hhdm_addr s + 8 * pt_index address 12) = 0"
        using post Some pt_index_bound by (simp add: walk_post_def)
      then show ?thesis using None base(4) by (simp add: leaf_entry_def entry_at_page)
    next
      case (Some v)
      then have "s1 = s" using post \<open>r = Some t\<close> by (simp add: walk_post_def)
      then show ?thesis using path by (simp add: leaf_of_path)
    qed
    show ?thesis
    proof (cases "pte_present (cells s1 ?p)")
      case True
      obtain c where c: "mprintf (c_lit (''Address is already mapped'' @ [CHR 0x0A])) [] s1 = Inr (s1\<lparr>con := c\<rparr>)" "term_ok c"
        using mprintf_plain [OF base(3), of "''Address is already mapped'' @ [CHR 0x0A]"] by (auto simp: bytes_of_def)
      have "\<exists>e0. leaf_entry s address root = Some e0 \<and> pte_present e0 \<and> cells s1 = cells s"
        using prev True by (cases "leaf_entry s address root") (auto simp: pte_present_def)
      then have "map_post s xs root address u w x False (s1\<lparr>con := c\<rparr>) ys"
        using base c by (auto simp: map_post_def fl_inv_con)
      then show ?thesis using r Some True c unfolding vm_map_def by (auto simp: Let_def)
    next
      case False
      have "pte_target (cells s1 ?p) = (case leaf_entry s address root of None \<Rightarrow> 0 | Some e0 \<Rightarrow> pte_target e0)"
        using prev by (auto simp: pte_target_def pte_address_def split: option.splits)
      then have "map_post s xs root address u w x True (invalidate_tlb address
          (store ?p (pte_set_flags True u w (\<not> x) (cells s1 ?p)) s1)) ys"
        using vm_map_leaf [OF ok1 path False refl, of u w x] base unfolding map_post_def
        by (simp add: invalidate_tlb_def)
      then show ?thesis using r Some False unfolding vm_map_def by (auto simp: Let_def)
    qed
  qed
qed

text \<open>The address space that \<open>cr3\<close> selects, and the pages that are mapped in it.\<close>

abbreviation cr3_root :: "mem_state \<Rightarrow> u64" where
  "cr3_root s \<equiv> read_cr3 s AND NOT 0xFFF"

definition page_present :: "mem_state \<Rightarrow> u64 \<Rightarrow> bool" where
  "page_present m a = (case leaf_entry m a (cr3_root m) of None \<Rightarrow> False | Some e \<Rightarrow> pte_present e)"

end
