(* ===== verification/Fd.thy ===== *)
theory Fd
  imports Paging
begin

text \<open>
  The table of open files, \<^verbatim>\<open>src/kernel/fd.c\<close>: a singly linked list of nodes, one page of
  virtual memory each. A \<open>file_entry_t\<close> pointer is the index of the entry in the array
  \<open>entries\<close> of \<^verbatim>\<open>fs.c\<close>; the nodes are kept by their addresses.

  \<open>create_fd\<close> ignores the result of \<open>vm_map\<close>, and then writes to the page: if its leaf entry
  is not present that write is a page fault. Nothing ever unmaps a page of these components, so
  a page that was written stays accessible.
\<close>

section \<open>State and operations\<close>

record fd_node =
  fdn_fd :: int
  fdn_entry :: nat
  fdn_next :: u64

record fd_state =
  vm :: mem_state
  fd_heap :: "u64 \<Rightarrow> fd_node option"
  fd_list :: u64
  next_alloc :: u64
  next_fd :: int

abbreviation "START_ADDR \<equiv> (0xffff80007fc42000 :: u64)"
abbreviation "MAX_BLOCK_SIZE \<equiv> (128 :: nat)"
abbreviation "INT_MAX \<equiv> (2147483647 :: int)"

definition next_alloc_init :: u64 where
  "next_alloc_init = START_ADDR + (of_nat MAX_BLOCK_SIZE + 1) * 0x1000"

text \<open>Access to a page through the tables that \<open>cr3\<close> selects.\<close>

definition touch_page :: "u64 \<Rightarrow> mem_state \<Rightarrow> mem_state res" where
  "touch_page a m =
     bindE (vm_map (cr3_root m) a True True True m) (\<lambda>(_, m).
       if page_present m a then Inr m else Inl (Page_Fault a))"

definition create_fd :: "nat \<Rightarrow> fd_state \<Rightarrow> (int \<times> fd_state) res" where
  "create_fd file_entry s =
    (let fd = next_fd s in
     if fd = INT_MAX then Inl Signed_Overflow else
     (let s = s\<lparr>next_fd := fd + 1\<rparr> in
      bindE (touch_page (next_alloc s) (vm s)) (\<lambda>m.
      let new_node = next_alloc s;
          s = s\<lparr>vm := m,
                fd_heap := (fd_heap s)(new_node \<mapsto>
                  \<lparr>fdn_fd = fd, fdn_entry = file_entry, fdn_next = fd_list s\<rparr>)\<rparr>;
          s = s\<lparr>fd_list := new_node\<rparr>;
          s = s\<lparr>next_alloc := next_alloc s + 0x1000\<rparr>
      in Inr (fd, s))))"

partial_function (option) find_fd_loop ::
  "int \<Rightarrow> u64 \<Rightarrow> (u64 \<Rightarrow> fd_node option) \<Rightarrow> nat option res option" where
  "find_fd_loop fd p h =
    (if p = 0 then Some (Inr None)
     else case h p of None \<Rightarrow> Some (Inl (Page_Fault p))
      | Some n \<Rightarrow> if fdn_fd n = fd then Some (Inr (Some (fdn_entry n)))
                  else find_fd_loop fd (fdn_next n) h)"

definition find_fd :: "int \<Rightarrow> fd_state \<Rightarrow> nat option res" where
  "find_fd fd s = run_loop (find_fd_loop fd (fd_list s) (fd_heap s))"

text \<open>
  \<open>prev\<close> is 0 before the first node. \<open>free\<close> does nothing (\<^verbatim>\<open>src/stdlib/mem.c\<close>). The result is
  the new heap and list head.
\<close>

partial_function (option) remove_fd_loop ::
  "int \<Rightarrow> u64 \<Rightarrow> u64 \<Rightarrow> fd_state \<Rightarrow> fd_state res option" where
  "remove_fd_loop fd prev cur s =
    (if cur = 0 then Some (Inr s)
     else case fd_heap s cur of None \<Rightarrow> Some (Inl (Page_Fault cur))
      | Some n \<Rightarrow>
         if fdn_fd n = fd then
           (if prev = 0 then
              (case fd_heap s (fd_list s) of None \<Rightarrow> Some (Inl (Page_Fault (fd_list s)))
               | Some h \<Rightarrow> Some (Inr (s\<lparr>fd_list := fdn_next h\<rparr>)))
            else
              (case fd_heap s prev of None \<Rightarrow> Some (Inl (Page_Fault prev))
               | Some p \<Rightarrow> Some (Inr (s\<lparr>fd_heap := (fd_heap s)(prev \<mapsto> p\<lparr>fdn_next := fdn_next n\<rparr>)\<rparr>))))
         else remove_fd_loop fd cur (fdn_next n) s)"

definition remove_fd :: "int \<Rightarrow> fd_state \<Rightarrow> fd_state res" where
  "remove_fd fd s = run_loop (remove_fd_loop fd 0 (fd_list s) s)"

section \<open>The list of nodes\<close>

text \<open>\<open>fd_rep h p xs\<close>: from \<open>p\<close> the heap holds the (address, descriptor, entry) nodes \<open>xs\<close>.\<close>

fun fd_rep :: "(u64 \<Rightarrow> fd_node option) \<Rightarrow> u64 \<Rightarrow> (u64 \<times> int \<times> nat) list \<Rightarrow> bool" where
  "fd_rep h p [] \<longleftrightarrow> p = 0"
| "fd_rep h p ((a, fd, e) # xs) \<longleftrightarrow> p = a \<and> a \<noteq> 0
     \<and> (case h a of None \<Rightarrow> False | Some n \<Rightarrow> fdn_fd n = fd \<and> fdn_entry n = e \<and> fd_rep h (fdn_next n) xs)"

lemma fd_rep_frame: "a \<notin> fst ` set xs \<Longrightarrow> fd_rep (h(a := v)) p xs = fd_rep h p xs"
  by (induction xs arbitrary: p) (auto split: option.splits)

lemma fd_rep_unique: "fd_rep h p xs \<Longrightarrow> fd_rep h p ys \<Longrightarrow> xs = ys"
proof (induction xs arbitrary: p ys)
  case Nil
  then show ?case by (cases ys) auto
next
  case (Cons x xs)
  obtain a fd e where x: "x = (a, fd, e)" by (cases x) auto
  with Cons.prems obtain y ys' where ys: "ys = y # ys'" by (cases ys) auto
  obtain b gd f where y: "y = (b, gd, f)" by (cases y) auto
  from Cons.prems obtain n where n: "h p = Some n" unfolding x by (auto split: option.splits)
  have "fd_rep h (fdn_next n) xs" "fd_rep h (fdn_next n) ys'"
    using Cons.prems n unfolding x ys y by auto
  then have "xs = ys'" by (rule Cons.IH)
  then show ?case using Cons.prems n unfolding x ys y by auto
qed

lemma find_fd_loop_step:
  "p \<noteq> 0 \<Longrightarrow> h p = Some n \<Longrightarrow> find_fd_loop fd p h =
     (if fdn_fd n = fd then Some (Inr (Some (fdn_entry n))) else find_fd_loop fd (fdn_next n) h)"
  by (simp add: find_fd_loop.simps [of fd p])

lemma remove_fd_loop_next:
  "p \<noteq> 0 \<Longrightarrow> fd_heap s p = Some n \<Longrightarrow> fdn_fd n \<noteq> fd \<Longrightarrow>
   remove_fd_loop fd prev p s = remove_fd_loop fd p (fdn_next n) s"
  by (simp add: remove_fd_loop.simps [of fd prev p])

lemma find_fd_loop_finds:
  "fd_rep h p xs \<Longrightarrow> find_fd_loop fd p h = Some (Inr (map_of (map snd xs) fd))"
proof (induction xs arbitrary: p)
  case Nil
  then show ?case by (simp add: find_fd_loop.simps)
next
  case (Cons x xs)
  then show ?case
    by (cases x) (auto simp: find_fd_loop_step split: option.splits)
qed

text \<open>Unlinking, with the node before the rest of the list at hand.\<close>

lemma remove_fd_loop_absent:
  "fd_rep (fd_heap s) p xs \<Longrightarrow> fd \<notin> set (map (\<lambda>x. fst (snd x)) xs) \<Longrightarrow>
   remove_fd_loop fd prev p s = Some (Inr s)"
proof (induction xs arbitrary: p prev)
  case Nil
  then show ?case by (simp add: remove_fd_loop.simps)
next
  case (Cons x xs)
  then show ?case
    by (cases x) (auto simp: remove_fd_loop_next split: option.splits)
qed

definition without :: "int \<Rightarrow> (u64 \<times> int \<times> nat) list \<Rightarrow> (u64 \<times> int \<times> nat) list" where
  "without fd xs = filter (\<lambda>(_, f, _). f \<noteq> fd) xs"

lemma without_Cons [simp]:
  "without fd ((a, f, e) # xs) = (if f = fd then without fd xs else (a, f, e) # without fd xs)"
  "without fd [] = []"
  by (simp_all add: without_def)

lemma without_absent: "fd \<notin> set (map (\<lambda>x. fst (snd x)) xs) \<Longrightarrow> without fd xs = xs"
  by (induction xs) auto

lemma without_subset: "set (without fd xs) \<subseteq> set xs"
  by (auto simp: without_def)

lemma without_table: "map snd (without fd xs) = filter (\<lambda>p. fst p \<noteq> fd) (map snd xs)"
  by (induction xs) auto

lemma remove_fd_loop_later:
  "fd_rep (fd_heap s) p xs \<Longrightarrow> distinct (map fst xs) \<Longrightarrow> distinct (map (\<lambda>x. fst (snd x)) xs) \<Longrightarrow>
   fd_heap s prev = Some n \<Longrightarrow> fdn_next n = p \<Longrightarrow> prev \<noteq> 0 \<Longrightarrow> prev \<notin> fst ` set xs \<Longrightarrow>
   fd \<in> set (map (\<lambda>x. fst (snd x)) xs) \<Longrightarrow>
   \<exists>h p'. remove_fd_loop fd prev p s = Some (Inr (s\<lparr>fd_heap := h\<rparr>))
     \<and> h prev = Some (n\<lparr>fdn_next := p'\<rparr>) \<and> fd_rep h p' (without fd xs)
     \<and> (\<forall>a. a \<noteq> prev \<longrightarrow> a \<notin> fst ` set xs \<longrightarrow> h a = fd_heap s a)"
proof (induction xs arbitrary: p prev n)
  case Nil
  then show ?case by simp
next
  case (Cons x xs)
  obtain a f e where x: "x = (a, f, e)" by (cases x) auto
  from Cons.prems(1) obtain m where m: "p = a" "a \<noteq> 0" "fd_heap s a = Some m"
    "fdn_fd m = f" "fdn_entry m = e" "fd_rep (fd_heap s) (fdn_next m) xs"
    unfolding x by (auto split: option.splits)
  show ?case
  proof (cases "f = fd")
    case True
    let ?h = "(fd_heap s)(prev \<mapsto> n\<lparr>fdn_next := fdn_next m\<rparr>)"
    have "remove_fd_loop fd prev p s = Some (Inr (s\<lparr>fd_heap := ?h\<rparr>))"
      using m True Cons.prems(4-6) by (simp add: remove_fd_loop.simps [of _ _ a])
    moreover have "fd_rep ?h (fdn_next m) xs" using m(6) Cons.prems(7) by (simp add: fd_rep_frame)
    moreover have "without fd (x # xs) = xs"
      using True Cons.prems(3) x without_absent by auto
    ultimately show ?thesis using Cons.prems(4) by (intro exI [of _ ?h] exI [of _ "fdn_next m"]) (simp del: fun_upd_apply, simp)
  next
    case False
    have prems: "distinct (map fst xs)" "distinct (map (\<lambda>x. fst (snd x)) xs)" "a \<notin> fst ` set xs"
        "fd \<in> set (map (\<lambda>x. fst (snd x)) xs)"
      using Cons.prems x False by simp_all
    from Cons.IH [OF m(6) prems(1,2) m(3) refl m(2) prems(3,4)] obtain h p' where h:
      "remove_fd_loop fd a (fdn_next m) s = Some (Inr (s\<lparr>fd_heap := h\<rparr>))"
      "h a = Some (m\<lparr>fdn_next := p'\<rparr>)" "fd_rep h p' (without fd xs)"
      "\<forall>b. b \<noteq> a \<longrightarrow> b \<notin> fst ` set xs \<longrightarrow> h b = fd_heap s b" by (elim exE conjE)
    have "remove_fd_loop fd prev p s = Some (Inr (s\<lparr>fd_heap := h\<rparr>))"
      using h(1) m False by (simp add: remove_fd_loop_next)
    moreover have "h prev = Some (n\<lparr>fdn_next := p\<rparr>)"
      using h(4) Cons.prems(4,5,7) x by simp
    moreover have "fd_rep h p (without fd (x # xs))" using h(2,3) m x False by simp
    ultimately show ?thesis using h(4) x by (intro exI [of _ h] exI [of _ p]) simp
  qed
qed

section \<open>The table\<close>

text \<open>
  Descriptor \<open>k\<close> has its node in the \<open>k\<close>th page after the block region. The invariant: the list
  holds distinct descriptors below \<open>next_fd\<close>, each in its page.
\<close>

definition fd_addr :: "int \<Rightarrow> u64" where
  "fd_addr k = next_alloc_init + of_nat (nat k) * 0x1000"

definition fd_list_ok :: "fd_state \<Rightarrow> (u64 \<times> int \<times> nat) list \<Rightarrow> bool" where
  "fd_list_ok s xs \<longleftrightarrow> fd_rep (fd_heap s) (fd_list s) xs \<and> distinct (map (\<lambda>x. fst (snd x)) xs)
     \<and> (\<forall>(a, f, e) \<in> set xs. a = fd_addr f \<and> 0 \<le> f \<and> f < next_fd s)
     \<and> next_alloc s = fd_addr (next_fd s) \<and> 0 \<le> next_fd s \<and> next_fd s \<le> INT_MAX"

definition fd_holds :: "fd_state \<Rightarrow> (int \<rightharpoonup> nat) \<Rightarrow> bool" where
  "fd_holds s t \<longleftrightarrow> (\<exists>xs. fd_list_ok s xs \<and> t = map_of (map snd xs))"

definition fd_ready :: "fd_state \<Rightarrow> bool" where
  "fd_ready s \<longleftrightarrow> next_fd s < INT_MAX \<and> term_ok (con (vm s)) \<and> page_present (vm s) (next_alloc s)"

lemma fd_addr_unat:
  assumes "0 \<le> k" and "k \<le> INT_MAX"
  shows "unat (fd_addr k) = 18446603338365284352 + nat k * 4096"
proof -
  have k: "nat k \<le> 2147483647" using assms by simp
  then have "nat k < 2 ^ LENGTH(64)" by simp
  then have "unat (of_nat (nat k) :: u64) = nat k" by (rule unat_of_nat_small)
  then have "unat (of_nat (nat k) * 0x1000 :: u64) = nat k * 4096"
    using k by (subst unat_mult_small) simp_all
  then show ?thesis using k
    unfolding fd_addr_def next_alloc_init_def by (subst unat_add_small) simp_all
qed

lemma fd_addr_inject:
  "0 \<le> k \<Longrightarrow> k \<le> INT_MAX \<Longrightarrow> 0 \<le> j \<Longrightarrow> j \<le> INT_MAX \<Longrightarrow> fd_addr k = fd_addr j \<longleftrightarrow> k = j"
  using fd_addr_unat [of k] fd_addr_unat [of j] by (auto dest: arg_cong [of _ _ unat])

lemma fd_addr_nonzero: "0 \<le> k \<Longrightarrow> k \<le> INT_MAX \<Longrightarrow> fd_addr k \<noteq> 0"
  using fd_addr_unat [of k] by auto

lemma fd_addr_step: "0 \<le> k \<Longrightarrow> fd_addr (k + 1) = fd_addr k + 0x1000"
proof -
  assume "0 \<le> k"
  then have "nat (k + 1) = Suc (nat k)" by simp
  then show ?thesis by (simp only: fd_addr_def of_nat_Suc) (simp add: algebra_simps)
qed

lemma fd_list_ok_distinct:
  assumes "fd_list_ok s xs"
  shows "distinct (map fst xs)"
proof -
  have "inj_on fst (set xs)"
  proof (rule inj_onI)
    fix x y assume xy: "x \<in> set xs" "y \<in> set xs" "fst x = fst y"
    have inj: "inj_on (\<lambda>x. fst (snd x)) (set xs)" using assms unfolding fd_list_ok_def distinct_map by blast
    have "fd_addr (fst (snd x)) = fd_addr (fst (snd y))" "0 \<le> fst (snd x)" "fst (snd x) < next_fd s"
      "0 \<le> fst (snd y)" "fst (snd y) < next_fd s" "next_fd s \<le> INT_MAX"
      using assms xy unfolding fd_list_ok_def by (cases x, cases y, fastforce)+
    then have "fst (snd x) = fst (snd y)" using fd_addr_inject by simp
    then show "x = y" using inj_onD [OF inj _ xy(1,2)] by simp
  qed
  moreover have "distinct xs" using assms unfolding fd_list_ok_def distinct_map by blast
  ultimately show ?thesis by (simp add: distinct_map)
qed

lemma find_fd_holds: "fd_holds s t \<Longrightarrow> find_fd fd s = Inr (t fd)"
  by (auto simp: fd_holds_def fd_list_ok_def find_fd_def find_fd_loop_finds)

text \<open>A page that is already present: \<open>vm_map\<close> says so and changes nothing else.\<close>

abbreviation mapped_msg :: "u8 list" where
  "mapped_msg \<equiv> bytes_of (''Address is already mapped'' @ [CHR 0x0A])"

lemma walk_all_present:
  "table_path m shs a t = Some u \<Longrightarrow> vm_map_walk shs a t m = Inr (Some u, m)"
  by (induction shs arbitrary: t) (auto simp: Let_def split: if_splits)

lemma page_present_con [simp]: "page_present (m\<lparr>con := c\<rparr>) a = page_present m a"
proof -
  have "table_path (m\<lparr>con := c\<rparr>) shs a t = table_path m shs a t" for shs t
    by (rule leaf_entry_cells) simp_all
  then show ?thesis by (simp add: page_present_def leaf_entry_def read_cr3_def entry_at_page comp_def
      del: table_path.simps)
qed

lemma touch_page_present:
  assumes "page_present m a" and "term_ok (con m)"
  shows "\<exists>c. touch_page a m = Inr (m\<lparr>con := c\<rparr>) \<and> term_ok c \<and> puts term_putchar mapped_msg (con m) = Inr c"
proof -
  from assms(1) obtain t where t: "table_path m [39, 30, 21] a (cr3_root m) = Some t"
    and pres: "pte_present (cells m (entry_at m t a 12))"
    by (auto simp: page_present_def leaf_entry_def split: option.splits)
  obtain c where c: "puts term_putchar mapped_msg (con m) = Inr c" "term_ok c"
    using console.puts_ok [OF assms(2)] by blast
  have "kprintf (c_lit (''Address is already mapped'' @ [CHR 0x0A])) [] (con m) = Inr c"
    using c kprintf_prints [OF assms(2)] kfmt_plain [of mapped_msg "[]"]
    by (simp add: c_lit_def bytes_of_def)
  then have "vm_map (cr3_root m) a True True True m = Inr (False, m\<lparr>con := c\<rparr>)"
    unfolding vm_map_def walk_all_present [OF t] using pres by (simp add: Let_def mprintf_def)
  then show ?thesis using c assms(1) by (simp add: touch_page_def)
qed

lemma create_fd_holds:
  assumes "fd_holds s t" and "fd_ready s"
  shows "\<exists>s' c. create_fd e s = Inr (next_fd s, s') \<and> fd_holds s' (t(next_fd s \<mapsto> e)) \<and> t (next_fd s) = None
    \<and> next_fd s' = next_fd s + 1 \<and> vm s' = (vm s)\<lparr>con := c\<rparr> \<and> term_ok c
    \<and> puts term_putchar mapped_msg (con (vm s)) = Inr c"
proof -
  obtain xs where xs: "fd_list_ok s xs" and t: "t = map_of (map snd xs)"
    using assms(1) by (auto simp: fd_holds_def)
  obtain c where c: "touch_page (next_alloc s) (vm s) = Inr ((vm s)\<lparr>con := c\<rparr>)" "term_ok c"
      "puts term_putchar mapped_msg (con (vm s)) = Inr c"
    using touch_page_present assms(2) unfolding fd_ready_def by blast
  let ?a = "next_alloc s" and ?fd = "next_fd s"
  let ?s = "s\<lparr>next_fd := ?fd + 1, vm := (vm s)\<lparr>con := c\<rparr>,
      fd_heap := (fd_heap s)(?a \<mapsto> \<lparr>fdn_fd = ?fd, fdn_entry = e, fdn_next = fd_list s\<rparr>),
      fd_list := ?a, next_alloc := ?a + 0x1000\<rparr>"
  have fd: "0 \<le> ?fd" "?fd < INT_MAX" "?a = fd_addr ?fd"
    using xs assms(2) by (simp_all add: fd_list_ok_def fd_ready_def)
  have new: "?a \<notin> fst ` set xs"
  proof
    assume "?a \<in> fst ` set xs"
    then obtain f where "fd_addr ?fd = fd_addr f" "0 \<le> f" "f < ?fd"
      using xs fd(3) by (auto simp: fd_list_ok_def)
    then show False using fd_addr_inject [of ?fd f] fd by simp
  qed
  have fresh: "?fd \<notin> (\<lambda>x. fst (snd x)) ` set xs" using xs by (auto simp: fd_list_ok_def)
  have "fd_list_ok ?s ((?a, ?fd, e) # xs)"
    using xs fd new fresh fd_addr_step [of ?fd] fd_addr_nonzero [of ?fd]
    by (auto simp: fd_list_ok_def fd_rep_frame)
  then have "fd_holds ?s (t(?fd \<mapsto> e))" unfolding fd_holds_def t by (intro exI conjI) auto
  moreover have "create_fd e s = Inr (?fd, ?s)"
    using c(1) fd(2) by (simp add: create_fd_def Let_def)
  moreover have "t ?fd = None" using fresh t by (auto simp: map_of_eq_None_iff image_comp)
  ultimately show ?thesis using c by (intro exI [of _ ?s] exI [of _ c]) simp
qed

lemma map_of_without: "map_of (filter (\<lambda>p. fst p \<noteq> k) ps) = (map_of ps)(k := None)"
  by (induction ps) auto

lemma remove_fd_holds:
  assumes "fd_holds s t"
  shows "\<exists>s'. remove_fd fd s = Inr s' \<and> fd_holds s' (t(fd := None)) \<and> vm s' = vm s
    \<and> next_fd s' = next_fd s"
proof -
  obtain xs where xs: "fd_list_ok s xs" and t: "t = map_of (map snd xs)"
    using assms by (auto simp: fd_holds_def)
  have rep: "fd_rep (fd_heap s) (fd_list s) xs" and dist: "distinct (map (\<lambda>x. fst (snd x)) xs)"
    using xs by (simp_all add: fd_list_ok_def)
  have keep: "fd_holds s' (t(fd := None))"
    if "fd_rep (fd_heap s') (fd_list s') (without fd xs)" "next_fd s' = next_fd s" "next_alloc s' = next_alloc s"
    for s'
  proof -
    have "distinct (map (\<lambda>x. fst (snd x)) (without fd xs))"
      using dist unfolding without_def by (rule distinct_map_filter)
    then have "fd_list_ok s' (without fd xs)"
      using that xs by (auto simp: fd_list_ok_def without_def)
    then show ?thesis unfolding fd_holds_def t
      by (intro exI [of _ "without fd xs"]) (simp add: without_table map_of_without)
  qed
  show ?thesis
  proof (cases "fd \<in> set (map (\<lambda>x. fst (snd x)) xs)")
    case False
    then have "remove_fd fd s = Inr s" using remove_fd_loop_absent [OF rep] by (simp add: remove_fd_def)
    moreover have "fd_holds s (t(fd := None))" using keep [of s] rep without_absent [OF False] by simp
    ultimately show ?thesis by blast
  next
    case True
    then obtain a f e ys where x: "xs = (a, f, e) # ys" by (cases xs) auto
    then obtain n where n: "fd_list s = a" "a \<noteq> 0" "fd_heap s a = Some n" "fdn_fd n = f" "fdn_entry n = e"
        "fd_rep (fd_heap s) (fdn_next n) ys"
      using rep by (auto split: option.splits)
    show ?thesis
    proof (cases "f = fd")
      case first: True
      have "remove_fd fd s = Inr (s\<lparr>fd_list := fdn_next n\<rparr>)"
        using n first by (simp add: remove_fd_def remove_fd_loop.simps [of _ _ a])
      moreover have "without fd xs = ys" using first x dist without_absent [of fd ys] by simp
      ultimately show ?thesis using keep [of "s\<lparr>fd_list := fdn_next n\<rparr>"] n(6) by auto
    next
      case later: False
      have "distinct (map fst ys)" "a \<notin> fst ` set ys"
        using fd_list_ok_distinct [OF xs] x by simp_all
      moreover have "distinct (map (\<lambda>x. fst (snd x)) ys)" "fd \<in> set (map (\<lambda>x. fst (snd x)) ys)"
        using dist True later x by auto
      ultimately obtain h p' where h: "remove_fd_loop fd a (fdn_next n) s = Some (Inr (s\<lparr>fd_heap := h\<rparr>))"
        "h a = Some (n\<lparr>fdn_next := p'\<rparr>)" "fd_rep h p' (without fd ys)"
        using remove_fd_loop_later [OF n(6) _ _ n(3) refl n(2)] by blast
      have "remove_fd fd s = Inr (s\<lparr>fd_heap := h\<rparr>)"
        using h(1) n later by (simp add: remove_fd_def remove_fd_loop_next)
      moreover have "fd_rep h a (without fd xs)" using h n x later by simp
      ultimately show ?thesis using keep [of "s\<lparr>fd_heap := h\<rparr>"] n(1) by auto
    qed
  qed
qed

section \<open>The interface\<close>

text \<open>
  What the file system relies on: \<open>holds s t\<close> says that the open descriptors of \<open>s\<close> are those
  of the map \<open>t\<close>; a new descriptor is one that is not open.
\<close>

locale fd_table =
  fixes create :: "'e \<Rightarrow> 's \<Rightarrow> (int \<times> 's) res" and find :: "int \<Rightarrow> 's \<Rightarrow> 'e option res"
    and remove :: "int \<Rightarrow> 's \<Rightarrow> 's res"
    and holds :: "'s \<Rightarrow> (int \<rightharpoonup> 'e) \<Rightarrow> bool" and ready :: "'s \<Rightarrow> bool"
  assumes create_law: "holds s t \<Longrightarrow> ready s \<Longrightarrow>
      \<exists>fd s'. create e s = Inr (fd, s') \<and> t fd = None \<and> holds s' (t(fd \<mapsto> e))"
    and find_law: "holds s t \<Longrightarrow> find fd s = Inr (t fd)"
    and remove_law: "holds s t \<Longrightarrow> \<exists>s'. remove fd s = Inr s' \<and> holds s' (t(fd := None))"
begin

lemma table_unique: "holds s t \<Longrightarrow> holds s u \<Longrightarrow> t = u"
  using find_law [of s t] find_law [of s u] by (intro ext) simp

lemma created_found:
  assumes "holds s t" and "ready s"
  shows "\<exists>fd s'. create e s = Inr (fd, s') \<and> t fd = None \<and> find fd s' = Inr (Some e)
    \<and> (\<forall>g. g \<noteq> fd \<longrightarrow> find g s' = find g s)"
proof -
  obtain fd s' where c: "create e s = Inr (fd, s')" "t fd = None" "holds s' (t(fd \<mapsto> e))"
    using create_law [OF assms] by blast
  have "find g s' = Inr ((t(fd \<mapsto> e)) g)" for g using find_law [OF c(3)] .
  then show ?thesis using c find_law [OF assms(1)] by auto
qed

lemma removed_not_found:
  assumes "holds s t"
  shows "\<exists>s'. remove fd s = Inr s' \<and> find fd s' = Inr None \<and> (\<forall>g. g \<noteq> fd \<longrightarrow> find g s' = find g s)"
proof -
  obtain s' where r: "remove fd s = Inr s'" "holds s' (t(fd := None))"
    using remove_law [OF assms] by blast
  have "find g s' = Inr ((t(fd := None)) g)" for g using find_law [OF r(2)] .
  then show ?thesis using r find_law [OF assms] by auto
qed

text \<open>Opening and closing leaves every other descriptor as it was.\<close>

lemma create_remove:
  assumes "holds s t" and "ready s"
  shows "\<exists>fd s1 s2. create e s = Inr (fd, s1) \<and> remove fd s1 = Inr s2 \<and> holds s2 t"
proof -
  obtain fd s1 where c: "create e s = Inr (fd, s1)" "t fd = None" "holds s1 (t(fd \<mapsto> e))"
    using create_law [OF assms] by blast
  obtain s2 where "remove fd s1 = Inr s2" "holds s2 ((t(fd \<mapsto> e))(fd := None))"
    using remove_law [OF c(3)] by blast
  moreover have "(t(fd \<mapsto> e))(fd := None) = t" using c(2) by auto
  ultimately show ?thesis using c(1) by auto
qed

end

interpretation fdt: fd_table create_fd find_fd remove_fd fd_holds fd_ready
proof unfold_locales
  show "fd_holds s t \<Longrightarrow> fd_ready s \<Longrightarrow>
      \<exists>fd s'. create_fd e s = Inr (fd, s') \<and> t fd = None \<and> fd_holds s' (t(fd \<mapsto> e))" for s t e
    using create_fd_holds by blast
  show "fd_holds s t \<Longrightarrow> find_fd fd s = Inr (t fd)" for s t fd by (rule find_fd_holds)
  show "fd_holds s t \<Longrightarrow> \<exists>s'. remove_fd fd s = Inr s' \<and> fd_holds s' (t(fd := None))" for s t fd
    using remove_fd_holds by blast
qed

end
