(* ===== verification/Blocks.thy ===== *)
theory Blocks
  imports Fd
begin

text \<open>
  The data blocks of the file system: the types of \<^verbatim>\<open>src/kernel/fs.h\<close>, the state of
  \<^verbatim>\<open>src/kernel/fs.c\<close>, and what its operations share (access to a block, the free list, the
  chain of a file).

  The block region is 129 pages at \<open>START_ADDR\<close>; slot \<open>i\<close> of it is the 128 bytes at
  \<open>START_ADDR + 128 * i\<close>, so the region has 4128 slots, of which the free list starts with the
  first of every page. A block is its slot's contents; access to an address that is no slot of
  a mapped page is a page fault. A free block is a \<open>node_t\<close>: its \<open>next\<close> pointer is the eight
  bytes that otherwise hold \<open>index\<close> and the first four bytes of \<open>data\<close>.
\<close>

section \<open>Types and state\<close>

record data_block =
  blk_index :: u32
  blk_data :: "u8 list"

record file_entry =
  fe_name :: "u8 list"
  start_index :: u32
  file_size :: u64

record fs_state =
  fds :: fd_state
  blocks :: u64
  free_list :: u64
  entries :: "file_entry list"
  next_entry :: nat
  blk_mapped :: "nat \<Rightarrow> bool"         \<comment> \<open>by page of the region\<close>
  blk_mem :: "nat \<Rightarrow> data_block"     \<comment> \<open>by slot\<close>

abbreviation "BLOCK_DATA_SIZE \<equiv> (124 :: u64)"
abbreviation "BLOCK_SIZE \<equiv> (128 :: u64)"
abbreviation "BLOCK_INDEX_END \<equiv> (0xffffffff :: u32)"
abbreviation "MAX_FILENAME \<equiv> (32 :: nat)"
abbreviation "MAX_FILE_SIZE \<equiv> (256 :: nat)"

section \<open>Access to blocks\<close>

definition slot_of :: "u64 \<Rightarrow> nat option" where
  "slot_of p = (let d = unat (p - START_ADDR) in
     if d mod 128 = 0 \<and> d < Suc MAX_BLOCK_SIZE * 4096 then Some (d div 128) else None)"

definition load_block :: "u64 \<Rightarrow> fs_state \<Rightarrow> data_block res" where
  "load_block p s = (case slot_of p of None \<Rightarrow> Inl (Page_Fault p)
     | Some i \<Rightarrow> if blk_mapped s (i div 32) then Inr (blk_mem s i) else Inl (Page_Fault p))"

definition store_block :: "u64 \<Rightarrow> data_block \<Rightarrow> fs_state \<Rightarrow> fs_state res" where
  "store_block p b s = (case slot_of p of None \<Rightarrow> Inl (Page_Fault p)
     | Some i \<Rightarrow> if blk_mapped s (i div 32) then Inr (s\<lparr>blk_mem := (blk_mem s)(i := b)\<rparr>)
                 else Inl (Page_Fault p))"

text \<open>\<open>&blocks[i]\<close>, and the index of the block at an address.\<close>

definition block_ref :: "fs_state \<Rightarrow> u32 \<Rightarrow> u64" where
  "block_ref s i = blocks s + BLOCK_SIZE * ucast i"

definition block_index :: "fs_state \<Rightarrow> u64 \<Rightarrow> u32" where
  "block_index s p = ucast ((p - blocks s) div BLOCK_SIZE)"

text \<open>The \<open>next\<close> field of the node that overlays a block (little-endian).\<close>

definition byte_at :: "nat \<Rightarrow> u64 \<Rightarrow> u8" where
  "byte_at k v = ucast (drop_bit (8 * k) v)"

definition blk_next :: "data_block \<Rightarrow> u64" where
  "blk_next b = ucast (blk_index b)
     OR push_bit 32 (ucast (blk_data b ! 0)) OR push_bit 40 (ucast (blk_data b ! 1))
     OR push_bit 48 (ucast (blk_data b ! 2)) OR push_bit 56 (ucast (blk_data b ! 3))"

definition set_blk_next :: "u64 \<Rightarrow> data_block \<Rightarrow> data_block" where
  "set_blk_next v b = b\<lparr>blk_index := ucast v,
     blk_data := [byte_at 4 v, byte_at 5 v, byte_at 6 v, byte_at 7 v] @ drop 4 (blk_data b)\<rparr>"

section \<open>Loops over blocks\<close>

text \<open>To the last block of a chain, \<open>fs_write_at\<close> lines 86-88.\<close>

partial_function (option) last_block :: "u64 \<Rightarrow> fs_state \<Rightarrow> u64 res option" where
  "last_block curr_block s =
    (case load_block curr_block s of Inl e \<Rightarrow> Some (Inl e)
     | Inr b \<Rightarrow> if blk_index b = BLOCK_INDEX_END then Some (Inr curr_block)
                else last_block (block_ref s (blk_index b)) s)"

text \<open>Appending \<open>n\<close> blocks of the free list to a chain; \<open>False\<close> when the list is empty.\<close>

fun alloc_blocks :: "nat \<Rightarrow> u64 \<Rightarrow> fs_state \<Rightarrow> (bool \<times> fs_state) res" where
  "alloc_blocks 0 curr_block s = Inr (True, s)"
| "alloc_blocks (Suc n) curr_block s =
    (if free_list s = 0 then Inr (False, s)
     else
      (let new_block = free_list s in
       bindE (load_block new_block s) (\<lambda>b.
       let s = s\<lparr>free_list := blk_next b\<rparr> in
       bindE (load_block curr_block s) (\<lambda>b.
       bindE (store_block curr_block (b\<lparr>blk_index := block_index s new_block\<rparr>) s) (\<lambda>s.
       let curr_block = new_block in
       bindE (if n = 0 then
                bindE (load_block curr_block s) (\<lambda>b.
                  store_block curr_block (b\<lparr>blk_index := BLOCK_INDEX_END\<rparr>) s)
              else Inr s) (\<lambda>s.
       alloc_blocks n curr_block s))))))"

text \<open>The loop counter is an \<open>int\<close>.\<close>

fun skip_blocks :: "int \<Rightarrow> nat \<Rightarrow> u64 \<Rightarrow> fs_state \<Rightarrow> u64 res" where
  "skip_blocks i 0 curr_block s = Inr curr_block"
| "skip_blocks i (Suc n) curr_block s =
     bindE (load_block curr_block s) (\<lambda>b.
       if i = INT_MAX then Inl Signed_Overflow
       else skip_blocks (i + 1) n (block_ref s (blk_index b)) s)"

text \<open>The copy loop: \<open>memcpy\<close> of one byte at a time, \<open>size\<close> times.\<close>

fun write_bytes :: "nat \<Rightarrow> u8 list \<Rightarrow> u64 \<Rightarrow> nat \<Rightarrow> fs_state \<Rightarrow> fs_state res" where
  "write_bytes 0 buff curr_block write_point s = Inr s"
| "write_bytes (Suc n) buff curr_block write_point s =
     bindE (if write_point = 124
            then map_res (\<lambda>b. (block_ref s (blk_index b), 0)) (load_block curr_block s)
            else Inr (curr_block, write_point)) (\<lambda>(curr_block, write_point).
     bindE (load_block curr_block s) (\<lambda>b.
     case buff of [] \<Rightarrow> Inl Overrun
     | c # buff' \<Rightarrow>
        bindE (store_block curr_block (b\<lparr>blk_data := (blk_data b)[write_point := c]\<rparr>) s)
          (write_bytes n buff' curr_block (Suc write_point))))"

section \<open>Slots and addresses\<close>

abbreviation "N_SLOTS \<equiv> (4128 :: nat)"

definition slot_addr :: "nat \<Rightarrow> u64" where
  "slot_addr i = START_ADDR + 128 * of_nat i"

definition mounted :: "fs_state \<Rightarrow> bool" where
  "mounted s \<longleftrightarrow> blocks s = START_ADDR \<and> (\<forall>k < Suc MAX_BLOCK_SIZE. blk_mapped s k)"

lemma slot_offset: "i < N_SLOTS \<Longrightarrow> unat (128 * of_nat i :: u64) = 128 * i"
  by (subst unat_mult_small) (simp_all add: unat_of_nat_small)

lemma slot_addr_diff: "slot_addr i - START_ADDR = 128 * of_nat i"
  by (simp add: slot_addr_def)

lemma slot_of_addr [simp]: "i < N_SLOTS \<Longrightarrow> slot_of (slot_addr i) = Some i"
  by (simp add: slot_of_def slot_addr_diff slot_offset Let_def)

lemma slot_addr_inject: "i < N_SLOTS \<Longrightarrow> j < N_SLOTS \<Longrightarrow> slot_addr i = slot_addr j \<longleftrightarrow> i = j"
  by (metis slot_of_addr option.inject)

lemma slot_addr_nonzero: "i < N_SLOTS \<Longrightarrow> slot_addr i \<noteq> 0"
proof
  assume i: "i < N_SLOTS" and "slot_addr i = 0"
  then have "slot_of 0 = Some i" using slot_of_addr [of i] by simp
  then show False by (simp add: slot_of_def Let_def split: if_splits)
qed

lemma load_slot [simp]: "mounted s \<Longrightarrow> i < N_SLOTS \<Longrightarrow> load_block (slot_addr i) s = Inr (blk_mem s i)"
  by (simp add: load_block_def mounted_def)

lemma store_slot [simp]:
  "mounted s \<Longrightarrow> i < N_SLOTS \<Longrightarrow> store_block (slot_addr i) b s = Inr (s\<lparr>blk_mem := (blk_mem s)(i := b)\<rparr>)"
  by (simp add: store_block_def mounted_def)

lemma block_ref_slot: "mounted s \<Longrightarrow> i < N_SLOTS \<Longrightarrow> block_ref s (of_nat i) = slot_addr i"
proof -
  assume s: "mounted s" and i: "i < N_SLOTS"
  have "(ucast (of_nat i :: u32) :: u64) = of_nat i"
    using i by (simp add: unsigned_of_nat take_bit_nat_eq_self)
  then show ?thesis using s by (simp add: block_ref_def mounted_def slot_addr_def)
qed

lemma block_index_slot: "mounted s \<Longrightarrow> i < N_SLOTS \<Longrightarrow> block_index s (slot_addr i) = of_nat i"
proof -
  assume s: "mounted s" and i: "i < N_SLOTS"
  have "unat ((128 * of_nat i :: u64) div 128) = i"
    using slot_offset [OF i] by (simp add: unat_div_distrib)
  then have "(128 * of_nat i :: u64) div 128 = of_nat i" using i by (simp only: word_unat_eq_iff) (simp add: unat_of_nat_small)
  then have "block_index s (slot_addr i) = ucast (of_nat i :: u64)"
    using s by (simp add: block_index_def mounted_def slot_addr_diff)
  also have "\<dots> = of_nat i"
    using i by (simp add: unsigned_of_nat take_bit_nat_eq_self)
  finally show ?thesis .
qed

lemma slot_index_not_end: "i < N_SLOTS \<Longrightarrow> (of_nat i :: u32) \<noteq> BLOCK_INDEX_END"
proof
  assume i: "i < N_SLOTS" and "(of_nat i :: u32) = BLOCK_INDEX_END"
  then have "unat (of_nat i :: u32) = unat BLOCK_INDEX_END" by simp
  then show False using i by (simp add: unat_of_nat_small)
qed

text \<open>The \<open>next\<close> pointer survives its split into \<open>index\<close> and four bytes of \<open>data\<close>.\<close>

lemma blk_next_set [simp]: "blk_next (set_blk_next v b) = v"
proof (rule bit_word_eqI)
  fix n assume "n < LENGTH(64)"
  moreover have "n < 32 \<or> (32 \<le> n \<and> n < 40) \<or> (40 \<le> n \<and> n < 48) \<or> (48 \<le> n \<and> n < 56) \<or> 56 \<le> n" by arith
  ultimately show "bit (blk_next (set_blk_next v b)) n = bit v n"
    unfolding blk_next_def set_blk_next_def byte_at_def
    by (elim disjE) (auto simp: bit_simps)
qed

lemma blk_index_set_next [simp]: "blk_index (set_blk_next v b) = ucast v"
  by (simp add: set_blk_next_def)

lemma length_set_next: "4 \<le> length (blk_data b) \<Longrightarrow> length (blk_data (set_blk_next v b)) = length (blk_data b)"
  by (simp add: set_blk_next_def)

end
