(* ===== verification/Chains.thy ===== *)
theory Chains
  imports Blocks
begin

text \<open>
  Chains of blocks as lists of slots: the blocks of a file, linked through \<open>index\<close> and ended by
  \<open>BLOCK_INDEX_END\<close>, and the free list, linked through \<open>next\<close> and ended by \<open>NULL\<close>. What the
  loops of \<open>Blocks\<close> do on them, and the bytes a chain holds.
\<close>

section \<open>Chains and their bytes\<close>

fun chain :: "(nat \<Rightarrow> data_block) \<Rightarrow> u32 \<Rightarrow> nat list \<Rightarrow> bool" where
  "chain m i [] \<longleftrightarrow> i = BLOCK_INDEX_END"
| "chain m i (c # cs) \<longleftrightarrow> c < N_SLOTS \<and> i = of_nat c \<and> chain m (blk_index (m c)) cs"

fun free_chain :: "(nat \<Rightarrow> data_block) \<Rightarrow> u64 \<Rightarrow> nat list \<Rightarrow> bool" where
  "free_chain m p [] \<longleftrightarrow> p = 0"
| "free_chain m p (c # cs) \<longleftrightarrow> c < N_SLOTS \<and> p = slot_addr c \<and> free_chain m (blk_next (m c)) cs"

text \<open>\<open>path m i cs j\<close>: following \<open>index\<close> from \<open>i\<close> passes \<open>cs\<close> and arrives at index \<open>j\<close>.\<close>

fun path :: "(nat \<Rightarrow> data_block) \<Rightarrow> u32 \<Rightarrow> nat list \<Rightarrow> u32 \<Rightarrow> bool" where
  "path m i [] j \<longleftrightarrow> i = j"
| "path m i (c # cs) j \<longleftrightarrow> c < N_SLOTS \<and> i = of_nat c \<and> path m (blk_index (m c)) cs j"

definition file_data :: "(nat \<Rightarrow> data_block) \<Rightarrow> nat list \<Rightarrow> u8 list" where
  "file_data m cs = concat (map (\<lambda>c. blk_data (m c)) cs)"

definition data_ok :: "(nat \<Rightarrow> data_block) \<Rightarrow> bool" where
  "data_ok m \<longleftrightarrow> (\<forall>c. length (blk_data (m c)) = 124)"

lemma chain_frame: "(\<And>c. c \<in> set cs \<Longrightarrow> m' c = m c) \<Longrightarrow> chain m' i cs = chain m i cs"
  by (induction cs arbitrary: i) auto

lemma chain_index_frame:
  "(\<And>c. c \<in> set cs \<Longrightarrow> blk_index (m' c) = blk_index (m c)) \<Longrightarrow> chain m' i cs = chain m i cs"
  by (induction cs arbitrary: i) auto

lemma chain_path: "chain m i cs \<longleftrightarrow> path m i cs BLOCK_INDEX_END"
  by (induction cs arbitrary: i) auto

lemma free_chain_frame: "(\<And>c. c \<in> set cs \<Longrightarrow> m' c = m c) \<Longrightarrow> free_chain m' p cs = free_chain m p cs"
  by (induction cs arbitrary: p) auto

lemma chain_slots: "chain m i cs \<Longrightarrow> c \<in> set cs \<Longrightarrow> c < N_SLOTS"
  by (induction cs arbitrary: i) auto

lemma free_chain_slots: "free_chain m p cs \<Longrightarrow> c \<in> set cs \<Longrightarrow> c < N_SLOTS"
  by (induction cs arbitrary: p) auto

lemma free_chain_Nil_iff: "free_chain m p cs \<Longrightarrow> p = 0 \<longleftrightarrow> cs = []"
  by (cases cs) (auto simp: slot_addr_nonzero)

lemma path_extend:
  "path m i cs j \<Longrightarrow> cs \<noteq> [] \<Longrightarrow> (\<And>c. c \<in> set (butlast cs) \<Longrightarrow> m' c = m c) \<Longrightarrow>
   path m' (blk_index (m' (last cs))) ds l \<Longrightarrow> path m' i (cs @ ds) l"
proof (induction cs arbitrary: i)
  case (Cons c cs)
  show ?case
  proof (cases "cs = []")
    case False
    then have "m' c = m c" "path m' (blk_index (m c)) (cs @ ds) l"
      using Cons by simp_all
    then show ?thesis using Cons.prems(1) by simp
  qed (use Cons.prems in simp)
qed simp

lemmas chain_extend = path_extend [where j = BLOCK_INDEX_END and l = BLOCK_INDEX_END, folded chain_path]

lemma file_data_simps [simp]:
  "file_data m [] = []" "file_data m (c # cs) = blk_data (m c) @ file_data m cs"
  "file_data m (cs @ ds) = file_data m cs @ file_data m ds"
  by (simp_all add: file_data_def)

lemma file_data_length: "data_ok m \<Longrightarrow> length (file_data m cs) = 124 * length cs"
  by (induction cs) (simp_all add: data_ok_def)

lemma file_data_cong:
  "(\<And>c. c \<in> set cs \<Longrightarrow> blk_data (m' c) = blk_data (m c)) \<Longrightarrow> file_data m' cs = file_data m cs"
  by (induction cs) auto

section \<open>Walking a chain\<close>

lemma chain_ref: "mounted s \<Longrightarrow> chain m i (c # cs) \<Longrightarrow> block_ref s i = slot_addr c"
  by (auto simp: block_ref_slot)

lemma last_block_chain:
  "mounted s \<Longrightarrow> chain (blk_mem s) i cs \<Longrightarrow> cs \<noteq> [] \<Longrightarrow>
   last_block (block_ref s i) s = Some (Inr (slot_addr (last cs)))"
proof (induction cs arbitrary: i)
  case (Cons c cs)
  have ref: "block_ref s i = slot_addr c" "c < N_SLOTS" using chain_ref Cons.prems by auto
  show ?case
  proof (cases cs)
    case Nil
    then show ?thesis using Cons.prems ref by (simp add: last_block.simps [of "slot_addr c"])
  next
    case (Cons d ds)
    then have "blk_index (blk_mem s c) \<noteq> BLOCK_INDEX_END"
      using Cons.prems slot_index_not_end by auto
    then have "last_block (block_ref s i) s = last_block (block_ref s (blk_index (blk_mem s c))) s"
      using Cons.prems(1) ref by (simp add: last_block.simps [of "slot_addr c"])
    then show ?thesis using Cons.IH Cons.prems Cons by simp
  qed
qed simp

text \<open>A block that links to itself: the walk to the end of the chain does not stop.\<close>

lemma last_block_self:
  assumes "mounted s" and "blk_index (blk_mem s 0) = 0"
  shows "last_block (slot_addr 0) s = None"
proof -
  have self: "block_ref s 0 = slot_addr 0" using block_ref_slot [OF assms(1), of 0] by simp
  have load: "load_block (slot_addr 0) s = Inr (blk_mem s 0)" using assms(1) by simp
  have "p = slot_addr 0 \<longrightarrow> u = s \<longrightarrow> False" if "last_block p u = Some r" for p u r
  proof (rule last_block.raw_induct [where P = "\<lambda>p u r. p = slot_addr 0 \<longrightarrow> u = s \<longrightarrow> False", OF _ that], intro impI)
    fix f p u r assume IH: "\<And>p u r. f p u = Some r \<Longrightarrow> p = slot_addr 0 \<longrightarrow> u = s \<longrightarrow> False"
      and "(case load_block p u of Inl e \<Rightarrow> Some (Inl e) | Inr b \<Rightarrow>
        if blk_index b = BLOCK_INDEX_END then Some (Inr p) else f (block_ref u (blk_index b)) u) = Some r"
      and "p = slot_addr 0" "u = s"
    then have "f (slot_addr 0) s = Some r" using load assms(2) self by simp
    then show False using IH by blast
  qed
  then show ?thesis by (cases "last_block (slot_addr 0) s") auto
qed

lemma last_block_path:
  "mounted s \<Longrightarrow> path (blk_mem s) i cs j \<Longrightarrow> j \<noteq> BLOCK_INDEX_END \<Longrightarrow> last_block (block_ref s i) s = last_block (block_ref s j) s"
proof (induction cs arbitrary: i)
  case (Cons c cs)
  have "block_ref s i = slot_addr c" "c < N_SLOTS" using Cons.prems by (auto simp: block_ref_slot)
  moreover have "blk_index (blk_mem s c) \<noteq> BLOCK_INDEX_END"
    using Cons.prems slot_index_not_end by (cases cs) auto
  ultimately have "last_block (block_ref s i) s = last_block (block_ref s (blk_index (blk_mem s c))) s"
    using Cons.prems(1) by (simp add: last_block.simps [of "slot_addr c"])
  then show ?case using Cons by simp
qed simp

lemma skip_blocks_chain:
  "mounted s \<Longrightarrow> chain (blk_mem s) i cs \<Longrightarrow> k \<le> length cs \<Longrightarrow> j + int k \<le> INT_MAX \<Longrightarrow>
   skip_blocks j k (block_ref s i) s = Inr (block_ref s ((map of_nat cs @ [BLOCK_INDEX_END]) ! k))"
proof (induction k arbitrary: i j cs)
  case 0
  then show ?case by (cases cs) auto
next
  case (Suc k)
  then obtain c cs' where cs: "cs = c # cs'" by (cases cs) auto
  then have "block_ref s i = slot_addr c" "c < N_SLOTS" using chain_ref Suc.prems by auto
  then show ?case using Suc cs by simp
qed

section \<open>Taking blocks off the free list\<close>

lemma alloc_blocks_takes:
  "mounted s \<Longrightarrow> free_chain (blk_mem s) (free_list s) fl \<Longrightarrow> distinct fl \<Longrightarrow> c < N_SLOTS \<Longrightarrow>
   c \<notin> set fl \<Longrightarrow> n < length fl \<Longrightarrow>
   \<exists>p m. alloc_blocks (Suc n) (slot_addr c) s = Inr (True, s\<lparr>free_list := p, blk_mem := m\<rparr>)
     \<and> chain m (blk_index (m c)) (take (Suc n) fl) \<and> free_chain m p (drop (Suc n) fl)
     \<and> (\<forall>j. blk_data (m j) = blk_data (blk_mem s j))
     \<and> (\<forall>j. j \<noteq> c \<longrightarrow> j \<notin> set (take (Suc n) fl) \<longrightarrow> m j = blk_mem s j)"
proof (induction n arbitrary: s c fl)
  case 0
  then obtain f fl' where fl: "fl = f # fl'" by (cases fl) auto
  let ?m = "(blk_mem s)(c := (blk_mem s c)\<lparr>blk_index := of_nat f\<rparr>, f := (blk_mem s f)\<lparr>blk_index := BLOCK_INDEX_END\<rparr>)"
  let ?p = "blk_next (blk_mem s f)"
  have f: "f < N_SLOTS" "free_list s = slot_addr f" "slot_addr f \<noteq> 0" "f \<noteq> c" "f \<notin> set fl'" "c \<notin> set fl'"
    using 0 fl slot_addr_nonzero by auto
  have m: "mounted (s\<lparr>free_list := p, blk_mem := m\<rparr>)" for p m using 0(1) by (simp add: mounted_def)
  have mm: "mounted (s\<lparr>free_list := p\<rparr>)" for p using 0(1) by (simp add: mounted_def)
  have "alloc_blocks (Suc 0) (slot_addr c) s = Inr (True, s\<lparr>free_list := ?p, blk_mem := ?m\<rparr>)"
    using f 0(1,4) m mm by (simp add: Let_def block_index_slot)
  moreover have "free_chain ?m ?p fl'"
    using 0(2) fl f free_chain_frame [of fl' ?m "blk_mem s"] by fastforce
  ultimately show ?case using f fl by (intro exI [of _ ?p] exI [of _ ?m]) (simp del: fun_upd_apply, simp)
next
  case (Suc n)
  then obtain f fl' where fl: "fl = f # fl'" by (cases fl) auto
  let ?m = "(blk_mem s)(c := (blk_mem s c)\<lparr>blk_index := of_nat f\<rparr>)"
  let ?t = "s\<lparr>free_list := blk_next (blk_mem s f), blk_mem := ?m\<rparr>"
  have f: "f < N_SLOTS" "free_list s = slot_addr f" "slot_addr f \<noteq> 0" "f \<noteq> c" "f \<notin> set fl'" "c \<notin> set fl'"
    using Suc.prems fl slot_addr_nonzero by auto
  have m: "mounted ?t" "mounted (s\<lparr>free_list := p\<rparr>)" for p using Suc.prems(1) by (simp_all add: mounted_def)
  have step: "alloc_blocks (Suc (Suc n)) (slot_addr c) s = alloc_blocks (Suc n) (slot_addr f) ?t"
    using f Suc.prems(1,4) m by (subst alloc_blocks.simps) (simp add: Let_def block_index_slot)
  have "free_chain (blk_mem ?t) (free_list ?t) fl'"
    using Suc.prems(2) fl f free_chain_frame [of fl' ?m "blk_mem s"] by fastforce
  from Suc.IH [OF m(1) this _ f(1) f(5)] Suc.prems(3,6) fl
  obtain p m where r: "alloc_blocks (Suc n) (slot_addr f) ?t = Inr (True, ?t\<lparr>free_list := p, blk_mem := m\<rparr>)"
    "chain m (blk_index (m f)) (take (Suc n) fl')" "free_chain m p (drop (Suc n) fl')"
    "\<forall>j. blk_data (m j) = blk_data (?m j)"
    "\<forall>j. j \<noteq> f \<longrightarrow> j \<notin> set (take (Suc n) fl') \<longrightarrow> m j = ?m j" by auto
  have "c \<notin> set (take (Suc n) fl')" using f(6) by (meson in_set_takeD)
  then have "m c = ?m c" using r(5) [rule_format, OF f(4) [symmetric]] by blast
  then have "chain m (blk_index (m c)) (take (Suc (Suc n)) fl)" using r(2) f(1) fl by simp
  moreover have "\<forall>j. blk_data (m j) = blk_data (blk_mem s j)" using r(4) by simp
  moreover have "\<forall>j. j \<noteq> c \<longrightarrow> j \<notin> set (take (Suc (Suc n)) fl) \<longrightarrow> m j = blk_mem s j"
    using r(5) fl by auto
  ultimately show ?case using step r(1,3) fl by (intro exI [of _ p] exI [of _ m]) simp
qed

text \<open>When the list is too short the whole of it is consumed, and its last block links to slot 0.\<close>

lemma alloc_blocks_exhausts:
  "mounted s \<Longrightarrow> free_chain (blk_mem s) (free_list s) fl \<Longrightarrow> distinct fl \<Longrightarrow> c < N_SLOTS \<Longrightarrow>
   c \<notin> set fl \<Longrightarrow> length fl < n \<Longrightarrow>
   \<exists>m. alloc_blocks n (slot_addr c) s = Inr (False, s\<lparr>free_list := 0, blk_mem := m\<rparr>)
     \<and> (\<forall>j. j \<noteq> c \<longrightarrow> j \<notin> set fl \<longrightarrow> m j = blk_mem s j)
     \<and> (if fl = [] then m = blk_mem s else path m (blk_index (m c)) fl 0 \<and> blk_index (m (last fl)) = 0)"
proof (induction fl arbitrary: s c n)
  case Nil
  then obtain k where "n = Suc k" by (cases n) auto
  then show ?case using Nil by (intro exI [of _ "blk_mem s"]) simp
next
  case (Cons f fl)
  obtain k where n: "n = Suc (Suc k)" using Cons.prems(6) by (cases n; cases "n - 1") auto
  let ?m = "(blk_mem s)(c := (blk_mem s c)\<lparr>blk_index := of_nat f\<rparr>)"
  let ?t = "s\<lparr>free_list := blk_next (blk_mem s f), blk_mem := ?m\<rparr>"
  have f: "f < N_SLOTS" "free_list s = slot_addr f" "slot_addr f \<noteq> 0" "f \<noteq> c" "f \<notin> set fl" "c \<notin> set fl"
    using Cons.prems slot_addr_nonzero by auto
  have m: "mounted ?t" "mounted (s\<lparr>free_list := p\<rparr>)" for p using Cons.prems(1) by (simp_all add: mounted_def)
  have step: "alloc_blocks n (slot_addr c) s = alloc_blocks (Suc k) (slot_addr f) ?t"
    using f Cons.prems(1,4) m unfolding n by (subst alloc_blocks.simps) (simp add: Let_def block_index_slot)
  have fc: "free_chain (blk_mem ?t) (free_list ?t) fl"
    using Cons.prems(2) f free_chain_frame [of fl ?m "blk_mem s"] by fastforce
  from Cons.IH [OF m(1) fc _ f(1) f(5), of "Suc k"] Cons.prems(3,6) n
  obtain m where r: "alloc_blocks (Suc k) (slot_addr f) ?t = Inr (False, ?t\<lparr>free_list := 0, blk_mem := m\<rparr>)"
    "\<forall>j. j \<noteq> f \<longrightarrow> j \<notin> set fl \<longrightarrow> m j = ?m j"
    "if fl = [] then m = ?m else path m (blk_index (m f)) fl 0 \<and> blk_index (m (last fl)) = 0" by auto
  have "blk_index (m f) = 0" if "fl = []"
  proof -
    have "blk_next (blk_mem s f) = 0" using fc that by simp
    then have "take_bit 32 (blk_next (blk_mem s f)) = 0" by simp
    moreover have "ucast (blk_next b) = blk_index b" for b
      unfolding blk_next_def by (rule bit_word_eqI) (auto simp: bit_simps)
    ultimately have "blk_index (blk_mem s f) = 0"
      using \<open>blk_next (blk_mem s f) = 0\<close> by (metis unsigned_0)
    then show ?thesis using r(3) that f(4) by simp
  qed
  then have "path m (blk_index (m f)) fl 0 \<and> blk_index (m (last (f # fl))) = 0" using r(3) by (cases fl) auto
  moreover have "m c = ?m c" using r(2) [rule_format, OF f(4) [symmetric] f(6)] .
  ultimately have "path m (blk_index (m c)) (f # fl) 0 \<and> blk_index (m (last (f # fl))) = 0" using f(1) by simp
  then show ?case using step r(1,2) by (intro exI [of _ m]) auto
qed

section \<open>Writing bytes\<close>

definition splice_at :: "'a list \<Rightarrow> nat \<Rightarrow> 'a list \<Rightarrow> 'a list" where
  "splice_at xs k ys = take k xs @ ys @ drop (k + length ys) xs"

lemma splice_Nil [simp]: "k \<le> length xs \<Longrightarrow> splice_at xs k [] = xs"
  by (simp add: splice_at_def)

lemma splice_update: "k < length xs \<Longrightarrow> splice_at (xs[k := y]) (Suc k) ys = splice_at xs k (y # ys)"
  by (simp add: splice_at_def take_Suc_update)

lemma splice_append: "splice_at (xs @ zs) (length xs + k) ys = xs @ splice_at zs k ys"
  by (simp add: splice_at_def)

lemma length_splice: "k + length ys \<le> length xs \<Longrightarrow> length (splice_at xs k ys) = length xs"
  by (simp add: splice_at_def)

lemma write_bytes_turn:
  assumes "load_block p s = Inr b"
  shows "write_bytes (Suc n) buff p 124 s = write_bytes (Suc n) buff (block_ref s (blk_index b)) 0 s"
  using assms by simp

lemma write_bytes_step:
  assumes "mounted s" and "c < N_SLOTS" and "wp < 124"
  shows "write_bytes (Suc n) (y # buff) (slot_addr c) wp s = write_bytes n buff (slot_addr c) (Suc wp)
    (s\<lparr>blk_mem := (blk_mem s)(c := (blk_mem s c)\<lparr>blk_data := (blk_data (blk_mem s c))[wp := y]\<rparr>)\<rparr>)"
  using assms by simp

text \<open>From position \<open>wp\<close> of the block \<open>c\<close> the bytes go to that position of the chain's data.\<close>

definition same_links :: "(nat \<Rightarrow> data_block) \<Rightarrow> (nat \<Rightarrow> data_block) \<Rightarrow> bool" where
  "same_links m m' \<longleftrightarrow> (\<forall>j. blk_index (m' j) = blk_index (m j)) \<and> (data_ok m \<longrightarrow> data_ok m')"

declare write_bytes.simps [simp del]

lemma write_bytes_chain:
  "mounted s \<Longrightarrow> chain (blk_mem s) (of_nat c) (c # rest) \<Longrightarrow> distinct (c # rest) \<Longrightarrow> data_ok (blk_mem s) \<Longrightarrow>
   wp \<le> 124 \<Longrightarrow> n \<le> length buff \<Longrightarrow> wp + n \<le> 124 * length (c # rest) \<Longrightarrow>
   \<exists>m. write_bytes n buff (slot_addr c) wp s = Inr (s\<lparr>blk_mem := m\<rparr>)
     \<and> file_data m (c # rest) = splice_at (file_data (blk_mem s) (c # rest)) wp (take n buff)
     \<and> same_links (blk_mem s) m \<and> (\<forall>j. j \<notin> set (c # rest) \<longrightarrow> m j = blk_mem s j)"
proof (induction n arbitrary: s c rest wp buff)
  case 0
  have "wp \<le> length (file_data (blk_mem s) (c # rest))" using 0 by (simp add: data_ok_def)
  then show ?case
    by (intro exI [of _ "blk_mem s"]) (simp add: same_links_def write_bytes.simps)
next
  case (Suc n)
  obtain y ys where buff: "buff = y # ys" using Suc.prems(6) by (cases buff) auto
  have here: "\<exists>m. write_bytes (Suc n) buff (slot_addr d) w s = Inr (s\<lparr>blk_mem := m\<rparr>)
     \<and> file_data m (d # ds) = splice_at (file_data (blk_mem s) (d # ds)) w (take (Suc n) buff)
     \<and> same_links (blk_mem s) m \<and> (\<forall>j. j \<notin> set (d # ds) \<longrightarrow> m j = blk_mem s j)"
    if ch: "chain (blk_mem s) (of_nat d) (d # ds)" and dist: "distinct (d # ds)"
      and w: "w < 124" "w + Suc n \<le> 124 * length (d # ds)" for d ds w
  proof -
    let ?b = "(blk_mem s d)\<lparr>blk_data := (blk_data (blk_mem s d))[w := y]\<rparr>"
    let ?m = "(blk_mem s)(d := ?b)" and ?t = "s\<lparr>blk_mem := (blk_mem s)(d := ?b)\<rparr>"
    have len: "length (blk_data (blk_mem s d)) = 124" using Suc.prems(4) by (simp add: data_ok_def)
    have t: "mounted ?t" "data_ok (blk_mem ?t)" "chain (blk_mem ?t) (of_nat d) (d # ds)"
      using Suc.prems(1,4) ch chain_index_frame [of ds ?m "blk_mem s"] by (simp_all add: mounted_def data_ok_def)
    have "file_data ?m ds = file_data (blk_mem s) ds"
      by (rule file_data_cong) (use dist in auto)
    then have "file_data ?m (d # ds) = (file_data (blk_mem s) (d # ds))[w := y]"
      using w(1) len by (simp add: list_update_append1)
    moreover have "w < length (file_data (blk_mem s) (d # ds))" using w(1) len by simp
    ultimately have spl: "splice_at (file_data ?m (d # ds)) (Suc w) (take n ys)
        = splice_at (file_data (blk_mem s) (d # ds)) w (take (Suc n) buff)"
      by (simp only: splice_update buff take_Suc_Cons)
    have "Suc w \<le> 124" "n \<le> length ys" "Suc w + n \<le> 124 * length (d # ds)"
      using w Suc.prems(6) buff by simp_all
    from Suc.IH [OF t(1,3) dist t(2) this] obtain m where m:
      "write_bytes n ys (slot_addr d) (Suc w) ?t = Inr (?t\<lparr>blk_mem := m\<rparr>)"
      "file_data m (d # ds) = splice_at (file_data ?m (d # ds)) (Suc w) (take n ys)"
      "same_links ?m m" "\<forall>j. j \<notin> set (d # ds) \<longrightarrow> m j = ?m j" by (auto simp del: fun_upd_apply)
    have "write_bytes (Suc n) buff (slot_addr d) w s = Inr (s\<lparr>blk_mem := m\<rparr>)"
      using write_bytes_step [OF Suc.prems(1) _ w(1)] ch m(1) buff by simp
    moreover have "same_links (blk_mem s) m"
      using m(3) t(2) by (auto simp: same_links_def)
    ultimately show ?thesis using m(2,4) spl by (intro exI [of _ m]) simp
  qed
  show ?case
  proof (cases "wp = 124")
    case False
    then show ?thesis using here [OF Suc.prems(2,3)] Suc.prems(5,7) by simp
  next
    case True
    then obtain d ds where rest: "rest = d # ds" using Suc.prems(7) by (cases rest) auto
    have c: "c < N_SLOTS" and link: "blk_index (blk_mem s c) = of_nat d" "d < N_SLOTS"
      and ch: "chain (blk_mem s) (of_nat d) (d # ds)"
      using Suc.prems(2) rest by simp_all
    have "write_bytes (Suc n) buff (slot_addr c) wp s = write_bytes (Suc n) buff (slot_addr d) 0 s"
      using write_bytes_turn [OF load_slot [OF Suc.prems(1) c]] True link Suc.prems(1)
      by (simp add: block_ref_slot)
    moreover obtain m where "write_bytes (Suc n) buff (slot_addr d) 0 s = Inr (s\<lparr>blk_mem := m\<rparr>)"
      "file_data m (d # ds) = splice_at (file_data (blk_mem s) (d # ds)) 0 (take (Suc n) buff)"
      "same_links (blk_mem s) m" "\<forall>j. j \<notin> set (d # ds) \<longrightarrow> m j = blk_mem s j"
      using here [OF ch, of 0] Suc.prems(3,7) rest True by auto
    moreover from this(4) have "m c = blk_mem s c" using Suc.prems(3) rest by simp
    moreover have "length (blk_data (blk_mem s c)) = 124" using Suc.prems(4) by (simp add: data_ok_def)
    ultimately show ?thesis
      using splice_append [of "blk_data (blk_mem s c)" "file_data (blk_mem s) rest" 0] True rest
      by (intro exI [of _ m]) auto
  qed
qed

end
