(* ===== verification/Fs.thy ===== *)
theory Fs
  imports Chains
begin

text \<open>
  The file system, \<^verbatim>\<open>src/kernel/fs.c\<close>: one definition per function, on the state of
  \<^verbatim>\<open>Blocks\<close>; then its invariant \<open>fs_ok\<close> and what every operation does to it.
\<close>

section \<open>Operations\<close>

definition fs_touch :: "u64 \<Rightarrow> fs_state \<Rightarrow> fs_state res" where
  "fs_touch a s = map_res (\<lambda>m. s\<lparr>fds := (fds s)\<lparr>vm := m\<rparr>\<rparr>) (touch_page a (vm (fds s)))"

definition fs_print :: "u8 list \<Rightarrow> karg list \<Rightarrow> fs_state \<Rightarrow> fs_state res" where
  "fs_print fmt args s = map_res (\<lambda>m. s\<lparr>fds := (fds s)\<lparr>vm := m\<rparr>\<rparr>) (mprintf fmt args (vm (fds s)))"

text \<open>
  Pages \<open>i\<close> to the last: each is mapped (its 32 slots become accessible) and its first slot
  becomes the head of the free list.
\<close>

fun fs_init_loop :: "nat list \<Rightarrow> fs_state \<Rightarrow> fs_state res" where
  "fs_init_loop [] s = Inr s"
| "fs_init_loop (i # is) s =
    (let curr_block = START_ADDR + of_nat i * 0x1000 in
     bindE (fs_touch curr_block s) (\<lambda>s.
     let s = s\<lparr>blk_mapped := (blk_mapped s)(i := True)\<rparr> in
     bindE (load_block curr_block s) (\<lambda>b.
     bindE (store_block curr_block (set_blk_next (free_list s) b) s) (\<lambda>s.
     fs_init_loop is (s\<lparr>free_list := curr_block\<rparr>)))))"

definition fs_init :: "fs_state \<Rightarrow> fs_state res" where
  "fs_init s = fs_init_loop [0..<MAX_BLOCK_SIZE + 1] (s\<lparr>blocks := START_ADDR\<rparr>)"

definition get_entry :: "nat \<Rightarrow> fs_state \<Rightarrow> file_entry res" where
  "get_entry i s = (if i < length (entries s) then Inr (entries s ! i) else Inl Overrun)"

definition set_entry :: "nat \<Rightarrow> file_entry \<Rightarrow> fs_state \<Rightarrow> fs_state" where
  "set_entry i e s = s\<lparr>entries := (entries s)[i := e]\<rparr>"

definition fs_create_fd :: "nat \<Rightarrow> fs_state \<Rightarrow> (int \<times> fs_state) res" where
  "fs_create_fd i s = map_res (\<lambda>(fd, d). (fd, s\<lparr>fds := d\<rparr>)) (create_fd i (fds s))"

text \<open>The index of the first entry at or after \<open>i\<close> with the given name, below the bound.\<close>

fun find_name :: "nat list \<Rightarrow> u8 list \<Rightarrow> fs_state \<Rightarrow> nat option res" where
  "find_name [] file_name s = Inr None"
| "find_name (i # is) file_name s =
    bindE (get_entry i s) (\<lambda>e.
    bindE (strcmp file_name (fe_name e)) (\<lambda>r.
    if r = 0 then Inr (Some i) else find_name is file_name s))"

definition fs_open :: "u8 list \<Rightarrow> fs_state \<Rightarrow> (int \<times> fs_state) res" where
  "fs_open file_name s =
    (if MAX_FILE_SIZE \<le> next_entry s then Inr (-1, s)
     else bindE (find_name [0..<next_entry s] file_name s) (\<lambda>found.
     case found of Some i \<Rightarrow> fs_create_fd i s
     | None \<Rightarrow>
       if MAX_FILE_SIZE \<le> next_entry s then Inr (-1, s)
       else if free_list s = 0 then Inr (-1, s)
       else
        (let i = next_entry s; new_block = free_list s in
         bindE (get_entry i s) (\<lambda>e.
         bindE (strcpy (fe_name e) file_name) (\<lambda>n.
         let s = set_entry i (e\<lparr>fe_name := n, file_size := 0,
                                start_index := block_index s (free_list s)\<rparr>) s in
         bindE (load_block new_block s) (\<lambda>b.
         let s = s\<lparr>free_list := blk_next b\<rparr> in
         bindE (store_block new_block (b\<lparr>blk_index := BLOCK_INDEX_END\<rparr>) s) (\<lambda>s.
         bindE (fs_create_fd i s) (\<lambda>(fd, s).
         Inr (fd, s\<lparr>next_entry := next_entry s + 1\<rparr>)))))))))"

definition fs_min :: "u64 \<Rightarrow> u64 \<Rightarrow> u64" where
  "fs_min num1 num2 = (if num1 > num2 then num2 else num1)"

definition fs_max :: "u64 \<Rightarrow> u64 \<Rightarrow> u64" where
  "fs_max num1 num2 = (if num1 > num2 then num1 else num2)"

definition fs_grow :: "file_entry \<Rightarrow> int \<Rightarrow> fs_state \<Rightarrow> (bool \<times> fs_state) res" where
  "fs_grow entry num_new_block s =
    (if INT_MAX < num_new_block then Inl Signed_Overflow
     else bindE (run_loop (last_block (block_ref s (start_index entry)) s)) (\<lambda>curr_block.
       alloc_blocks (nat num_new_block) curr_block s))"

definition fs_write_at :: "int \<Rightarrow> u64 \<Rightarrow> u8 list \<Rightarrow> u64 \<Rightarrow> fs_state \<Rightarrow> (bool \<times> fs_state) res" where
  "fs_write_at fd index buff sz s =
    bindE (find_fd fd (fds s)) (\<lambda>r. case r of None \<Rightarrow> Inr (False, s)
    | Some k \<Rightarrow>
      bindE (get_entry k s) (\<lambda>entry.
      let fsize = file_size entry in
      if index > fsize then Inr (False, s) else
      let num_blocks = int_of_size (fs_max 1 ((fsize + BLOCK_DATA_SIZE - 1) div BLOCK_DATA_SIZE));
          blocks_needed = int_of_size ((index + sz + BLOCK_DATA_SIZE - 1) div BLOCK_DATA_SIZE) in
      bindE (if blocks_needed > num_blocks then fs_grow entry (blocks_needed - num_blocks) s
             else Inr (True, s)) (\<lambda>(ok, s).
      if \<not> ok then Inr (False, s) else
      let start_block = index div BLOCK_DATA_SIZE;
          write_point = index mod BLOCK_DATA_SIZE in
      bindE (skip_blocks 0 (unat start_block) (block_ref s (start_index entry)) s) (\<lambda>curr_block.
      let s = set_entry k (entry\<lparr>file_size := fs_max (index + sz) (file_size entry)\<rparr>) s in
      map_res (Pair True) (write_bytes (unat sz) buff curr_block (unat write_point) s)))))"

definition fs_write :: "int \<Rightarrow> u8 list \<Rightarrow> u64 \<Rightarrow> fs_state \<Rightarrow> (bool \<times> fs_state) res" where
  "fs_write fd buf sz s = fs_write_at fd 0 buf sz s"

definition fs_append :: "int \<Rightarrow> u8 list \<Rightarrow> u64 \<Rightarrow> fs_state \<Rightarrow> (bool \<times> fs_state) res" where
  "fs_append fd buf sz s =
    bindE (find_fd fd (fds s)) (\<lambda>r. case r of None \<Rightarrow> Inr (False, s)
    | Some k \<Rightarrow> bindE (get_entry k s) (\<lambda>entry. fs_write_at fd (file_size entry) buf sz s))"

text \<open>The inner loop of \<open>fs_read\<close>: one \<open>kprintf\<close> per byte.\<close>

fun read_data :: "u8 list \<Rightarrow> fs_state \<Rightarrow> fs_state res" where
  "read_data [] s = Inr s"
| "read_data (c # cs) s = bindE (fs_print (c_lit ''%c'') [Word_Arg (ucast c)] s) (read_data cs)"

partial_function (option) read_loop :: "u64 \<Rightarrow> u64 \<Rightarrow> fs_state \<Rightarrow> fs_state res option" where
  "read_loop curr_block total_size s =
    (case load_block curr_block s of Inl e \<Rightarrow> Some (Inl e)
     | Inr b \<Rightarrow>
       (case read_data (take (unat (fs_min BLOCK_DATA_SIZE total_size)) (blk_data b)) s of
          Inl e \<Rightarrow> Some (Inl e)
        | Inr s' \<Rightarrow>
           if blk_index b = BLOCK_INDEX_END then Some (Inr s')
           else read_loop (block_ref s' (blk_index b)) (total_size - BLOCK_DATA_SIZE) s'))"

definition fs_read :: "int \<Rightarrow> fs_state \<Rightarrow> fs_state res" where
  "fs_read fd s =
    bindE (find_fd fd (fds s)) (\<lambda>r. case r of
      None \<Rightarrow> fs_print (c_lit (''WARNING: The file you are trying to read does not exist'' @ [CHR 0x0A])) [] s
    | Some k \<Rightarrow> bindE (get_entry k s) (\<lambda>entry.
        run_loop (read_loop (block_ref s (start_index entry)) (file_size entry) s)))"

partial_function (option) delete_loop :: "u64 \<Rightarrow> fs_state \<Rightarrow> fs_state res option" where
  "delete_loop curr_block s =
    (case load_block curr_block s of Inl e \<Rightarrow> Some (Inl e)
     | Inr b \<Rightarrow>
       if blk_index b = BLOCK_INDEX_END then Some (Inr s)
       else (case store_block curr_block (set_blk_next (free_list s) b) s of Inl e \<Rightarrow> Some (Inl e)
        | Inr s' \<Rightarrow>
           (case load_block curr_block (s'\<lparr>free_list := curr_block\<rparr>) of Inl e \<Rightarrow> Some (Inl e)
            | Inr b' \<Rightarrow> delete_loop (block_ref s' (blk_index b')) (s'\<lparr>free_list := curr_block\<rparr>))))"

definition fs_delete :: "int \<Rightarrow> fs_state \<Rightarrow> fs_state res" where
  "fs_delete fd s =
    bindE (find_fd fd (fds s)) (\<lambda>r. case r of
      None \<Rightarrow> fs_print (c_lit (''WARNING: The file you are trying to delete does not exist'' @ [CHR 0x0A])) [] s
    | Some k \<Rightarrow>
      bindE (get_entry k s) (\<lambda>entry.
      bindE (run_loop (delete_loop (block_ref s (start_index entry)) s)) (\<lambda>s.
      bindE (strcpy (fe_name entry) (c_lit '''')) (\<lambda>n.
      let s = set_entry k \<lparr>fe_name = n, start_index = 0, file_size = 0\<rparr> s in
      map_res (\<lambda>d. s\<lparr>fds := d\<rparr>) (remove_fd fd (fds s))))))"

definition fs_rename :: "u8 list \<Rightarrow> u8 list \<Rightarrow> fs_state \<Rightarrow> (bool \<times> fs_state) res" where
  "fs_rename oldpath newpath s =
    bindE (find_name [0..<next_entry s] oldpath s) (\<lambda>found.
    case found of None \<Rightarrow> Inr (False, s)
    | Some i \<Rightarrow>
      bindE (get_entry i s) (\<lambda>e.
      bindE (strcpy (fe_name e) newpath) (\<lambda>n.
      Inr (True, set_entry i (e\<lparr>fe_name := n\<rparr>) s))))"

section \<open>The invariant\<close>

text \<open>
  \<open>L\<close> is the set of entries in use, \<open>ch i\<close> the blocks of entry \<open>i\<close>, \<open>fl\<close> the free blocks,
  \<open>t\<close> the open descriptors. Entries below \<open>next_entry\<close> outside \<open>L\<close> are deleted: their name is
  empty and no descriptor refers to them.
\<close>

definition n_blocks :: "nat \<Rightarrow> nat" where
  "n_blocks n = max 1 ((n + 123) div 124)"

definition entry_ok :: "(nat \<Rightarrow> data_block) \<Rightarrow> file_entry \<Rightarrow> nat list \<Rightarrow> bool" where
  "entry_ok m e cs \<longleftrightarrow> chain m (start_index e) cs \<and> distinct cs
     \<and> length cs = n_blocks (unat (file_size e))"

definition names_ok :: "fs_state \<Rightarrow> bool" where
  "names_ok s \<longleftrightarrow> length (entries s) = MAX_FILE_SIZE \<and> next_entry s \<le> MAX_FILE_SIZE
     \<and> (\<forall>e \<in> set (entries s). length (fe_name e) = MAX_FILENAME)
     \<and> (\<forall>i < next_entry s. terminated (fe_name (entries s ! i)))"

definition blocks_ok :: "nat set \<Rightarrow> (nat \<Rightarrow> nat list) \<Rightarrow> nat list \<Rightarrow> fs_state \<Rightarrow> bool" where
  "blocks_ok L ch fl s \<longleftrightarrow> mounted s \<and> data_ok (blk_mem s)
     \<and> free_chain (blk_mem s) (free_list s) fl \<and> distinct fl
     \<and> (\<forall>i \<in> L. entry_ok (blk_mem s) (entries s ! i) (ch i) \<and> set (ch i) \<inter> set fl = {})
     \<and> (\<forall>i \<in> L. \<forall>j \<in> L. i \<noteq> j \<longrightarrow> set (ch i) \<inter> set (ch j) = {})"

definition handles_ok :: "nat set \<Rightarrow> (int \<rightharpoonup> nat) \<Rightarrow> fs_state \<Rightarrow> bool" where
  "handles_ok L t s \<longleftrightarrow> fd_holds (fds s) t \<and> ran t \<subseteq> L \<and> L \<subseteq> {..<next_entry s}
     \<and> (\<forall>i < next_entry s. i \<notin> L \<longrightarrow> cstr (fe_name (entries s ! i)) = [])
     \<and> term_ok (con (vm (fds s)))"

definition fs_ok :: "nat set \<Rightarrow> (nat \<Rightarrow> nat list) \<Rightarrow> nat list \<Rightarrow> (int \<rightharpoonup> nat) \<Rightarrow> fs_state \<Rightarrow> bool" where
  "fs_ok L ch fl t s \<longleftrightarrow> names_ok s \<and> blocks_ok L ch fl s \<and> handles_ok L t s"

text \<open>The bytes of a file.\<close>

definition content :: "(nat \<Rightarrow> nat list) \<Rightarrow> fs_state \<Rightarrow> nat \<Rightarrow> u8 list" where
  "content ch s i = take (unat (file_size (entries s ! i))) (file_data (blk_mem s) (ch i))"

section \<open>Sizes\<close>

lemma size_plus: "unat w < 2 ^ 31 \<Longrightarrow> unat ((w + BLOCK_DATA_SIZE - 1) div BLOCK_DATA_SIZE) = (unat w + 123) div 124"
proof -
  assume "unat w < 2 ^ 31"
  then have "unat (w + 123) = unat w + 123" by (subst unat_add_small) simp_all
  moreover have "w + BLOCK_DATA_SIZE - 1 = w + 123" by simp
  ultimately show ?thesis by (simp only: unat_div_distrib) simp
qed

lemma int_of_size_eq: "unat w = n \<Longrightarrow> n < 2 ^ 31 \<Longrightarrow> int_of_size w = int n"
  using int_of_size_small by blast

lemma needed_blocks:
  assumes "unat index + unat sz < 2 ^ 31"
  shows "int_of_size ((index + sz + BLOCK_DATA_SIZE - 1) div BLOCK_DATA_SIZE) = int ((unat index + unat sz + 123) div 124)"
proof (rule int_of_size_eq)
  have u: "unat (index + sz) = unat index + unat sz" using assms by (subst unat_add_small) simp_all
  then show "unat ((index + sz + BLOCK_DATA_SIZE - 1) div BLOCK_DATA_SIZE) = (unat index + unat sz + 123) div 124"
    using size_plus [of "index + sz"] assms by (simp only: u)
qed (use assms in simp)

lemma unat_fs_max: "unat (fs_max a b) = max (unat a) (unat b)"
  by (auto simp: fs_max_def word_less_nat_alt)

lemma unat_fs_min: "unat (fs_min a b) = min (unat a) (unat b)"
  by (auto simp: fs_min_def word_less_nat_alt)

lemma have_blocks:
  assumes "unat w < 2 ^ 31"
  shows "int_of_size (fs_max 1 ((w + BLOCK_DATA_SIZE - 1) div BLOCK_DATA_SIZE)) = int (n_blocks (unat w))"
proof (rule int_of_size_eq)
  show "unat (fs_max 1 ((w + BLOCK_DATA_SIZE - 1) div BLOCK_DATA_SIZE)) = n_blocks (unat w)"
    unfolding unat_fs_max n_blocks_def using size_plus [OF assms] by (simp only: unat_1)
  show "n_blocks (unat w) < 2 ^ 31" using assms by (simp add: n_blocks_def)
qed

lemma n_blocks_enough: "n \<le> 124 * n_blocks n"
proof -
  have "n + 123 = 124 * ((n + 123) div 124) + (n + 123) mod 124" by simp
  moreover have "(n + 123) mod 124 < 124" by simp
  ultimately have "n \<le> 124 * ((n + 123) div 124)" by linarith
  then show ?thesis by (simp add: n_blocks_def max_def)
qed

lemma n_blocks_max: "n_blocks (max a b) = max (n_blocks a) ((b + 123) div 124)"
proof (cases "a \<le> b")
  case True
  then have "(a + 123) div 124 \<le> (b + 123) div 124" by (intro div_le_mono) simp
  then show ?thesis using True by (simp add: n_blocks_def max_def)
next
  case False
  then have "(b + 123) div 124 \<le> (a + 123) div 124" by (intro div_le_mono) simp
  then show ?thesis using False by (simp add: n_blocks_def max_def)
qed

section \<open>Lists of slots\<close>

lemma length_slots: "distinct cs \<Longrightarrow> (\<And>c. c \<in> set cs \<Longrightarrow> c < N_SLOTS) \<Longrightarrow> length cs \<le> N_SLOTS"
proof -
  assume d: "distinct cs" and b: "\<And>c. c \<in> set cs \<Longrightarrow> c < N_SLOTS"
  have "card (set cs) \<le> card {..<N_SLOTS}" using b by (intro card_mono) auto
  with d show ?thesis by (simp add: distinct_card)
qed

lemma chain_drop: "chain m i cs \<Longrightarrow> q < length cs \<Longrightarrow> chain m (of_nat (cs ! q)) (drop q cs)"
proof (induction q arbitrary: i cs)
  case 0
  then show ?case by (cases cs) auto
next
  case (Suc q)
  then obtain c cs' where "cs = c # cs'" by (cases cs) auto
  with Suc show ?case by auto
qed

text \<open>All the space an entry can reach is in the region, so its sizes are small.\<close>

lemma space_bound:
  assumes "blocks_ok L ch fl s" and "k \<in> L"
  shows "length (ch k) + length fl \<le> N_SLOTS"
proof -
  have "distinct (ch k @ fl)" using assms by (auto simp: blocks_ok_def entry_ok_def)
  moreover have "c < N_SLOTS" if "c \<in> set (ch k @ fl)" for c
    using that assms chain_slots free_chain_slots unfolding blocks_ok_def entry_ok_def by fastforce
  ultimately have "length (ch k @ fl) \<le> N_SLOTS" by (rule length_slots)
  then show ?thesis by simp
qed

section \<open>Growing a file\<close>

lemma grow_stage:
  assumes ok: "blocks_ok L ch fl s" and k: "k \<in> L" and n: "n \<le> length fl"
  shows "\<exists>p m. (if 0 < n then fs_grow (entries s ! k) (int n) s else Inr (True, s))
       = Inr (True, s\<lparr>free_list := p, blk_mem := m\<rparr>)
     \<and> chain m (start_index (entries s ! k)) (ch k @ take n fl) \<and> free_chain m p (drop n fl)
     \<and> (\<forall>c. blk_data (m c) = blk_data (blk_mem s c))
     \<and> (\<forall>c. c \<notin> set (ch k) \<longrightarrow> c \<notin> set (take n fl) \<longrightarrow> m c = blk_mem s c)"
proof (cases n)
  case 0
  then show ?thesis using ok k unfolding blocks_ok_def entry_ok_def
    by (intro exI [of _ "free_list s"] exI [of _ "blk_mem s"]) simp
next
  case (Suc j)
  let ?e = "entries s ! k" and ?c = "last (ch k)"
  have b: "mounted s" "chain (blk_mem s) (start_index ?e) (ch k)" "distinct (ch k)" "ch k \<noteq> []"
      "free_chain (blk_mem s) (free_list s) fl" "distinct fl" "set (ch k) \<inter> set fl = {}"
    using ok k by (auto simp: blocks_ok_def entry_ok_def n_blocks_def)
  have last: "?c \<in> set (ch k)" using b(4) by simp
  then have c: "?c < N_SLOTS" "?c \<notin> set fl" using chain_slots [OF b(2)] b(7) by auto
  obtain p m where r: "alloc_blocks n (slot_addr ?c) s = Inr (True, s\<lparr>free_list := p, blk_mem := m\<rparr>)"
    "chain m (blk_index (m ?c)) (take n fl)" "free_chain m p (drop n fl)"
    "\<forall>i. blk_data (m i) = blk_data (blk_mem s i)"
    "\<forall>i. i \<noteq> ?c \<longrightarrow> i \<notin> set (take n fl) \<longrightarrow> m i = blk_mem s i"
    using alloc_blocks_takes [OF b(1,5,6) c, of j] n Suc by auto
  have "n \<le> N_SLOTS" using space_bound [OF ok k] n by simp
  then have "fs_grow ?e (int n) s = Inr (True, s\<lparr>free_list := p, blk_mem := m\<rparr>)"
    using last_block_chain [OF b(1,2,4)] r(1) by (simp add: fs_grow_def)
  moreover have "chain m (start_index ?e) (ch k @ take n fl)"
  proof (rule chain_extend [OF b(2,4) _ r(2)])
    fix i assume i: "i \<in> set (butlast (ch k))"
    then have "i \<in> set (ch k)" by (rule in_set_butlastD)
    moreover have "i \<noteq> ?c"
    proof -
      have "ch k = butlast (ch k) @ [?c]" using b(4) by simp
      then have "?c \<notin> set (butlast (ch k))"
        using b(3) by (metis distinct_append disjoint_iff list.set_intros(1))
      then show ?thesis using i by blast
    qed
    moreover have "i \<notin> set (take n fl)" using \<open>i \<in> set (ch k)\<close> b(7) by (auto dest: in_set_takeD)
    ultimately show "m i = blk_mem s i" using r(5) by blast
  qed
  moreover have "\<forall>c. c \<notin> set (ch k) \<longrightarrow> c \<notin> set (take n fl) \<longrightarrow> m c = blk_mem s c"
  proof (intro allI impI)
    fix i assume "i \<notin> set (ch k)" "i \<notin> set (take n fl)"
    then show "m i = blk_mem s i" using r(5) [rule_format, of i] last by auto
  qed
  ultimately show ?thesis using r(3,4) Suc by (intro exI [of _ p] exI [of _ m]) simp
qed

section \<open>Writing into a chain\<close>

lemma write_stage:
  assumes s: "mounted s" "chain (blk_mem s) i cs" "distinct cs" "data_ok (blk_mem s)"
    and off: "off + n \<le> 124 * length cs" and n: "n \<le> length buff"
  shows "\<exists>p. skip_blocks 0 (off div 124) (block_ref s i) s = Inr p
    \<and> (\<forall>u. mounted u \<longrightarrow> blk_mem u = blk_mem s \<longrightarrow>
        (\<exists>m. write_bytes n buff p (off mod 124) u = Inr (u\<lparr>blk_mem := m\<rparr>)
          \<and> file_data m cs = splice_at (file_data (blk_mem s) cs) off (take n buff)
          \<and> same_links (blk_mem s) m \<and> (\<forall>j. j \<notin> set cs \<longrightarrow> m j = blk_mem s j)))"
proof -
  let ?q = "off div 124"
  have len: "length cs \<le> N_SLOTS" using length_slots s(2,3) chain_slots by blast
  have q: "?q \<le> length cs" using off by simp
  note skip = skip_blocks_chain [OF s(1,2) q, of 0]
  show ?thesis
  proof (cases n)
    case 0
    have "off \<le> length (file_data (blk_mem s) cs)" using off 0 file_data_length [OF s(4)] by simp
    then show ?thesis using skip q len 0
      by (simp add: write_bytes.simps same_links_def) (metis fs_state.surjective fs_state.update_convs(7))
  next
    case (Suc n')
    then have ql: "?q < length cs" using off by (simp add: less_mult_imp_div_less)
    let ?c = "cs ! ?q" and ?rest = "drop (Suc ?q) cs" and ?pre = "take ?q cs"
    have split: "cs = ?pre @ ?c # ?rest" using ql by (simp add: id_take_nth_drop)
    have c: "?c < N_SLOTS" using chain_slots [OF s(2)] ql by simp
    have ch: "chain (blk_mem s) (of_nat ?c) (?c # ?rest)"
      using chain_drop [OF s(2) ql] ql by (simp add: Cons_nth_drop_Suc)
    have dist: "distinct (?c # ?rest)" "set ?pre \<inter> set (?c # ?rest) = {}"
      using s(3) split by (metis distinct_append)+
    have room: "off mod 124 + n \<le> 124 * length (?c # ?rest)" using off ql
    proof -
      have "124 * ?q + off mod 124 + n \<le> 124 * length cs" using off by simp
      then have "off mod 124 + n \<le> 124 * (length cs - ?q)" by (simp only: diff_mult_distrib2)
      moreover have "length (?c # ?rest) = length cs - ?q" using ql by simp
      ultimately show ?thesis by simp
    qed
    have "skip_blocks 0 ?q (block_ref s i) s = Inr (slot_addr ?c)"
      using skip len q ql c s(1) by (simp add: nth_append block_ref_slot)
    moreover have "\<exists>m. write_bytes n buff (slot_addr ?c) (off mod 124) u = Inr (u\<lparr>blk_mem := m\<rparr>)
          \<and> file_data m cs = splice_at (file_data (blk_mem s) cs) off (take n buff)
          \<and> same_links (blk_mem s) m \<and> (\<forall>j. j \<notin> set cs \<longrightarrow> m j = blk_mem s j)"
      if u: "mounted u" "blk_mem u = blk_mem s" for u
    proof -
      have le: "off mod 124 \<le> 124" by simp
      from write_bytes_chain [OF u(1), unfolded u(2), OF ch dist(1) s(4) le n room]
      obtain m where m: "write_bytes n buff (slot_addr ?c) (off mod 124) u = Inr (u\<lparr>blk_mem := m\<rparr>)"
        "file_data m (?c # ?rest) = splice_at (file_data (blk_mem s) (?c # ?rest)) (off mod 124) (take n buff)"
        "same_links (blk_mem s) m" "\<forall>j. j \<notin> set (?c # ?rest) \<longrightarrow> m j = blk_mem s j" by blast
      have pre: "file_data m ?pre = file_data (blk_mem s) ?pre"
      proof (rule file_data_cong)
        fix c assume "c \<in> set ?pre"
        then have "c \<notin> set (?c # ?rest)" using dist(2) by blast
        then show "blk_data (m c) = blk_data (blk_mem s c)" using m(4) by simp
      qed
      have "length (file_data (blk_mem s) ?pre) + off mod 124 = off"
        using file_data_length [OF s(4), of ?pre] ql by simp
      then have "file_data m (?pre @ ?c # ?rest)
          = splice_at (file_data (blk_mem s) (?pre @ ?c # ?rest)) off (take n buff)"
        using splice_append [of "file_data (blk_mem s) ?pre" "file_data (blk_mem s) (?c # ?rest)" "off mod 124"]
          m(2) pre by (simp only: file_data_simps(3))
      moreover have "j \<notin> set cs \<longrightarrow> m j = blk_mem s j" for j
        using m(4) split by (metis Un_iff set_append)
      ultimately show ?thesis using m(1,3) split by (intro exI [of _ m]) simp
    qed
    ultimately show ?thesis by blast
  qed
qed

end
