(* ===== verification/FsOps.thy ===== *)
theory FsOps
  imports Fs
begin

text \<open>
  What each operation of the file system does to the files: the bytes of the file it is
  applied to, that it leaves every other file alone, and that it keeps the invariant.
\<close>

section \<open>Reading the invariant\<close>

lemma fs_okD:
  assumes "fs_ok L ch fl t s"
  shows "names_ok s" and "blocks_ok L ch fl s" and "handles_ok L t s"
  using assms by (simp_all add: fs_ok_def)

lemma live_entry:
  assumes "fs_ok L ch fl t s" and "k \<in> L"
  shows "k < length (entries s)" and "get_entry k s = Inr (entries s ! k)"
    and "entry_ok (blk_mem s) (entries s ! k) (ch k)" and "k < next_entry s"
  using assms by (auto simp: fs_ok_def names_ok_def handles_ok_def blocks_ok_def get_entry_def)

lemma open_entry: "fs_ok L ch fl t s \<Longrightarrow> t fd = Some k \<Longrightarrow> k \<in> L"
  by (auto simp: fs_ok_def handles_ok_def ran_def)

lemma find_open: "fs_ok L ch fl t s \<Longrightarrow> find_fd fd (fds s) = Inr (t fd)"
  using fdt.find_law by (auto simp: fs_ok_def handles_ok_def)

lemma data_length: "fs_ok L ch fl t s \<Longrightarrow> length (file_data (blk_mem s) cs) = 124 * length cs"
  using file_data_length by (auto simp: fs_ok_def blocks_ok_def)

lemma size_fits:
  assumes "fs_ok L ch fl t s" and "k \<in> L"
  shows "unat (file_size (entries s ! k)) \<le> length (file_data (blk_mem s) (ch k))"
  using live_entry(3) [OF assms] data_length [OF assms(1)] n_blocks_enough
  by (simp add: entry_ok_def)

lemma content_length:
  "fs_ok L ch fl t s \<Longrightarrow> k \<in> L \<Longrightarrow> length (content ch s k) = unat (file_size (entries s ! k))"
  using size_fits by (simp add: content_def)

lemma size_small:
  assumes "fs_ok L ch fl t s" and "k \<in> L"
  shows "unat (file_size (entries s ! k)) \<le> 511872"
    and "n_blocks (unat (file_size (entries s ! k))) + length fl \<le> N_SLOTS"
proof -
  show *: "n_blocks (unat (file_size (entries s ! k))) + length fl \<le> N_SLOTS"
    using space_bound [OF fs_okD(2) [OF assms(1)] assms(2)] live_entry(3) [OF assms]
    by (simp add: entry_ok_def)
  show "unat (file_size (entries s ! k)) \<le> 511872"
    using * n_blocks_enough [of "unat (file_size (entries s ! k))"] by simp
qed

lemma take_splice:
  "i \<le> f \<Longrightarrow> f \<le> length xs \<Longrightarrow> i + length ys \<le> length (xs @ zs) \<Longrightarrow>
   take (max (i + length ys) f) (splice_at (xs @ zs) i ys) = splice_at (take f xs) i ys"
proof (cases "f \<le> i + length ys")
  case True
  assume "i \<le> f" "f \<le> length xs" "i + length ys \<le> length (xs @ zs)"
  then have "take i (xs @ zs) = take i xs" "length (take i xs @ ys) = i + length ys" by simp_all
  then have "take (i + length ys) (splice_at (xs @ zs) i ys) = take i xs @ ys"
    by (simp add: splice_at_def)
  then show ?thesis using True \<open>i \<le> f\<close> by (simp add: splice_at_def max_def min_def)
next
  case False
  assume "f \<le> length xs"
  then show ?thesis using False by (simp add: splice_at_def max_def min_def drop_take)
qed

section \<open>Writing\<close>

text \<open>The state after a write: the new end of the free list, entry and blocks.\<close>

definition written :: "nat \<Rightarrow> u64 \<Rightarrow> u64 \<Rightarrow> (nat \<Rightarrow> data_block) \<Rightarrow> fs_state \<Rightarrow> fs_state" where
  "written k n p m s = s\<lparr>free_list := p, blk_mem := m,
     entries := (entries s)[k := (entries s ! k)\<lparr>file_size := fs_max n (file_size (entries s ! k))\<rparr>]\<rparr>"

lemma written_names:
  "k < length (entries s) \<Longrightarrow> fe_name (entries (written k n p m s) ! i) = fe_name (entries s ! i)"
  by (cases "i = k") (simp_all add: written_def)

lemma written_others: "i \<noteq> k \<Longrightarrow> entries (written k n p m s) ! i = entries s ! i"
  by (simp add: written_def)

lemma written_ok:
  assumes ok: "fs_ok L ch fl t s" and k: "k \<in> L" and j: "j \<le> length fl"
    and ch': "ch' = ch(k := ch k @ take j fl)"
    and chain: "chain m (start_index (entries s ! k)) (ch' k)"
    and free: "free_chain m p (drop j fl)" and data: "data_ok m"
    and other: "\<And>c. c \<notin> set (ch' k) \<Longrightarrow> m c = blk_mem s c"
    and size: "n_blocks (max (unat n) (unat (file_size (entries s ! k)))) = length (ch' k)"
  shows "fs_ok L ch' (drop j fl) t (written k n p m s)"
    and "\<And>i. i \<in> L \<Longrightarrow> i \<noteq> k \<Longrightarrow> content ch' (written k n p m s) i = content ch s i"
proof -
  let ?u = "written k n p m s"
  note b = fs_okD(2) [OF ok]
  have len: "k < length (entries s)" using live_entry(1) [OF ok k] .
  have fl: "distinct fl" "set (ch k) \<inter> set fl = {}" "set (take j fl) \<inter> set (drop j fl) = {}"
    using b k by (auto simp: blocks_ok_def set_take_disj_set_drop_if_distinct)
  have sub: "set (take j fl) \<subseteq> set fl" "set (drop j fl) \<subseteq> set fl"
    by (auto dest: in_set_takeD in_set_dropD)
  have dist: "distinct (ch' k)" "set (ch' k) \<inter> set (drop j fl) = {}"
  proof -
    have "distinct (ch k)" using b k by (simp add: blocks_ok_def entry_ok_def)
    moreover have "set (ch k) \<inter> set (take j fl) = {}" "set (ch k) \<inter> set (drop j fl) = {}"
      using fl(2) sub by blast+
    ultimately show "distinct (ch' k)" "set (ch' k) \<inter> set (drop j fl) = {}"
      using fl(1,3) by (simp_all add: ch' Int_Un_distrib2)
  qed
  have apart: "set (ch i) \<inter> set (ch' k) = {}" if "i \<in> L" "i \<noteq> k" for i
  proof -
    have "set (ch i) \<inter> set (ch k) = {}" using b k that unfolding blocks_ok_def by blast
    moreover have "set (ch i) \<inter> set fl = {}" using b that(1) unfolding blocks_ok_def by blast
    ultimately show ?thesis using sub(1) by (auto simp: ch')
  qed
  have m_other: "m c = blk_mem s c" if "i \<in> L" "i \<noteq> k" "c \<in> set (ch i)" for i c
    using apart [OF that(1,2)] that(3) other by blast
  have e_k: "entry_ok m (entries ?u ! k) (ch' k)"
    using chain dist size len by (simp add: entry_ok_def written_def unat_fs_max)
  have e_i: "entry_ok m (entries ?u ! i) (ch i)" if "i \<in> L" "i \<noteq> k" for i
    using b that chain_frame [of "ch i" m "blk_mem s"] m_other [OF that]
    by (simp add: blocks_ok_def entry_ok_def written_others)
  have "blocks_ok L ch' (drop j fl) ?u"
    unfolding blocks_ok_def
  proof (intro conjI)
    show "mounted ?u" "data_ok (blk_mem ?u)" "free_chain (blk_mem ?u) (free_list ?u) (drop j fl)"
      "distinct (drop j fl)"
      using b data free by (simp_all add: blocks_ok_def written_def mounted_def)
    show "\<forall>i\<in>L. entry_ok (blk_mem ?u) (entries ?u ! i) (ch' i) \<and> set (ch' i) \<inter> set (drop j fl) = {}"
    proof
      fix i assume i: "i \<in> L"
      have "blk_mem ?u = m" by (simp add: written_def)
      moreover have "entry_ok m (entries ?u ! i) (ch' i)"
        using e_k e_i [OF i] by (cases "i = k") (simp_all add: ch')
      moreover have "set (ch' i) \<inter> set (drop j fl) = {}"
      proof (cases "i = k")
        case False
        then have "ch' i = ch i" by (simp add: ch')
        then show ?thesis using b i sub(2) unfolding blocks_ok_def by auto
      qed (use dist in simp)
      ultimately show "entry_ok (blk_mem ?u) (entries ?u ! i) (ch' i) \<and> set (ch' i) \<inter> set (drop j fl) = {}"
        by simp
    qed
    show "\<forall>i\<in>L. \<forall>l\<in>L. i \<noteq> l \<longrightarrow> set (ch' i) \<inter> set (ch' l) = {}"
    proof (intro ballI impI)
      fix i l assume il: "i \<in> L" "l \<in> L" "i \<noteq> l"
      have base: "set (ch i) \<inter> set (ch l) = {}" using b il unfolding blocks_ok_def by blast
      have other': "ch' x = ch x" if "x \<noteq> k" for x using that by (simp add: ch')
      show "set (ch' i) \<inter> set (ch' l) = {}"
        using base apart [OF il(1)] apart [OF il(2)] other' il(3)
        by (cases "i = k"; cases "l = k") auto
    qed
  qed
  moreover have "names_ok ?u"
  proof -
    have "fe_name e \<in> fe_name ` set (entries s)" if e: "e \<in> set (entries ?u)" for e
    proof -
      obtain i where "i < length (entries s)" "e = entries ?u ! i"
        using e by (auto simp: in_set_conv_nth written_def)
      then show ?thesis using written_names [OF len] by (metis imageI nth_mem)
    qed
    then show ?thesis using fs_okD(1) [OF ok] written_names [OF len]
      by (fastforce simp: names_ok_def written_def)
  qed
  moreover have "handles_ok L t ?u"
    using fs_okD(3) [OF ok] written_names [OF len]
    by (simp add: handles_ok_def written_def)
  ultimately show "fs_ok L ch' (drop j fl) t ?u" by (simp add: fs_ok_def)
  fix i assume i: "i \<in> L" "i \<noteq> k"
  have "file_data m (ch i) = file_data (blk_mem s) (ch i)"
    by (rule file_data_cong) (use m_other [OF i] in simp)
  then show "content ch' ?u i = content ch s i"
    using i(2) by (simp add: content_def ch' written_others) (simp add: written_def)
qed

text \<open>
  A write that fits: at most one byte past the end of the file to start with, the bytes there,
  and blocks enough for the new size.
\<close>

lemma fs_write_at_writes:
  assumes ok: "fs_ok L ch fl t s" and fd: "t fd = Some k"
    and index: "unat index \<le> unat (file_size (entries s ! k))" and buff: "unat sz \<le> length buff"
    and room: "(unat index + unat sz + 123) div 124 \<le> n_blocks (unat (file_size (entries s ! k))) + length fl"
  defines "n \<equiv> unat index + unat sz" and "b \<equiv> n_blocks (unat (file_size (entries s ! k)))"
  shows "\<exists>p m. let j = (n + 123) div 124 - b; ch' = ch(k := ch k @ take j fl); s' = written k (index + sz) p m s in
       fs_write_at fd index buff sz s = Inr (True, s') \<and> fs_ok L ch' (drop j fl) t s'
     \<and> content ch' s' k = splice_at (content ch s k) (unat index) (take (unat sz) buff)
     \<and> (\<forall>i\<in>L. i \<noteq> k \<longrightarrow> content ch' s' i = content ch s i)"
proof -
  let ?e = "entries s ! k" and ?j = "(n + 123) div 124 - b"
  let ?ch = "ch(k := ch k @ take ?j fl)" and ?i = "start_index (entries s ! k)"
  have k: "k \<in> L" using open_entry [OF ok fd] .
  note bok = fs_okD(2) [OF ok] and e = live_entry [OF ok k] and small = size_small [OF ok k]
  have j: "?j \<le> length fl" using room by (simp add: n_def b_def)
  have n: "n \<le> 124 * N_SLOTS"
    using n_blocks_enough [of n] room small(2) by (simp add: n_def n_blocks_def max_def split: if_splits)
  have cs: "length (ch k) = b" using e(3) by (simp add: entry_ok_def b_def)
  have len': "length (?ch k) = n_blocks (max (unat (file_size ?e)) n)"
    using cs j by (simp add: n_blocks_max b_def)
  have fits: "unat index + unat sz \<le> 124 * length (?ch k)" "unat index + unat sz < 2 ^ 31"
    using n_blocks_enough [of "max (unat (file_size ?e)) n"] n unfolding len' by (simp_all add: n_def)
  have u: "unat (index + sz) = n" using n unfolding n_def by (subst unat_add_small) simp_all
  obtain p m where g: "(if 0 < ?j then fs_grow ?e (int ?j) s else Inr (True, s))
       = Inr (True, s\<lparr>free_list := p, blk_mem := m\<rparr>)"
    "chain m ?i (ch k @ take ?j fl)" "free_chain m p (drop ?j fl)"
    "\<forall>c. blk_data (m c) = blk_data (blk_mem s c)"
    "\<forall>c. c \<notin> set (ch k) \<longrightarrow> c \<notin> set (take ?j fl) \<longrightarrow> m c = blk_mem s c"
    using grow_stage [OF bok k j] by blast
  let ?s1 = "s\<lparr>free_list := p, blk_mem := m\<rparr>"
  have s1: "mounted ?s1" "chain (blk_mem ?s1) ?i (?ch k)" "data_ok (blk_mem ?s1)"
    using bok g(2,4) by (simp_all add: blocks_ok_def mounted_def data_ok_def)
  have "distinct (ch k)" "set (ch k) \<inter> set fl = {}" "distinct fl"
    using bok k by (simp_all add: blocks_ok_def entry_ok_def)
  then have dist: "distinct (?ch k)" by (auto dest: in_set_takeD)
  obtain q where q: "skip_blocks 0 (unat index div 124) (block_ref ?s1 ?i) ?s1 = Inr q"
    and w: "\<And>u. mounted u \<Longrightarrow> blk_mem u = m \<Longrightarrow>
        \<exists>m'. write_bytes (unat sz) buff q (unat index mod 124) u = Inr (u\<lparr>blk_mem := m'\<rparr>)
          \<and> file_data m' (?ch k) = splice_at (file_data m (?ch k)) (unat index) (take (unat sz) buff)
          \<and> same_links m m' \<and> (\<forall>c. c \<notin> set (?ch k) \<longrightarrow> m' c = m c)"
    using write_stage [OF s1(1,2) dist s1(3) fits(1) buff] by auto
  let ?s2 = "set_entry k (?e\<lparr>file_size := fs_max (index + sz) (file_size ?e)\<rparr>) ?s1"
  have "mounted ?s2" "blk_mem ?s2 = m" using s1(1) by (simp_all add: mounted_def set_entry_def)
  from w [OF this] obtain m' where m':
    "write_bytes (unat sz) buff q (unat index mod 124) ?s2 = Inr (?s2\<lparr>blk_mem := m'\<rparr>)"
    "file_data m' (?ch k) = splice_at (file_data m (?ch k)) (unat index) (take (unat sz) buff)"
    "same_links m m'" "\<forall>c. c \<notin> set (?ch k) \<longrightarrow> m' c = m c" by blast
  let ?s' = "written k (index + sz) p m' s"
  have s': "?s2\<lparr>blk_mem := m'\<rparr> = ?s'" by (simp add: written_def set_entry_def)
  have num: "int_of_size (fs_max 1 ((file_size ?e + BLOCK_DATA_SIZE - 1) div BLOCK_DATA_SIZE)) = int b"
    using have_blocks small(1) unfolding b_def by simp
  have need: "int_of_size ((index + sz + BLOCK_DATA_SIZE - 1) div BLOCK_DATA_SIZE) = int ((n + 123) div 124)"
    using needed_blocks [OF fits(2)] unfolding n_def .
  have gr: "(if int b < int ((n + 123) div 124) then fs_grow ?e (int ((n + 123) div 124) - int b) s else Inr (True, s))
      = Inr (True, ?s1)"
    using g(1) by (cases "b < (n + 123) div 124") (simp_all add: of_nat_diff)
  have le: "\<not> file_size ?e < index" using index by (simp add: word_less_nat_alt)
  have res: "fs_write_at fd index buff sz s = Inr (True, ?s')"
    unfolding fs_write_at_def find_open [OF ok] fd bindE_simps option.case e(2) Let_def num need
    using le gr q m'(1) s' by (simp add: unat_div_distrib unat_mod_distrib)
  have chain': "chain m' ?i (?ch k)"
    using g(2) m'(3) chain_index_frame [of "?ch k" m' m] by (simp add: same_links_def)
  have "m' c = m c" if "c \<in> set (drop ?j fl)" for c
  proof -
    have "set (take ?j fl) \<inter> set (drop ?j fl) = {}" "set (ch k) \<inter> set fl = {}"
      using bok k by (simp_all add: blocks_ok_def set_take_disj_set_drop_if_distinct)
    then have "c \<notin> set (?ch k)" using that by (auto dest: in_set_dropD)
    then show ?thesis using m'(4) by blast
  qed
  then have free': "free_chain m' p (drop ?j fl)" using g(3) free_chain_frame [of "drop ?j fl" m' m] by blast
  have data': "data_ok m'" using s1(3) m'(3) by (simp add: same_links_def)
  have other': "m' c = blk_mem s c" if "c \<notin> set (?ch k)" for c using that m'(4) g(5) by simp
  have size': "n_blocks (max (unat (index + sz)) (unat (file_size ?e))) = length (?ch k)"
    using len' by (simp only: u max.commute)
  note post = written_ok [OF ok k j refl chain' free' data' other' size']
  have "content ?ch ?s' k = splice_at (content ch s k) (unat index) (take (unat sz) buff)"
  proof -
    have lt: "length (take (unat sz) buff) = unat sz" using buff by simp
    then have nl: "unat index + length (take (unat sz) buff) = n" by (simp only: n_def)
    have d0: "file_data m (?ch k) = file_data (blk_mem s) (ch k) @ file_data m (take ?j fl)"
      using g(4) file_data_cong [of "ch k" m "blk_mem s"] by simp
    have "content ?ch ?s' k = take (max n (unat (file_size ?e))) (file_data m' (?ch k))"
      using e(1) u by (simp add: content_def written_def unat_fs_max)
    also have "\<dots> = take (max (unat index + length (take (unat sz) buff)) (unat (file_size ?e)))
        (splice_at (file_data (blk_mem s) (ch k) @ file_data m (take ?j fl)) (unat index) (take (unat sz) buff))"
      by (simp only: m'(2) d0 nl)
    also have "\<dots> = splice_at (take (unat (file_size ?e)) (file_data (blk_mem s) (ch k))) (unat index) (take (unat sz) buff)"
    proof (rule take_splice [OF index size_fits [OF ok k]])
      have "length (file_data m (?ch k)) = 124 * length (?ch k)" using file_data_length s1(3) by simp
      then show "unat index + length (take (unat sz) buff)
          \<le> length (file_data (blk_mem s) (ch k) @ file_data m (take ?j fl))"
        using fits(1) lt by (simp only: d0)
    qed
    finally show ?thesis by (simp only: content_def)
  qed
  then show ?thesis using res post by (intro exI [of _ p] exI [of _ m']) (simp only: Let_def, blast)
qed

lemma fs_write_at_gap:
  assumes "fs_ok L ch fl t s" and "t fd = Some k" and "unat (file_size (entries s ! k)) < unat index"
  shows "fs_write_at fd index buff sz s = Inr (False, s)"
  using assms find_open [OF assms(1)] live_entry(2) [OF assms(1) open_entry [OF assms(1,2)]]
  by (simp add: fs_write_at_def word_less_nat_alt)

lemma fs_write_at_closed:
  assumes "fs_ok L ch fl t s" and "t fd = None"
  shows "fs_write_at fd index buff sz s = Inr (False, s)"
  using assms(2) find_open [OF assms(1)] by (simp add: fs_write_at_def)

lemma fs_append_eq:
  assumes "fs_ok L ch fl t s"
  shows "fs_append fd buff sz s = (case t fd of None \<Rightarrow> Inr (False, s)
    | Some k \<Rightarrow> fs_write_at fd (file_size (entries s ! k)) buff sz s)"
  using find_open [OF assms] live_entry(2) [OF assms open_entry [OF assms]]
  by (simp add: fs_append_def split: option.splits)

text \<open>A write that does not fit consumes every free block and reports failure.\<close>

lemma fs_write_at_full:
  assumes ok: "fs_ok L ch fl t s" and fd: "t fd = Some k"
    and index: "unat index \<le> unat (file_size (entries s ! k))" and small: "unat index + unat sz < 2 ^ 31"
    and room: "n_blocks (unat (file_size (entries s ! k))) + length fl < (unat index + unat sz + 123) div 124"
  shows "\<exists>m. fs_write_at fd index buff sz s = Inr (False, s\<lparr>free_list := 0, blk_mem := m\<rparr>)
    \<and> (\<forall>c. c \<notin> set (ch k) \<longrightarrow> c \<notin> set fl \<longrightarrow> m c = blk_mem s c)
    \<and> (if fl = [] then m = blk_mem s
       else path m (start_index (entries s ! k)) (ch k @ fl) 0 \<and> blk_index (m (last fl)) = 0)"
proof -
  let ?e = "entries s ! k" and ?n = "(unat index + unat sz + 123) div 124"
  have k: "k \<in> L" using open_entry [OF ok fd] .
  note bok = fs_okD(2) [OF ok] and e = live_entry [OF ok k] and sm = size_small [OF ok k]
  let ?b = "n_blocks (unat (file_size ?e))"
  have b: "mounted s" "chain (blk_mem s) (start_index ?e) (ch k)" "ch k \<noteq> []" "free_chain (blk_mem s) (free_list s) fl"
      "distinct fl" "set (ch k) \<inter> set fl = {}"
    using bok k by (auto simp: blocks_ok_def entry_ok_def n_blocks_def)
  have "last (ch k) \<in> set (ch k)" using b(3) by simp
  then have c: "last (ch k) < N_SLOTS" "last (ch k) \<notin> set fl" using b(6) chain_slots [OF b(2)] by blast+
  have more: "length fl < ?n - ?b" using room by simp
  obtain m where m: "alloc_blocks (?n - ?b) (slot_addr (last (ch k))) s = Inr (False, s\<lparr>free_list := 0, blk_mem := m\<rparr>)"
    "\<forall>j. j \<noteq> last (ch k) \<longrightarrow> j \<notin> set fl \<longrightarrow> m j = blk_mem s j"
    "if fl = [] then m = blk_mem s else path m (blk_index (m (last (ch k)))) fl 0 \<and> blk_index (m (last fl)) = 0"
    using alloc_blocks_exhausts [OF b(1,4,5) c more] by blast
  have "?n < 2 ^ 31" using small by simp
  then have g: "fs_grow ?e (int ?n - int ?b) s = Inr (False, s\<lparr>free_list := 0, blk_mem := m\<rparr>)"
    using last_block_chain [OF b(1,2,3)] m(1) room by (simp add: fs_grow_def nat_diff_distrib)
  have num: "int_of_size (fs_max 1 ((file_size ?e + BLOCK_DATA_SIZE - 1) div BLOCK_DATA_SIZE)) = int ?b"
    using have_blocks sm(1) by simp
  have le: "\<not> file_size ?e < index" using index by (simp add: word_less_nat_alt)
  have "fs_write_at fd index buff sz s = Inr (False, s\<lparr>free_list := 0, blk_mem := m\<rparr>)"
    unfolding fs_write_at_def find_open [OF ok] fd bindE_simps option.case e(2) Let_def num
      needed_blocks [OF small]
    using le g room by simp
  moreover have "\<forall>c. c \<notin> set (ch k) \<longrightarrow> c \<notin> set fl \<longrightarrow> m c = blk_mem s c"
  proof (intro allI impI)
    fix c assume "c \<notin> set (ch k)" "c \<notin> set fl"
    then show "m c = blk_mem s c" using m(2) [rule_format, of c] b(3) by (auto dest: last_in_set)
  qed
  moreover have "path m (start_index ?e) (ch k @ fl) 0" if "fl \<noteq> []"
  proof (rule path_extend [OF _ b(3)])
    show "path (blk_mem s) (start_index ?e) (ch k) BLOCK_INDEX_END" using b(2) by (simp add: chain_path)
    show "path m (blk_index (m (last (ch k)))) fl 0" using m(3) that by simp
    fix c assume c: "c \<in> set (butlast (ch k))"
    have "distinct (butlast (ch k) @ [last (ch k)])" using e(3) b(3) by (simp add: entry_ok_def)
    then have "c \<noteq> last (ch k)" using c by auto
    moreover have "c \<notin> set fl" using in_set_butlastD [OF c] b(6) by blast
    ultimately show "m c = blk_mem s c" using m(2) by blast
  qed
  ultimately show ?thesis using m(3) by (intro exI [of _ m]) simp
qed

text \<open>
  After mounting, slot 0 is the last free block. A write that consumes it links it to itself,
  and then growing the file again does not return.
\<close>

lemma fs_write_at_full_hangs:
  assumes ok: "fs_ok L ch fl t s" and fd: "t fd = Some k" and fl: "fl \<noteq> []" "last fl = 0"
    and index: "unat index \<le> unat (file_size (entries s ! k))" and small: "unat index + unat sz < 2 ^ 31"
    and room: "n_blocks (unat (file_size (entries s ! k))) + length fl < (unat index + unat sz + 123) div 124"
  shows "\<exists>s'. fs_write_at fd index buff sz s = Inr (False, s') \<and> fs_write_at fd index buff sz s' = Inl No_Return"
proof -
  let ?e = "entries s ! k" and ?n = "(unat index + unat sz + 123) div 124"
  have k: "k \<in> L" using open_entry [OF ok fd] .
  note e = live_entry [OF ok k] and sm = size_small [OF ok k]
  let ?b = "n_blocks (unat (file_size ?e))"
  obtain m where m: "fs_write_at fd index buff sz s = Inr (False, s\<lparr>free_list := 0, blk_mem := m\<rparr>)"
    "path m (start_index ?e) (ch k @ fl) 0" "blk_index (m 0) = 0"
    using fs_write_at_full [OF ok fd index small room] fl by auto
  let ?s = "s\<lparr>free_list := 0, blk_mem := m\<rparr>"
  have mo: "mounted ?s" using fs_okD(2) [OF ok] by (simp add: blocks_ok_def mounted_def)
  have "last_block (block_ref ?s (start_index ?e)) ?s = last_block (block_ref ?s 0) ?s"
    using last_block_path [OF mo] m(2) by simp
  also have "\<dots> = None" using last_block_self [OF mo] m(3) block_ref_slot [OF mo, of 0] by simp
  finally have "fs_grow ?e (int ?n - int ?b) ?s = Inl No_Return"
    using small by (simp add: fs_grow_def)
  moreover have "find_fd fd (fds ?s) = Inr (Some k)" "get_entry k ?s = Inr ?e"
    using find_open [OF ok] fd e(2) by (simp_all add: get_entry_def split: if_splits)
  moreover have num: "int_of_size (fs_max 1 ((file_size ?e + BLOCK_DATA_SIZE - 1) div BLOCK_DATA_SIZE)) = int ?b"
    using have_blocks sm(1) by simp
  moreover have "\<not> file_size ?e < index" using index by (simp add: word_less_nat_alt)
  ultimately have "fs_write_at fd index buff sz ?s = Inl No_Return"
    unfolding fs_write_at_def needed_blocks [OF small] Let_def using room by simp
  then show ?thesis using m(1) by blast
qed

section \<open>Reading\<close>

text \<open>\<open>fs_read\<close> prints the bytes of the file; nothing else changes.\<close>

definition printed :: "term_state \<Rightarrow> fs_state \<Rightarrow> fs_state" where
  "printed c s = s\<lparr>fds := (fds s)\<lparr>vm := (vm (fds s))\<lparr>con := c\<rparr>\<rparr>\<rparr>"

lemma printed_fields [simp]:
  "blk_mem (printed c s) = blk_mem s" "entries (printed c s) = entries s"
  "next_entry (printed c s) = next_entry s" "free_list (printed c s) = free_list s"
  "mounted (printed c s) = mounted s" "con (vm (fds (printed c s))) = c"
  "printed c (printed d s) = printed c s" "printed (con (vm (fds s))) s = s"
  by (simp_all add: printed_def mounted_def)

lemma fd_holds_printed [simp]: "fd_holds (fds (printed c s)) t = fd_holds (fds s) t"
  by (simp add: fd_holds_def fd_list_ok_def printed_def)

lemma fs_ok_printed: "fs_ok L ch fl t s \<Longrightarrow> term_ok c \<Longrightarrow> fs_ok L ch fl t (printed c s)"
  by (simp add: fs_ok_def names_ok_def blocks_ok_def handles_ok_def)

lemma fs_print_out:
  assumes "term_ok (con (vm (fds s)))" and "kfmt fmt args = Inr out"
  shows "fs_print fmt args s = map_res (\<lambda>c. printed c s) (puts term_putchar out (con (vm (fds s))))"
  using assms kprintf_prints [OF assms(1), of fmt args]
  by (cases "puts term_putchar out (con (vm (fds s)))") (simp_all add: fs_print_def mprintf_def printed_def)

lemma read_data_prints:
  "term_ok (con (vm (fds s))) \<Longrightarrow> puts term_putchar cs (con (vm (fds s))) = Inr c \<Longrightarrow>
   read_data cs s = Inr (printed c s)"
proof (induction cs arbitrary: s)
  case (Cons x cs)
  then obtain d where d: "term_putchar x (con (vm (fds s))) = Inr d" "puts term_putchar cs d = Inr c"
    by auto
  have "term_ok d" using term_putchar_ok [OF Cons.prems(1), of x] d(1) by auto
  moreover have "(ucast (ucast x :: u64) :: u8) = x" by (rule bit_word_eqI) (simp add: bit_simps)
  ultimately show ?case
    using Cons.IH [of "printed d s"] d Cons.prems(1) fs_print_out [OF _ kfmt_char, of s "ucast x" "[]"] by simp
qed auto

lemma min_124: "unat (fs_min BLOCK_DATA_SIZE w) = min 124 (unat w)"
  by (simp add: unat_fs_min)

lemma read_loop_prints:
  "mounted s \<Longrightarrow> data_ok (blk_mem s) \<Longrightarrow> chain (blk_mem s) i cs \<Longrightarrow> cs \<noteq> [] \<Longrightarrow>
   124 * (length cs - 1) \<le> unat w \<Longrightarrow>
   term_ok (con (vm (fds s))) \<Longrightarrow>
   puts term_putchar (take (unat w) (file_data (blk_mem s) cs)) (con (vm (fds s))) = Inr c \<Longrightarrow>
   read_loop (block_ref s i) w s = Some (Inr (printed c s))"
proof (induction cs arbitrary: i s w)
  case (Cons x cs)
  let ?b = "blk_mem s x"
  have ref: "block_ref s i = slot_addr x" "x < N_SLOTS" "i = of_nat x"
    using chain_ref Cons.prems by auto
  have len: "length (blk_data ?b) = 124" using Cons.prems(2) by (simp add: data_ok_def)
  have split: "take (unat w) (file_data (blk_mem s) (x # cs))
      = take (min 124 (unat w)) (blk_data ?b) @ take (unat w - 124) (file_data (blk_mem s) cs)"
    using len by (simp add: min_def)
  from Cons.prems(7) obtain d where d: "puts term_putchar (take (min 124 (unat w)) (blk_data ?b)) (con (vm (fds s))) = Inr d"
    "puts term_putchar (take (unat w - 124) (file_data (blk_mem s) cs)) d = Inr c"
    unfolding split console.puts_append by auto
  have rd: "read_data (take (min 124 (unat w)) (blk_data ?b)) s = Inr (printed d s)"
    by (rule read_data_prints [OF Cons.prems(6) d(1)])
  have tok: "term_ok d" using console.puts_keeps [OF Cons.prems(6) d(1)] .
  have step: "read_loop (slot_addr x) w s = (if blk_index ?b = BLOCK_INDEX_END then Some (Inr (printed d s))
      else read_loop (block_ref (printed d s) (blk_index ?b)) (w - 124) (printed d s))"
    using Cons.prems(1) ref(2) rd by (simp add: read_loop.simps [of "slot_addr x"] min_124)
  show ?case
  proof (cases cs)
    case Nil
    then have "c = d" using d(2) by simp
    then show ?thesis using step ref(1) Cons.prems(3) Nil by simp
  next
    case (Cons y ys)
    have "blk_index ?b \<noteq> BLOCK_INDEX_END" using Cons.prems(3) Cons slot_index_not_end by auto
    moreover have "unat (w - 124) = unat w - 124"
      using Cons.prems(5) Cons by (subst unat_sub_small) (simp_all add: word_le_nat_alt)
    ultimately show ?thesis
      using step ref(1) Cons.IH [of "printed d s" "blk_index ?b" "w - 124"] Cons.prems(1-3,5) Cons tok d(2)
      by simp
  qed
qed simp

lemma n_blocks_last: "124 * (n_blocks n - 1) \<le> n"
proof -
  have "n + 123 = 124 * ((n + 123) div 124) + (n + 123) mod 124" by simp
  then have "124 * ((n + 123) div 124) \<le> n + 123" by linarith
  then show ?thesis by (auto simp: n_blocks_def max_def)
qed

lemma fs_read_prints:
  assumes ok: "fs_ok L ch fl t s" and fd: "t fd = Some k"
  shows "\<exists>c. puts term_putchar (content ch s k) (con (vm (fds s))) = Inr c
    \<and> fs_read fd s = Inr (printed c s) \<and> fs_ok L ch fl t (printed c s)"
proof -
  have k: "k \<in> L" using open_entry [OF ok fd] .
  have tok: "term_ok (con (vm (fds s)))" using fs_okD(3) [OF ok] by (simp add: handles_ok_def)
  obtain c where c: "puts term_putchar (content ch s k) (con (vm (fds s))) = Inr c" "term_ok c"
    using console.puts_ok [OF tok] by blast
  have e: "chain (blk_mem s) (start_index (entries s ! k)) (ch k)" "ch k \<noteq> []"
      "124 * (length (ch k) - 1) \<le> unat (file_size (entries s ! k))"
    using live_entry(3) [OF ok k] n_blocks_last by (auto simp: entry_ok_def n_blocks_def)
  have "read_loop (block_ref s (start_index (entries s ! k))) (file_size (entries s ! k)) s = Some (Inr (printed c s))"
    using read_loop_prints [OF _ _ e tok] fs_okD(2) [OF ok] c(1) by (simp add: blocks_ok_def content_def)
  then have "fs_read fd s = Inr (printed c s)"
    using find_open [OF ok] fd live_entry(2) [OF ok k] by (simp add: fs_read_def)
  then show ?thesis using c fs_ok_printed [OF ok] by blast
qed

end
