(* ===== verification/FsNames.thy ===== *)
theory FsNames
  imports FsOps
begin

text \<open>
  Opening, renaming and deleting: the operations on names and descriptors, and mounting
  (\<open>fs_init\<close>).
\<close>

section \<open>Looking a name up\<close>

definition lookup :: "fs_state \<Rightarrow> u8 list \<Rightarrow> nat option" where
  "lookup s n = List.find (\<lambda>i. cstr (fe_name (entries s ! i)) = n) [0..<next_entry s]"

lemma find_name_finds:
  assumes "names_ok s" and "terminated file_name"
  shows "set is \<subseteq> {..<next_entry s} \<Longrightarrow> find_name is file_name s
    = Inr (List.find (\<lambda>i. cstr (fe_name (entries s ! i)) = cstr file_name) is)"
proof (induction "is")
  case (Cons i "is")
  have i: "i < next_entry s" "i < length (entries s)" using Cons.prems assms(1) by (auto simp: names_ok_def)
  have t: "terminated (fe_name (entries s ! i))" using assms(1) i(1) by (simp add: names_ok_def)
  obtain r where "strcmp file_name (fe_name (entries s ! i)) = Inr r"
    using strcmp_returns [OF assms(2) t] by blast
  then show ?case
    using Cons i strcmp_zero_iff [OF assms(2) t] by (auto simp: get_entry_def)
qed simp

lemma find_name_lookup:
  "names_ok s \<Longrightarrow> terminated file_name \<Longrightarrow>
   find_name [0..<next_entry s] file_name s = Inr (lookup s (cstr file_name))"
  using find_name_finds [of s file_name "[0..<next_entry s]"] by (simp add: lookup_def atLeast0LessThan)

lemma lookup_Some:
  assumes "lookup s n = Some i"
  shows "i < next_entry s" and "cstr (fe_name (entries s ! i)) = n"
  using assms by (auto simp: lookup_def find_Some_iff)

lemma lookup_None: "lookup s n = None \<Longrightarrow> i < next_entry s \<Longrightarrow> cstr (fe_name (entries s ! i)) \<noteq> n"
  by (auto simp: lookup_def find_None_iff)

lemma lookup_live:
  assumes "fs_ok L ch fl t s" and "lookup s n = Some i" and "n \<noteq> []"
  shows "i \<in> L"
  using lookup_Some [OF assms(2)] assms(1,3) by (auto simp: fs_ok_def handles_ok_def)

section \<open>Opening\<close>

text \<open>A new descriptor for a live entry.\<close>

lemma fs_create_fd_ok:
  assumes ok: "fs_ok L ch fl t s" and i: "i \<in> L" and ready: "fd_ready (fds s)"
  shows "\<exists>d c. fs_create_fd i s = Inr (next_fd (fds s), s\<lparr>fds := d\<rparr>)
    \<and> fs_ok L ch fl (t(next_fd (fds s) \<mapsto> i)) (s\<lparr>fds := d\<rparr>) \<and> t (next_fd (fds s)) = None
    \<and> next_fd d = next_fd (fds s) + 1 \<and> vm d = (vm (fds s))\<lparr>con := c\<rparr>
    \<and> puts term_putchar mapped_msg (con (vm (fds s))) = Inr c"
proof -
  have holds: "fd_holds (fds s) t" using fs_okD(3) [OF ok] by (simp add: handles_ok_def)
  obtain d c where d: "create_fd i (fds s) = Inr (next_fd (fds s), d)" "fd_holds d (t(next_fd (fds s) \<mapsto> i))"
    "t (next_fd (fds s)) = None" "next_fd d = next_fd (fds s) + 1" "vm d = (vm (fds s))\<lparr>con := c\<rparr>" "term_ok c"
    "puts term_putchar mapped_msg (con (vm (fds s))) = Inr c"
    using create_fd_holds [OF holds ready, of i] by blast
  have "ran (t(next_fd (fds s) \<mapsto> i)) \<subseteq> L"
    using fs_okD(3) [OF ok] i d(3) by (simp add: handles_ok_def)
  then have "fs_ok L ch fl (t(next_fd (fds s) \<mapsto> i)) (s\<lparr>fds := d\<rparr>)"
    using ok d(2,5,6) by (simp add: fs_ok_def names_ok_def blocks_ok_def handles_ok_def mounted_def)
  then show ?thesis using d by (intro exI [of _ d] exI [of _ c]) (simp add: fs_create_fd_def)
qed

lemma fs_open_existing:
  assumes ok: "fs_ok L ch fl t s" and name: "terminated file_name" and room: "next_entry s < MAX_FILE_SIZE"
    and found: "lookup s (cstr file_name) = Some i" and i: "i \<in> L" and ready: "fd_ready (fds s)"
  shows "\<exists>d c. fs_open file_name s = Inr (next_fd (fds s), s\<lparr>fds := d\<rparr>)
    \<and> fs_ok L ch fl (t(next_fd (fds s) \<mapsto> i)) (s\<lparr>fds := d\<rparr>) \<and> t (next_fd (fds s)) = None
    \<and> next_fd d = next_fd (fds s) + 1 \<and> vm d = (vm (fds s))\<lparr>con := c\<rparr>
    \<and> puts term_putchar mapped_msg (con (vm (fds s))) = Inr c"
proof -
  have "fs_open file_name s = fs_create_fd i s"
    using find_name_lookup [OF fs_okD(1) [OF ok] name] found room by (simp add: fs_open_def)
  then show ?thesis using fs_create_fd_ok [OF ok i ready] by simp
qed

lemma fs_open_full: "MAX_FILE_SIZE \<le> next_entry s \<Longrightarrow> fs_open file_name s = Inr (-1, s)"
  by (simp add: fs_open_def)

lemma fs_open_no_block:
  assumes ok: "fs_ok L ch [] t s" and name: "terminated file_name" and "lookup s (cstr file_name) = None"
  shows "fs_open file_name s = Inr (-1, s)"
proof -
  have "free_list s = 0" using fs_okD(2) [OF ok] by (simp add: blocks_ok_def)
  then show ?thesis
    using find_name_lookup [OF fs_okD(1) [OF ok] name] assms(3) by (simp add: fs_open_def)
qed

lemma fs_open_long_name:
  assumes ok: "fs_ok L ch (f # fl) t s" and name: "terminated file_name" "MAX_FILENAME \<le> length (cstr file_name)"
    and new: "lookup s (cstr file_name) = None" and room: "next_entry s < MAX_FILE_SIZE"
  shows "fs_open file_name s = Inl Overrun"
proof -
  have "length (fe_name (entries s ! next_entry s)) = 32" and len: "length (entries s) = 256"
    using fs_okD(1) [OF ok] room by (simp_all add: names_ok_def)
  then have "strcpy (fe_name (entries s ! next_entry s)) file_name = Inl Overrun"
    using name(2) by (intro strcpy_overruns) simp
  moreover have "free_list s \<noteq> 0"
    using fs_okD(2) [OF ok] slot_addr_nonzero by (auto simp: blocks_ok_def)
  ultimately show ?thesis
    using find_name_lookup [OF fs_okD(1) [OF ok] name(1)] new room len
    by (simp add: fs_open_def get_entry_def Let_def)
qed

text \<open>A new file: an entry without bytes, and one block.\<close>

definition opened :: "u8 list \<Rightarrow> nat \<Rightarrow> fd_state \<Rightarrow> fs_state \<Rightarrow> fs_state" where
  "opened nm f d s = s\<lparr>entries := (entries s)[next_entry s := \<lparr>fe_name = nm, start_index = of_nat f, file_size = 0\<rparr>],
     free_list := blk_next (blk_mem s f), blk_mem := (blk_mem s)(f := (blk_mem s f)\<lparr>blk_index := BLOCK_INDEX_END\<rparr>),
     fds := d, next_entry := next_entry s + 1\<rparr>"

lemma opened_ok:
  assumes ok: "fs_ok L ch (f # fl) t s" and room: "next_entry s < MAX_FILE_SIZE"
    and nm: "length nm = MAX_FILENAME" "terminated nm"
    and d: "fd_holds d (t(fd \<mapsto> next_entry s))" "t fd = None" "term_ok (con (vm d))"
  defines "e \<equiv> next_entry s"
  shows "fs_ok (insert e L) (ch(e := [f])) fl (t(fd \<mapsto> e)) (opened nm f d s)"
    and "content (ch(e := [f])) (opened nm f d s) e = []"
    and "\<And>i. i \<in> L \<Longrightarrow> content (ch(e := [f])) (opened nm f d s) i = content ch s i"
proof -
  let ?s = "opened nm f d s" and ?m = "(blk_mem s)(f := (blk_mem s f)\<lparr>blk_index := BLOCK_INDEX_END\<rparr>)"
  note n = fs_okD(1) [OF ok] and b = fs_okD(2) [OF ok] and h = fs_okD(3) [OF ok]
  have len: "e < length (entries s)" using n room by (simp add: names_ok_def e_def)
  have notL: "e \<notin> L" using h by (auto simp: handles_ok_def e_def)
  have f: "f < N_SLOTS" "f \<notin> set fl" "distinct fl" using b by (simp_all add: blocks_ok_def)
  have f_other: "f \<notin> set (ch i)" if "i \<in> L" for i using b that by (auto simp: blocks_ok_def)
  have same: "?m c = blk_mem s c" if "c \<noteq> f" for c using that by simp
  have ents: "entries ?s ! i = entries s ! i" if "i \<noteq> e" for i using that by (simp add: opened_def e_def)
  have ent: "entries ?s ! e = \<lparr>fe_name = nm, start_index = of_nat f, file_size = 0\<rparr>"
    using len by (simp add: opened_def e_def)
  have fields: "blk_mem ?s = ?m" "free_list ?s = blk_next (blk_mem s f)" "next_entry ?s = e + 1" "fds ?s = d"
    by (simp_all add: opened_def e_def)
  have "free_chain ?m (blk_next (blk_mem s f)) fl"
    using b f(2) free_chain_frame [of fl ?m "blk_mem s"] by (fastforce simp: blocks_ok_def)
  moreover have "entry_ok ?m (entries ?s ! e) [f]"
    using f(1) by (simp add: ent entry_ok_def n_blocks_def)
  moreover have "entry_ok ?m (entries ?s ! i) (ch i)" if "i \<in> L" for i
  proof -
    have "i \<noteq> e" using that notL by auto
    then have "entries ?s ! i = entries s ! i" by (rule ents)
    moreover have "chain ?m (start_index (entries s ! i)) (ch i) = chain (blk_mem s) (start_index (entries s ! i)) (ch i)"
      by (rule chain_frame) (use f_other [OF that] in auto)
    ultimately show ?thesis using b that by (simp add: blocks_ok_def entry_ok_def)
  qed
  moreover have "mounted ?s" "data_ok ?m"
    using b by (simp_all add: blocks_ok_def mounted_def opened_def data_ok_def)
  moreover have "set ((ch(e := [f])) i) \<inter> set ((ch(e := [f])) j) = {}"
    if "i \<in> insert e L" "j \<in> insert e L" "i \<noteq> j" for i j
  proof -
    have "set (ch x) \<inter> set (ch y) = {}" if "x \<in> L" "y \<in> L" "x \<noteq> y" for x y
      using b that unfolding blocks_ok_def by blast
    then show ?thesis using that f_other by (cases "i = e"; cases "j = e") auto
  qed
  moreover have "set ((ch(e := [f])) i) \<inter> set fl = {}" if "i \<in> insert e L" for i
    using b that f(2) by (cases "i = e") (auto simp: blocks_ok_def)
  ultimately have "blocks_ok (insert e L) (ch(e := [f])) fl ?s"
    using f(3) notL unfolding blocks_ok_def fields by auto
  moreover have "names_ok ?s"
    unfolding names_ok_def fields
  proof (intro conjI allI ballI impI)
    show "length (entries ?s) = MAX_FILE_SIZE" "e + 1 \<le> MAX_FILE_SIZE"
      using n room by (simp_all add: opened_def names_ok_def e_def)
    show "length (fe_name x) = MAX_FILENAME" if "x \<in> set (entries ?s)" for x
      using that n nm(1) set_update_subset_insert [of "entries s" "next_entry s"]
      by (fastforce simp: opened_def names_ok_def)
    show "terminated (fe_name (entries ?s ! i))" if "i < e + 1" for i
      using that n nm(2) ent ents by (cases "i = e") (simp_all add: names_ok_def e_def)
  qed
  moreover have "handles_ok (insert e L) (t(fd \<mapsto> e)) ?s"
    unfolding handles_ok_def fields
  proof (intro conjI allI impI)
    show "fd_holds d (t(fd \<mapsto> e))" "term_ok (con (vm d))" using d by (simp_all add: e_def)
    show "ran (t(fd \<mapsto> e)) \<subseteq> insert e L" using h d(2) by (auto simp: handles_ok_def)
    show "insert e L \<subseteq> {..<e + 1}" using h by (auto simp: handles_ok_def e_def)
    show "cstr (fe_name (entries ?s ! i)) = []" if "i < e + 1" "i \<notin> insert e L" for i
      using that h ents by (simp add: handles_ok_def e_def)
  qed
  ultimately show "fs_ok (insert e L) (ch(e := [f])) fl (t(fd \<mapsto> e)) ?s" by (simp add: fs_ok_def)
  show "content (ch(e := [f])) ?s e = []" by (simp add: content_def ent)
  fix i assume i: "i \<in> L"
  have "file_data ?m (ch i) = file_data (blk_mem s) (ch i)"
    by (rule file_data_cong) simp
  then show "content (ch(e := [f])) ?s i = content ch s i"
    using i notL ents [of i] by (auto simp: content_def fields)
qed

lemma fs_open_new:
  assumes ok: "fs_ok L ch (f # fl) t s" and name: "terminated file_name" "length (cstr file_name) < MAX_FILENAME"
    and new: "lookup s (cstr file_name) = None" and room: "next_entry s < MAX_FILE_SIZE"
    and ready: "fd_ready (fds s)"
  shows "\<exists>nm d c. fs_open file_name s = Inr (next_fd (fds s), opened nm f d s)
    \<and> cstr nm = cstr file_name \<and> length nm = MAX_FILENAME \<and> terminated nm
    \<and> fd_holds d (t(next_fd (fds s) \<mapsto> next_entry s)) \<and> t (next_fd (fds s)) = None
    \<and> next_fd d = next_fd (fds s) + 1 \<and> vm d = (vm (fds s))\<lparr>con := c\<rparr> \<and> term_ok c
    \<and> puts term_putchar mapped_msg (con (vm (fds s))) = Inr c"
proof -
  let ?e = "next_entry s"
  note n = fs_okD(1) [OF ok] and b = fs_okD(2) [OF ok] and h = fs_okD(3) [OF ok]
  have e: "get_entry ?e s = Inr (entries s ! ?e)" "length (fe_name (entries s ! ?e)) = 32"
    using n room by (simp_all add: names_ok_def get_entry_def)
  obtain nm where nm: "strcpy (fe_name (entries s ! ?e)) file_name = Inr nm"
    using strcpy_fits [of file_name "fe_name (entries s ! ?e)"] name e(2) by simp
  note nm' = strcpy_result [OF nm name(1)]
  have f: "f < N_SLOTS" "free_list s = slot_addr f" "slot_addr f \<noteq> 0" "mounted s"
    using b slot_addr_nonzero by (auto simp: blocks_ok_def)
  let ?s1 = "set_entry ?e \<lparr>fe_name = nm, start_index = of_nat f, file_size = 0\<rparr> s"
  let ?s2 = "?s1\<lparr>free_list := blk_next (blk_mem s f), blk_mem := (blk_mem s)(f := (blk_mem s f)\<lparr>blk_index := BLOCK_INDEX_END\<rparr>)\<rparr>"
  have holds: "fd_holds (fds s) t" using h by (simp add: handles_ok_def)
  obtain d c where d: "create_fd ?e (fds s) = Inr (next_fd (fds s), d)" "fd_holds d (t(next_fd (fds s) \<mapsto> ?e))"
    "t (next_fd (fds s)) = None" "next_fd d = next_fd (fds s) + 1" "vm d = (vm (fds s))\<lparr>con := c\<rparr>" "term_ok c"
    "puts term_putchar mapped_msg (con (vm (fds s))) = Inr c"
    using create_fd_holds [OF holds ready, of ?e] by blast
  have m: "mounted ?s1" "mounted (?s1\<lparr>free_list := p\<rparr>)" for p using f(4) by (simp_all add: mounted_def set_entry_def)
  have rec: "(entries s ! ?e)\<lparr>fe_name := nm, file_size := 0, start_index := of_nat f\<rparr>
      = \<lparr>fe_name = nm, start_index = of_nat f, file_size = 0\<rparr>" by simp
  have "fs_create_fd ?e ?s2 = Inr (next_fd (fds s), ?s2\<lparr>fds := d\<rparr>)"
    using d(1) by (simp add: fs_create_fd_def set_entry_def)
  moreover have "block_index s (slot_addr f) = of_nat f" using f by (simp add: block_index_slot)
  moreover have "blk_mem ?s1 = blk_mem s" "next_entry ?s1 = next_entry s" by (simp_all add: set_entry_def)
  ultimately have "fs_open file_name s = Inr (next_fd (fds s), (?s2\<lparr>fds := d\<rparr>)\<lparr>next_entry := next_entry s + 1\<rparr>)"
    using find_name_lookup [OF n name(1)] new room e nm f m unfolding fs_open_def
    by (simp add: Let_def rec)
  moreover have "(?s2\<lparr>fds := d\<rparr>)\<lparr>next_entry := next_entry s + 1\<rparr> = opened nm f d s"
    by (simp add: opened_def set_entry_def)
  ultimately show ?thesis using d nm' e(2) by (intro exI [of _ nm] exI [of _ d] exI [of _ c]) simp
qed

section \<open>Renaming\<close>

lemma fs_rename_absent:
  assumes "fs_ok L ch fl t s" and "terminated oldpath" and "lookup s (cstr oldpath) = None"
  shows "fs_rename oldpath newpath s = Inr (False, s)"
  using find_name_lookup [OF fs_okD(1) [OF assms(1)] assms(2)] assms(3) by (simp add: fs_rename_def)

lemma fs_rename_long_name:
  assumes ok: "fs_ok L ch fl t s" and "terminated oldpath" and "lookup s (cstr oldpath) = Some i"
    and "MAX_FILENAME \<le> length (cstr newpath)"
  shows "fs_rename oldpath newpath s = Inl Overrun"
proof -
  have "i < length (entries s)" "length (fe_name (entries s ! i)) = 32"
    using fs_okD(1) [OF ok] lookup_Some [OF assms(3)] by (simp_all add: names_ok_def)
  then show ?thesis
    using find_name_lookup [OF fs_okD(1) [OF ok] assms(2)] assms(3,4)
    by (simp add: fs_rename_def get_entry_def strcpy_overruns)
qed

lemma fs_rename_found:
  assumes ok: "fs_ok L ch fl t s" and old: "terminated oldpath" "lookup s (cstr oldpath) = Some i" and i: "i \<in> L"
    and new: "terminated newpath" "length (cstr newpath) < MAX_FILENAME"
  shows "\<exists>nm. let s' = set_entry i ((entries s ! i)\<lparr>fe_name := nm\<rparr>) s in
     fs_rename oldpath newpath s = Inr (True, s') \<and> cstr nm = cstr newpath
     \<and> fs_ok L ch fl t s' \<and> (\<forall>j. content ch s' j = content ch s j)"
proof -
  note n = fs_okD(1) [OF ok] and e = live_entry [OF ok i]
  have len: "length (fe_name (entries s ! i)) = 32" using n e(1) by (simp add: names_ok_def)
  obtain nm where nm: "strcpy (fe_name (entries s ! i)) newpath = Inr nm"
    using strcpy_fits [of newpath "fe_name (entries s ! i)"] new len by simp
  note nm' = strcpy_result [OF nm new(1)]
  let ?s = "set_entry i ((entries s ! i)\<lparr>fe_name := nm\<rparr>) s"
  have res: "fs_rename oldpath newpath s = Inr (True, ?s)"
    using find_name_lookup [OF n old(1)] old(2) e(2) nm by (simp add: fs_rename_def)
  have ents: "start_index (entries ?s ! j) = start_index (entries s ! j)"
      "file_size (entries ?s ! j) = file_size (entries s ! j)"
      "fe_name (entries ?s ! j) = (if j = i then nm else fe_name (entries s ! j))" for j
    using e(1) by (cases "j = i"; simp add: set_entry_def)+
  have fields: "blk_mem ?s = blk_mem s" "free_list ?s = free_list s" "fds ?s = fds s" "next_entry ?s = next_entry s"
      "mounted ?s = mounted s" "length (entries ?s) = length (entries s)"
    by (simp_all add: set_entry_def mounted_def)
  have "length (fe_name x) = 32" if "x \<in> set (entries ?s)" for x
    using that n nm' len set_update_subset_insert [of "entries s" i]
    by (fastforce simp: set_entry_def names_ok_def)
  then have "names_ok ?s" using n nm' fields ents by (simp add: names_ok_def)
  moreover have "blocks_ok L ch fl ?s"
    using fs_okD(2) [OF ok] fields ents by (simp add: blocks_ok_def entry_ok_def)
  moreover have "handles_ok L t ?s"
    using fs_okD(3) [OF ok] fields ents i by (auto simp: handles_ok_def)
  ultimately have "fs_ok L ch fl t ?s" by (simp add: fs_ok_def)
  moreover have "content ch ?s j = content ch s j" for j by (simp add: content_def ents fields)
  ultimately show ?thesis using res nm' by (intro exI [of _ nm]) (simp add: Let_def)
qed

section \<open>Deleting\<close>

text \<open>
  A file of one block: the entry is cleared and the descriptor closed. The loop never reaches
  the last block of a chain, so the block does not return to the free list.
\<close>

lemma delete_loop_end:
  "mounted s \<Longrightarrow> c < N_SLOTS \<Longrightarrow> blk_index (blk_mem s c) = BLOCK_INDEX_END \<Longrightarrow>
   delete_loop (slot_addr c) s = Some (Inr s)"
  by (simp add: delete_loop.simps [of "slot_addr c"])

definition deleted :: "nat \<Rightarrow> u8 list \<Rightarrow> fd_state \<Rightarrow> fs_state \<Rightarrow> fs_state" where
  "deleted k nm d s = s\<lparr>entries := (entries s)[k := \<lparr>fe_name = nm, start_index = 0, file_size = 0\<rparr>], fds := d\<rparr>"

lemma fs_delete_single:
  assumes ok: "fs_ok L ch fl t s" and fd: "t fd = Some k" and one: "unat (file_size (entries s ! k)) \<le> 124"
    and only: "\<And>g. t g = Some k \<Longrightarrow> g = fd"
  shows "\<exists>nm d. fs_delete fd s = Inr (deleted k nm d s) \<and> cstr nm = [] \<and> vm d = vm (fds s) \<and> next_fd d = next_fd (fds s)
    \<and> fs_ok (L - {k}) ch fl (t(fd := None)) (deleted k nm d s)
    \<and> (\<forall>i \<in> L - {k}. content ch (deleted k nm d s) i = content ch s i)"
proof -
  have k: "k \<in> L" using open_entry [OF ok fd] .
  note n = fs_okD(1) [OF ok] and b = fs_okD(2) [OF ok] and h = fs_okD(3) [OF ok] and e = live_entry [OF ok k]
  have ln: "length (ch k) = 1" using e(3) one by (simp add: entry_ok_def n_blocks_def)
  then obtain c where c: "ch k = [c]" by (cases "ch k") auto
  have blk: "mounted s" "c < N_SLOTS" "start_index (entries s ! k) = of_nat c"
      "blk_index (blk_mem s c) = BLOCK_INDEX_END"
    using b e(3) c by (simp_all add: blocks_ok_def entry_ok_def)
  have len: "length (fe_name (entries s ! k)) = 32" using n e(1) by (simp add: names_ok_def)
  obtain nm where nm: "strcpy (fe_name (entries s ! k)) (c_lit '''') = Inr nm"
    using strcpy_fits [of "c_lit ''''" "fe_name (entries s ! k)"] len by (simp add: c_lit_def bytes_of_def)
  have nm': "cstr nm = []" "length nm = 32" "terminated nm"
    using strcpy_result [OF nm] len by (simp_all add: c_lit_def bytes_of_def)
  have "fd_holds (fds s) t" using h by (simp add: handles_ok_def)
  then obtain d where d: "remove_fd fd (fds s) = Inr d" "fd_holds d (t(fd := None))" "vm d = vm (fds s)"
    "next_fd d = next_fd (fds s)" using remove_fd_holds by blast
  let ?s = "deleted k nm d s"
  have fields: "blk_mem ?s = blk_mem s" "free_list ?s = free_list s" "fds ?s = d" "next_entry ?s = next_entry s"
      "mounted ?s = mounted s" "length (entries ?s) = length (entries s)"
    by (simp_all add: deleted_def mounted_def)
  have ents: "entries ?s ! i = (if i = k then \<lparr>fe_name = nm, start_index = 0, file_size = 0\<rparr> else entries s ! i)" for i
    using e(1) by (simp add: deleted_def)
  have res: "fs_delete fd s = Inr ?s"
    using find_open [OF ok] fd e(2) blk nm d(1)
    by (simp add: fs_delete_def delete_loop_end block_ref_slot set_entry_def deleted_def)
  have "length (fe_name x) = 32" if "x \<in> set (entries ?s)" for x
    using that n nm' set_update_subset_insert [of "entries s" k]
    by (fastforce simp: deleted_def names_ok_def)
  then have "names_ok ?s" using n nm' fields ents by (simp add: names_ok_def)
  moreover have "blocks_ok (L - {k}) ch fl ?s"
    using b fields ents by (simp add: blocks_ok_def)
  moreover have "handles_ok (L - {k}) (t(fd := None)) ?s"
  proof -
    have "ran (t(fd := None)) \<subseteq> L - {k}"
    proof
      fix i assume "i \<in> ran (t(fd := None))"
      then obtain g where g: "g \<noteq> fd" "t g = Some i" by (auto simp: ran_def split: if_splits)
      then have "i \<in> L" "i \<noteq> k" using only open_entry [OF ok] by auto
      then show "i \<in> L - {k}" by blast
    qed
    then show ?thesis using h d fields ents nm'(1) by (auto simp: handles_ok_def)
  qed
  ultimately have "fs_ok (L - {k}) ch fl (t(fd := None)) ?s" by (simp add: fs_ok_def)
  moreover have "content ch ?s i = content ch s i" if "i \<in> L - {k}" for i
    using that by (simp add: content_def ents fields)
  ultimately show ?thesis using res nm'(1) d(3,4) by (intro exI [of _ nm] exI [of _ d]) simp
qed

text \<open>
  A longer file while some block is free: the first step overwrites the \<open>index\<close> field with the
  low half of the \<open>free_list\<close> pointer and then follows it, far out of the region.
\<close>

lemma slot_addr_low: "f < N_SLOTS \<Longrightarrow> unat (ucast (slot_addr f) :: u32) = 2143559680 + 128 * f"
proof -
  assume f: "f < N_SLOTS"
  have "unat (slot_addr f) = unat START_ADDR + 128 * f"
    using f slot_offset [OF f] unfolding slot_addr_def by (subst unat_add_small) simp_all
  then have "unat (slot_addr f) = 4294934528 * 2 ^ 32 + (2143559680 + 128 * f)" by simp
  moreover have "unat (ucast (slot_addr f) :: u32) = unat (slot_addr f) mod 2 ^ 32"
    by (simp add: unsigned_ucast_eq take_bit_eq_mod)
  ultimately have "unat (ucast (slot_addr f) :: u32) = (4294934528 * 2 ^ 32 + (2143559680 + 128 * f)) mod 2 ^ 32"
    by (simp only:)
  also have "\<dots> = (2143559680 + 128 * f) mod 2 ^ 32" by (rule mod_mult_self3)
  finally show ?thesis using f by simp
qed

lemma unat_ucast_up: "unat (ucast (w :: u32) :: u64) = unat w"
proof -
  have "unat w < 2 ^ LENGTH(32)" by (rule unsigned_less)
  then have "take_bit 64 (unat w) = unat w" by (intro take_bit_nat_eq_self) simp
  then show ?thesis by (simp only: unsigned_ucast_eq) simp
qed

lemma fs_delete_long_faults:
  assumes ok: "fs_ok L ch (f # fl) t s" and fd: "t fd = Some k" and long: "124 < unat (file_size (entries s ! k))"
  shows "\<exists>p. fs_delete fd s = Inl (Page_Fault p)"
proof -
  have k: "k \<in> L" using open_entry [OF ok fd] .
  note b = fs_okD(2) [OF ok] and e = live_entry [OF ok k]
  have "2 \<le> length (ch k)" using e(3) long by (simp add: entry_ok_def n_blocks_def)
  then obtain c c' cs where cs: "ch k = c # c' # cs" by (cases "ch k"; cases "tl (ch k)") auto
  have blk: "mounted s" "c < N_SLOTS" "start_index (entries s ! k) = of_nat c"
      "blk_index (blk_mem s c) = of_nat c'" "c' < N_SLOTS"
    using b e(3) cs by (simp_all add: blocks_ok_def entry_ok_def)
  have f: "f < N_SLOTS" "free_list s = slot_addr f" using b by (simp_all add: blocks_ok_def)
  let ?i = "ucast (slot_addr f) :: u32" and ?b = "set_blk_next (slot_addr f) (blk_mem s c)"
  let ?s = "s\<lparr>blk_mem := (blk_mem s)(c := ?b)\<rparr>"
  let ?p = "block_ref ?s ?i"
  have m: "mounted ?s" "mounted (?s\<lparr>free_list := p\<rparr>)" for p using blk(1) by (simp_all add: mounted_def)
  have "?p - START_ADDR = BLOCK_SIZE * ucast ?i" using blk(1) by (simp add: block_ref_def mounted_def)
  moreover have "unat (BLOCK_SIZE * ucast ?i) = 128 * (2143559680 + 128 * f)"
  proof -
    have "unat (ucast ?i :: u64) = 2143559680 + 128 * f"
      using slot_addr_low [OF f(1)] by (simp only: unat_ucast_up)
    then show ?thesis using f(1) by (subst unat_mult_small) simp_all
  qed
  ultimately have "slot_of ?p = None" by (simp add: slot_of_def Let_def)
  then have "load_block ?p u = Inl (Page_Fault ?p)" for u by (simp add: load_block_def)
  then have "delete_loop ?p u = Some (Inl (Page_Fault ?p))" for u by (simp add: delete_loop.simps [of ?p])
  then have "delete_loop (slot_addr c) s = Some (Inl (Page_Fault ?p))"
    using blk m f slot_index_not_end [OF blk(5)] by (simp add: delete_loop.simps [of "slot_addr c"])
  then have "fs_delete fd s = Inl (Page_Fault ?p)"
    using find_open [OF ok] fd e(2) blk by (simp add: fs_delete_def block_ref_slot)
  then show ?thesis by blast
qed

section \<open>Mounting\<close>

definition init_state :: "fs_state \<Rightarrow> bool" where
  "init_state s \<longleftrightarrow> free_list s = 0 \<and> next_entry s = 0 \<and> length (entries s) = MAX_FILE_SIZE
     \<and> (\<forall>e \<in> set (entries s). length (fe_name e) = MAX_FILENAME) \<and> data_ok (blk_mem s)
     \<and> fd_holds (fds s) Map.empty \<and> term_ok (con (vm (fds s)))"

definition region_present :: "mem_state \<Rightarrow> bool" where
  "region_present m \<longleftrightarrow> (\<forall>i < Suc MAX_BLOCK_SIZE. page_present m (START_ADDR + of_nat i * 0x1000))"

lemma page_slot: "START_ADDR + of_nat i * 0x1000 = slot_addr (32 * i)"
  by (simp add: slot_addr_def)

lemma fs_touch_present:
  assumes "page_present (vm (fds s)) a" and "term_ok (con (vm (fds s)))"
  shows "\<exists>c. fs_touch a s = Inr (printed c s) \<and> term_ok c"
proof -
  obtain c where "touch_page a (vm (fds s)) = Inr ((vm (fds s))\<lparr>con := c\<rparr>)" "term_ok c"
    using touch_page_present [OF assms] by blast
  then show ?thesis by (intro exI [of _ c]) (simp add: fs_touch_def printed_def)
qed

lemma data_ok_set_next: "data_ok m \<Longrightarrow> data_ok (m(i := set_blk_next v (m i)))"
  by (simp add: data_ok_def length_set_next)

lemma fs_init_loop_ok:
  "\<forall>i \<in> set is. i < 129 \<and> page_present (vm (fds s)) (slot_addr (32 * i)) \<Longrightarrow> distinct is \<Longrightarrow>
   set fl \<inter> (\<lambda>i. 32 * i) ` set is = {} \<Longrightarrow> free_chain (blk_mem s) (free_list s) fl \<Longrightarrow>
   data_ok (blk_mem s) \<Longrightarrow> term_ok (con (vm (fds s))) \<Longrightarrow>
   \<exists>c p m. fs_init_loop is s = Inr (printed c (s\<lparr>free_list := p, blk_mem := m,
         blk_mapped := (\<lambda>k. k \<in> set is \<or> blk_mapped s k)\<rparr>))
     \<and> free_chain m p (rev (map (\<lambda>i. 32 * i) is) @ fl) \<and> data_ok m \<and> term_ok c"
proof (induction "is" arbitrary: s fl)
  case Nil
  then show ?case
    by (intro exI [of _ "con (vm (fds s))"] exI [of _ "free_list s"] exI [of _ "blk_mem s"])
      (simp add: printed_def)
next
  case (Cons i "is")
  let ?a = "slot_addr (32 * i)"
  have i: "i < 129" "page_present (vm (fds s)) ?a" using Cons.prems(1) by simp_all
  then have slot: "32 * i < N_SLOTS" by simp
  obtain c where c: "fs_touch ?a s = Inr (printed c s)" "term_ok c"
    using fs_touch_present [OF i(2) Cons.prems(6)] by blast
  let ?m = "(blk_mem s)(32 * i := set_blk_next (free_list s) (blk_mem s (32 * i)))"
  let ?t = "(printed c s)\<lparr>blk_mapped := (blk_mapped s)(i := True), blk_mem := ?m, free_list := ?a\<rparr>"
  have step: "fs_init_loop (i # is) s = fs_init_loop is ?t"
    using c(1) slot unfolding fs_init_loop.simps page_slot
    by (simp add: load_block_def store_block_def printed_def)
  have notin: "32 * i \<notin> set fl" using Cons.prems(3) by auto
  have fc: "free_chain (blk_mem ?t) (free_list ?t) ((32 * i) # fl)"
    using Cons.prems(4) slot notin free_chain_frame [of fl ?m "blk_mem s"] by fastforce
  have dj: "set ((32 * i) # fl) \<inter> (\<lambda>i. 32 * i) ` set is = {}" and dist: "distinct is"
    using Cons.prems(2,3) by auto
  have dok: "data_ok (blk_mem ?t)" and tok: "term_ok (con (vm (fds ?t)))"
    using data_ok_set_next [OF Cons.prems(5)] c(2) by simp_all
  have pg: "\<forall>j \<in> set is. j < 129 \<and> page_present (vm (fds ?t)) (slot_addr (32 * j))"
    using Cons.prems(1) by (simp add: printed_def)
  from Cons.IH [OF pg dist dj fc dok tok] obtain c' p m where r: "fs_init_loop is ?t = Inr (printed c' (?t\<lparr>free_list := p, blk_mem := m,
         blk_mapped := (\<lambda>k. k \<in> set is \<or> blk_mapped ?t k)\<rparr>))"
    "free_chain m p (rev (map (\<lambda>i. 32 * i) is) @ (32 * i) # fl)" "data_ok m" "term_ok c'"
    by (elim exE conjE)
  have "(\<lambda>k. k \<in> set is \<or> blk_mapped ?t k) = (\<lambda>k. k \<in> set (i # is) \<or> blk_mapped s k)" by auto
  with r step show ?case by (intro exI [of _ c'] exI [of _ p] exI [of _ m]) (simp add: printed_def)
qed

lemma fs_init_ok:
  assumes "init_state s" and "region_present (vm (fds s))"
  shows "\<exists>s'. fs_init s = Inr s' \<and> fs_ok {} ch (rev (map (\<lambda>i. 32 * i) [0..<129])) Map.empty s'
    \<and> next_entry s' = 0 \<and> next_fd (fds s') = next_fd (fds s) \<and> (\<exists>c. vm (fds s') = (vm (fds s))\<lparr>con := c\<rparr>)"
proof -
  let ?s = "s\<lparr>blocks := START_ADDR\<rparr>"
  have pages: "\<forall>i \<in> set [0..<129]. i < 129 \<and> page_present (vm (fds ?s)) (slot_addr (32 * i))"
    using assms(2) by (simp add: region_present_def page_slot)
  have d: "distinct [0..<129]" and e: "set ([] :: nat list) \<inter> (\<lambda>i. 32 * i) ` set [0..<129] = {}" by simp_all
  have f: "free_chain (blk_mem ?s) (free_list ?s) []" "data_ok (blk_mem ?s)" "term_ok (con (vm (fds ?s)))"
    using assms(1) by (simp_all add: init_state_def)
  from fs_init_loop_ok [OF pages d e f] obtain c p m
    where r: "fs_init_loop [0..<129] ?s = Inr (printed c (?s\<lparr>free_list := p, blk_mem := m,
         blk_mapped := (\<lambda>k. k \<in> set [0..<129] \<or> blk_mapped ?s k)\<rparr>))"
    "free_chain m p (rev (map (\<lambda>i. 32 * i) [0..<129]) @ [])" "data_ok m" "term_ok c" by blast
  let ?t = "printed c (?s\<lparr>free_list := p, blk_mem := m, blk_mapped := (\<lambda>k. k \<in> set [0..<129] \<or> blk_mapped ?s k)\<rparr>)"
  have fields: "blk_mem ?t = m" "free_list ?t = p" "next_entry ?t = 0" "entries ?t = entries s" "mounted ?t"
      "con (vm (fds ?t)) = c"
    using assms(1) by (auto simp: init_state_def printed_def mounted_def)
  have "names_ok ?t" using assms(1) by (simp add: names_ok_def init_state_def)
  moreover have "distinct (rev (map (\<lambda>i. 32 * i) [0..<129::nat]))"
    by (simp add: distinct_map inj_on_def)
  then have "blocks_ok {} ch (rev (map (\<lambda>i. 32 * i) [0..<129])) ?t"
    using r(2,3) fields unfolding blocks_ok_def by (simp only: append_Nil2) simp
  moreover have "handles_ok {} Map.empty ?t"
    using assms(1) r(4) fields(3,6) by (simp add: handles_ok_def init_state_def fd_holds_def fd_list_ok_def printed_def)
  moreover have "next_fd (fds ?t) = next_fd (fds s)" "vm (fds ?t) = (vm (fds s))\<lparr>con := c\<rparr>"
    by (simp_all add: printed_def)
  ultimately show ?thesis using r(1) fields(3)
    by (intro exI [of _ ?t]) (auto simp: fs_init_def fs_ok_def)
qed

end
