(* ===== verification/FileModel.thy ===== *)
theory FileModel
  imports FsNames
begin

text \<open>
  What the file system promises, without blocks, chains or descriptor nodes: files are names
  and byte strings, descriptors are numbers bound to files. \<open>fm_step\<close> is the specification of
  one call, with the bytes the call prints; it is \<open>None\<close> where the code promises nothing (a
  name that does not fit, no block left in the middle of a write, deleting a file of several
  blocks or one that is open twice). \<open>fs_run_refines\<close>: the code does what the model says.
\<close>

section \<open>Calls\<close>

datatype fcall =
    C_Open "u8 list"
  | C_Write_At int u64 "u8 list"
  | C_Append int "u8 list"
  | C_Read int
  | C_Rename "u8 list" "u8 list"
  | C_Delete int

datatype fresult = R_Fd int | R_Bool bool | R_Unit

text \<open>The calls with their C arguments: terminated names, and the length of the buffer.\<close>

fun fs_step :: "fcall \<Rightarrow> fs_state \<Rightarrow> (fresult \<times> fs_state) res" where
  "fs_step (C_Open n) s = map_res (\<lambda>(fd, s). (R_Fd fd, s)) (fs_open (n @ [0]) s)"
| "fs_step (C_Write_At fd i b) s = map_res (\<lambda>(r, s). (R_Bool r, s)) (fs_write_at fd i b (of_nat (length b)) s)"
| "fs_step (C_Append fd b) s = map_res (\<lambda>(r, s). (R_Bool r, s)) (fs_append fd b (of_nat (length b)) s)"
| "fs_step (C_Read fd) s = map_res (\<lambda>s. (R_Unit, s)) (fs_read fd s)"
| "fs_step (C_Rename old new) s = map_res (\<lambda>(r, s). (R_Bool r, s)) (fs_rename (old @ [0]) (new @ [0]) s)"
| "fs_step (C_Delete fd) s = map_res (\<lambda>s. (R_Unit, s)) (fs_delete fd s)"

fun fs_run :: "fcall list \<Rightarrow> fs_state \<Rightarrow> (fresult list \<times> fs_state) res" where
  "fs_run [] s = Inr ([], s)"
| "fs_run (c # cs) s = bindE (fs_step c s) (\<lambda>(r, s). map_res (\<lambda>(rs, s). (r # rs, s)) (fs_run cs s))"

section \<open>The model\<close>

record fmodel =
  fm_files :: "(u8 list \<times> u8 list) option list"   \<comment> \<open>name and bytes; \<open>None\<close> once deleted\<close>
  fm_open :: "(int \<times> nat) list"
  fm_next :: int
  fm_free :: nat

definition fm_lookup :: "u8 list \<Rightarrow> fmodel \<Rightarrow> nat option" where
  "fm_lookup n m = List.find (\<lambda>i. map_option fst (fm_files m ! i) = Some n) [0..<length (fm_files m)]"

definition fm_write :: "int \<Rightarrow> nat \<Rightarrow> u8 list \<Rightarrow> fmodel \<Rightarrow> (bool \<times> fmodel) option" where
  "fm_write fd i b m = (case map_of (fm_open m) fd of None \<Rightarrow> Some (False, m)
   | Some k \<Rightarrow> (case fm_files m ! k of None \<Rightarrow> None
     | Some (n, c) \<Rightarrow>
        if length c < i then Some (False, m)
        else (let c' = splice_at c i b; need = n_blocks (length c') - n_blocks (length c)
              in if need \<le> fm_free m
                 then Some (True, m\<lparr>fm_files := (fm_files m)[k := Some (n, c')], fm_free := fm_free m - need\<rparr>)
                 else None)))"

definition name_ok :: "u8 list \<Rightarrow> bool" where
  "name_ok n \<longleftrightarrow> n \<noteq> [] \<and> 0 \<notin> set n"

definition fm_bind :: "nat \<Rightarrow> fmodel \<Rightarrow> fmodel" where
  "fm_bind i m = m\<lparr>fm_open := (fm_next m, i) # fm_open m, fm_next := fm_next m + 1\<rparr>"

abbreviation no_file_msg :: "string \<Rightarrow> u8 list" where
  "no_file_msg verb \<equiv> bytes_of (''WARNING: The file you are trying to '' @ verb @ '' does not exist'' @ [CHR 0x0A])"

fun fm_step :: "fcall \<Rightarrow> fmodel \<Rightarrow> (fresult \<times> u8 list \<times> fmodel) option" where
  "fm_step (C_Open n) m =
    (if \<not> name_ok n \<or> INT_MAX \<le> fm_next m then None
     else if MAX_FILE_SIZE \<le> length (fm_files m) then Some (R_Fd (-1), [], m)
     else case fm_lookup n m of Some i \<Rightarrow> Some (R_Fd (fm_next m), mapped_msg, fm_bind i m)
      | None \<Rightarrow>
         if fm_free m = 0 then Some (R_Fd (-1), [], m)
         else if MAX_FILENAME \<le> length n then None
         else Some (R_Fd (fm_next m), mapped_msg, fm_bind (length (fm_files m))
                (m\<lparr>fm_files := fm_files m @ [Some (n, [])], fm_free := fm_free m - 1\<rparr>)))"
| "fm_step (C_Write_At fd i b) m =
    map_option (\<lambda>(r, m). (R_Bool r, [], m)) (fm_write fd (unat i) b m)"
| "fm_step (C_Append fd b) m =
    map_option (\<lambda>(r, m). (R_Bool r, [], m))
      (fm_write fd (case map_of (fm_open m) fd of None \<Rightarrow> 0
         | Some k \<Rightarrow> (case fm_files m ! k of None \<Rightarrow> 0 | Some (n, c) \<Rightarrow> length c)) b m)"
| "fm_step (C_Read fd) m =
    (case map_of (fm_open m) fd of None \<Rightarrow> Some (R_Unit, no_file_msg ''read'', m)
     | Some k \<Rightarrow> map_option (\<lambda>(n, c). (R_Unit, c, m)) (fm_files m ! k))"
| "fm_step (C_Rename old new) m =
    (if \<not> name_ok old \<or> 0 \<in> set new then None
     else case fm_lookup old m of None \<Rightarrow> Some (R_Bool False, [], m)
      | Some i \<Rightarrow>
         if MAX_FILENAME \<le> length new then None
         else Some (R_Bool True, [], m\<lparr>fm_files := (fm_files m)
                [i := map_option (\<lambda>(_, c). (new, c)) (fm_files m ! i)]\<rparr>))"
| "fm_step (C_Delete fd) m =
    (case map_of (fm_open m) fd of None \<Rightarrow> Some (R_Unit, no_file_msg ''delete'', m)
     | Some k \<Rightarrow> (case fm_files m ! k of None \<Rightarrow> None
        | Some (n, c) \<Rightarrow>
           if length c \<le> 124 \<and> list_all (\<lambda>(g, i). i = k \<longrightarrow> g = fd) (fm_open m)
           then Some (R_Unit, [], m\<lparr>fm_files := (fm_files m)[k := None],
                        fm_open := filter (\<lambda>p. fst p \<noteq> fd) (fm_open m)\<rparr>)
           else None))"

fun fm_run :: "fcall list \<Rightarrow> fmodel \<Rightarrow> (fresult list \<times> u8 list \<times> fmodel) option" where
  "fm_run [] m = Some ([], [], m)"
| "fm_run (c # cs) m = (case fm_step c m of None \<Rightarrow> None
     | Some (r, out, m) \<Rightarrow> map_option (\<lambda>(rs, out', m). (r # rs, out @ out', m)) (fm_run cs m))"

section \<open>The relation\<close>

definition fm_rel :: "fmodel \<Rightarrow> fs_state \<Rightarrow> bool" where
  "fm_rel m s \<longleftrightarrow> (\<exists>L ch fl. fs_ok L ch fl (map_of (fm_open m)) s
     \<and> length (fm_files m) = next_entry s
     \<and> (\<forall>i < next_entry s. fm_files m ! i =
          (if i \<in> L then Some (cstr (fe_name (entries s ! i)), content ch s i) else None))
     \<and> fm_next m = next_fd (fds s) \<and> fm_free m = length fl)"

text \<open>The pages of all descriptors to come are mapped.\<close>

definition fds_backed :: "fs_state \<Rightarrow> bool" where
  "fds_backed s \<longleftrightarrow> (\<forall>k. 0 \<le> k \<longrightarrow> k < INT_MAX \<longrightarrow> page_present (vm (fds s)) (fd_addr k))"

text \<open>Of the memory only the terminal has changed: every mapping is as before.\<close>

definition same_memory :: "mem_state \<Rightarrow> mem_state \<Rightarrow> bool" where
  "same_memory m m' \<longleftrightarrow> m' = m\<lparr>con := con m'\<rparr>"

lemma same_memoryI [simp]: "same_memory m m" "same_memory m (m\<lparr>con := c\<rparr>)"
  by (simp_all add: same_memory_def)

lemma same_memory_trans: "same_memory m m1 \<Longrightarrow> same_memory m1 m2 \<Longrightarrow> same_memory m m2"
  unfolding same_memory_def by (metis mem_state.surjective mem_state.update_convs(1))

definition step_ok :: "fcall \<Rightarrow> fs_state \<Rightarrow> fresult \<Rightarrow> u8 list \<Rightarrow> fmodel \<Rightarrow> bool" where
  "step_ok c s r out m' \<longleftrightarrow> (\<exists>s'. fs_step c s = Inr (r, s') \<and> fm_rel m' s' \<and> fds_backed s'
     \<and> puts term_putchar out (con (vm (fds s))) = Inr (con (vm (fds s'))) \<and> same_memory (vm (fds s)) (vm (fds s')))"

lemma fm_relI:
  assumes "fs_ok L ch fl (map_of (fm_open m)) s" and "length (fm_files m) = next_entry s"
    and "\<And>i. i < next_entry s \<Longrightarrow> fm_files m ! i =
          (if i \<in> L then Some (cstr (fe_name (entries s ! i)), content ch s i) else None)"
    and "fm_next m = next_fd (fds s)" and "fm_free m = length fl"
  shows "fm_rel m s"
  using assms unfolding fm_rel_def by blast

lemma fm_lookup_eq:
  assumes ok: "fs_ok L ch fl t s" and n: "n \<noteq> []" and len: "length (fm_files m) = next_entry s"
    and files: "\<forall>i < next_entry s. fm_files m ! i =
          (if i \<in> L then Some (cstr (fe_name (entries s ! i)), content ch s i) else None)"
  shows "fm_lookup n m = lookup s n"
  unfolding fm_lookup_def lookup_def len
proof (rule find_cong [OF refl])
  fix i assume "i \<in> set [0..<next_entry s]"
  then have i: "i < next_entry s" by simp
  show "(map_option fst (fm_files m ! i) = Some n) = (cstr (fe_name (entries s ! i)) = n)"
  proof (cases "i \<in> L")
    case False
    then have "cstr (fe_name (entries s ! i)) = []" using fs_okD(3) [OF ok] i by (simp add: handles_ok_def)
    then show ?thesis using files i False n by simp
  qed (use files i in simp)
qed

section \<open>Every call follows the model\<close>

lemma fm_relE:
  assumes "fm_rel m s"
  obtains L ch fl where "fs_ok L ch fl (map_of (fm_open m)) s" and "length (fm_files m) = next_entry s"
    and "\<forall>i < next_entry s. fm_files m ! i =
          (if i \<in> L then Some (cstr (fe_name (entries s ! i)), content ch s i) else None)"
    and "fm_next m = next_fd (fds s)" and "fm_free m = length fl"
  using assms unfolding fm_rel_def by blast

lemma backed_ready:
  assumes ok: "fs_ok L ch fl t s" and "fds_backed s" and "next_fd (fds s) < INT_MAX"
  shows "fd_ready (fds s)"
proof -
  have "fd_holds (fds s) t" "term_ok (con (vm (fds s)))" using fs_okD(3) [OF ok] by (simp_all add: handles_ok_def)
  then show ?thesis using assms(2,3) by (auto simp: fd_ready_def fd_holds_def fd_list_ok_def fds_backed_def)
qed

lemma backed_con: "vm (fds s') = (vm (fds s))\<lparr>con := c\<rparr> \<Longrightarrow> fds_backed s' = fds_backed s"
  by (simp add: fds_backed_def)

lemma backed_same: "vm (fds s') = vm (fds s) \<Longrightarrow> fds_backed s' = fds_backed s"
  by (simp add: fds_backed_def)

lemma live_file:
  assumes ok: "fs_ok L ch fl t s" and "t fd = Some k"
    and "\<forall>i < next_entry s. fm_files m ! i =
          (if i \<in> L then Some (cstr (fe_name (entries s ! i)), content ch s i) else None)"
  shows "fm_files m ! k = Some (cstr (fe_name (entries s ! k)), content ch s k)" and "k < next_entry s"
  using open_entry [OF ok assms(2)] live_entry(4) [OF ok open_entry [OF ok assms(2)]] assms(3) by auto

lemma step_open:
  assumes rel: "fm_rel m s" and backed: "fds_backed s" and step: "fm_step (C_Open n) m = Some (r, out, m')"
  shows "step_ok (C_Open n) s r out m'"
proof -
  obtain L ch fl where ok: "fs_ok L ch fl (map_of (fm_open m)) s" and len: "length (fm_files m) = next_entry s"
    and files: "\<forall>i < next_entry s. fm_files m ! i =
          (if i \<in> L then Some (cstr (fe_name (entries s ! i)), content ch s i) else None)"
    and nxt: "fm_next m = next_fd (fds s)" and free: "fm_free m = length fl" using rel by (rule fm_relE)
  have n: "name_ok n" "next_fd (fds s) < INT_MAX" using step nxt by (auto split: if_splits)
  have nm: "terminated (n @ [0])" "cstr (n @ [0]) = n" "n \<noteq> []"
    using n(1) cstr_of_literal [of n "[]"] by (simp_all add: name_ok_def)
  note ready = backed_ready [OF ok backed n(2)]
  note look = fm_lookup_eq [OF ok nm(3) len files]
  consider (full) "MAX_FILE_SIZE \<le> next_entry s"
    | (old) i where "next_entry s < MAX_FILE_SIZE" "lookup s n = Some i"
    | (noblock) "next_entry s < MAX_FILE_SIZE" "lookup s n = None" "fl = []"
    | (new) f fl' where "next_entry s < MAX_FILE_SIZE" "lookup s n = None" "fl = f # fl'"
    by (cases "lookup s n"; cases fl) fastforce+
  then show ?thesis
  proof cases
    case full
    then have "r = R_Fd (-1)" "out = []" "m' = m" using step n len nxt by auto
    then show ?thesis using full rel backed fs_open_full by (simp add: step_ok_def)
  next
    case old
    have i: "i \<in> L" using lookup_live [OF ok old(2) nm(3)] .
    have r: "r = R_Fd (next_fd (fds s))" "out = mapped_msg" "m' = fm_bind i m"
      using step n len nxt old look by auto
    obtain d c where d: "fs_open (n @ [0]) s = Inr (next_fd (fds s), s\<lparr>fds := d\<rparr>)"
      "fs_ok L ch fl ((map_of (fm_open m))(next_fd (fds s) \<mapsto> i)) (s\<lparr>fds := d\<rparr>)"
      "next_fd d = next_fd (fds s) + 1" "vm d = (vm (fds s))\<lparr>con := c\<rparr>"
      "puts term_putchar mapped_msg (con (vm (fds s))) = Inr c"
      using fs_open_existing [OF ok nm(1) old(1) _ i ready] old(2) nm(2) by auto
    have "fm_rel m' (s\<lparr>fds := d\<rparr>)"
    proof (rule fm_relI)
      show "fs_ok L ch fl (map_of (fm_open m')) (s\<lparr>fds := d\<rparr>)" using d(2) r(3) nxt by (simp add: fm_bind_def)
      show "fm_files m' ! j = (if j \<in> L then Some (cstr (fe_name (entries (s\<lparr>fds := d\<rparr>) ! j)), content ch (s\<lparr>fds := d\<rparr>) j) else None)"
        if "j < next_entry (s\<lparr>fds := d\<rparr>)" for j
        using files that r(3) by (simp add: fm_bind_def content_def)
    qed (use r(3) len nxt free d(3) in \<open>simp_all add: fm_bind_def\<close>)
    moreover have "fds_backed (s\<lparr>fds := d\<rparr>)" using backed backed_con [of "s\<lparr>fds := d\<rparr>" c s] d(4) by simp
    ultimately show ?thesis using d(1,4,5) r by (simp add: step_ok_def)
  next
    case noblock
    then have "r = R_Fd (-1)" "out = []" "m' = m" using step n len nxt look free by auto
    then show ?thesis using noblock rel backed fs_open_no_block [of L ch "map_of (fm_open m)" s "n @ [0]"] ok nm
      by (simp add: step_ok_def)
  next
    case new
    let ?m = "m\<lparr>fm_files := fm_files m @ [Some (n, [])], fm_free := fm_free m - 1\<rparr>" and ?e = "next_entry s"
    have fit: "length n < MAX_FILENAME" and r: "r = R_Fd (next_fd (fds s))" "out = mapped_msg"
      "m' = fm_bind ?e ?m"
      using step n len nxt look free new by (auto split: if_splits)
    have ok': "fs_ok L ch (f # fl') (map_of (fm_open m)) s" using ok new(3) by simp
    obtain nm' d c where d: "fs_open (n @ [0]) s = Inr (next_fd (fds s), opened nm' f d s)"
      "cstr nm' = n" "length nm' = MAX_FILENAME" "terminated nm'"
      "fd_holds d ((map_of (fm_open m))(next_fd (fds s) \<mapsto> ?e))" "map_of (fm_open m) (next_fd (fds s)) = None"
      "next_fd d = next_fd (fds s) + 1" "vm d = (vm (fds s))\<lparr>con := c\<rparr>" "term_ok c"
      "puts term_putchar mapped_msg (con (vm (fds s))) = Inr c"
      using fs_open_new [OF ok' nm(1) _ _ new(1) ready] nm(2) fit new(2) by auto
    have "term_ok (con (vm d))" using d(8,9) by simp
    note post = opened_ok [OF ok' new(1) d(3,4,5,6) this]
    have e: "?e \<notin> L" "?e < length (entries s)"
      using fs_okD(1,3) [OF ok] new(1) by (auto simp: handles_ok_def names_ok_def)
    have fields: "next_entry (opened nm' f d s) = ?e + 1" "fds (opened nm' f d s) = d"
        "entries (opened nm' f d s) ! j = (if j = ?e then \<lparr>fe_name = nm', start_index = of_nat f, file_size = 0\<rparr> else entries s ! j)" for j
      using e(2) by (simp_all add: opened_def)
    have "fm_rel m' (opened nm' f d s)"
    proof (rule fm_relI)
      show "fs_ok (insert ?e L) (ch(?e := [f])) fl' (map_of (fm_open m')) (opened nm' f d s)"
        using post(1) r(3) nxt by (simp add: fm_bind_def)
      show "fm_files m' ! j = (if j \<in> insert ?e L then Some (cstr (fe_name (entries (opened nm' f d s) ! j)),
            content (ch(?e := [f])) (opened nm' f d s) j) else None)"
        if "j < next_entry (opened nm' f d s)" for j
      proof (cases "j = ?e")
        case True
        then show ?thesis using post(2) r(3) len d(2) fields by (simp add: fm_bind_def nth_append)
      next
        case False
        then have "j < ?e" using that fields by simp
        then have "fm_files m' ! j = fm_files m ! j" using r(3) len by (simp add: fm_bind_def nth_append)
        then show ?thesis using files \<open>j < ?e\<close> False post(3) [of j] fields by auto
      qed
    qed (use r(3) len nxt free d(7) new(3) fields in \<open>simp_all add: fm_bind_def\<close>)
    moreover have "fds_backed (opened nm' f d s)"
      using backed backed_con [of "opened nm' f d s" c s] d(8) fields by simp
    ultimately show ?thesis using d(1,8,10) r fields by (simp add: step_ok_def)
  qed
qed

text \<open>The two kinds of write.\<close>

lemma length_splice_at: "i \<le> length c \<Longrightarrow> length (splice_at c i b) = max (length c) (i + length b)"
  by (simp add: splice_at_def)

lemma write_refines:
  assumes rel: "fm_rel m s" and backed: "fds_backed s" and step: "fm_write fd (unat i) b m = Some (r, m')"
  shows "\<exists>s'. fs_write_at fd i b (of_nat (length b)) s = Inr (r, s') \<and> fm_rel m' s' \<and> fds_backed s'
    \<and> vm (fds s') = vm (fds s)"
proof -
  obtain L ch fl where ok: "fs_ok L ch fl (map_of (fm_open m)) s" and len: "length (fm_files m) = next_entry s"
    and files: "\<forall>i < next_entry s. fm_files m ! i =
          (if i \<in> L then Some (cstr (fe_name (entries s ! i)), content ch s i) else None)"
    and nxt: "fm_next m = next_fd (fds s)" and free: "fm_free m = length fl" using rel by (rule fm_relE)
  show ?thesis
  proof (cases "map_of (fm_open m) fd")
    case None
    then show ?thesis using step rel backed fs_write_at_closed [OF ok] by (simp add: fm_write_def)
  next
    case (Some k)
    have k: "k \<in> L" using open_entry [OF ok Some] .
    note e = live_entry [OF ok k] and kfile = live_file [OF ok Some files]
    let ?c = "content ch s k" and ?z = "unat (file_size (entries s ! k))"
    have lc: "length ?c = ?z" using content_length [OF ok k] .
    show ?thesis
    proof (cases "?z < unat i")
      case True
      then have "r = False" "m' = m" using step Some kfile(1) lc by (simp_all add: fm_write_def)
      then show ?thesis using fs_write_at_gap [OF ok Some True] rel backed by simp
    next
      case False
      let ?c' = "splice_at ?c (unat i) b" and ?n = "(unat i + length b + 123) div 124"
      let ?need = "n_blocks (length ?c') - n_blocks (length ?c)"
      have r: "r = True" "?need \<le> length fl"
        "m' = m\<lparr>fm_files := (fm_files m)[k := Some (cstr (fe_name (entries s ! k)), ?c')], fm_free := fm_free m - ?need\<rparr>"
        using step Some kfile(1) lc False free by (simp_all add: fm_write_def Let_def split: if_splits)
      have c': "n_blocks (length ?c') = max (n_blocks ?z) ?n"
        using False lc by (simp add: length_splice_at n_blocks_max)
      have need: "?need = ?n - n_blocks ?z" using c' lc by simp
      have room: "?n \<le> n_blocks ?z + length fl" using need r(2) by linarith
      have small: "length b < 2 ^ 31"
        using room size_small(2) [OF ok k] n_blocks_enough [of "unat i + length b"]
        by (simp add: n_blocks_def max_def split: if_splits)
      then have sz: "unat (of_nat (length b) :: u64) = length b" by (intro unat_of_nat_small) simp
      have le: "unat i \<le> ?z" "unat (of_nat (length b) :: u64) \<le> length b" using False sz by simp_all
      obtain p bm where w: "fs_write_at fd i b (of_nat (length b)) s = Inr (True, written k (i + of_nat (length b)) p bm s)"
        and ok': "fs_ok L (ch(k := ch k @ take ?need fl)) (drop ?need fl) (map_of (fm_open m)) (written k (i + of_nat (length b)) p bm s)"
        and ck: "content (ch(k := ch k @ take ?need fl)) (written k (i + of_nat (length b)) p bm s) k = ?c'"
        and co: "\<forall>j\<in>L. j \<noteq> k \<longrightarrow> content (ch(k := ch k @ take ?need fl)) (written k (i + of_nat (length b)) p bm s) j = content ch s j"
        using fs_write_at_writes [OF ok Some le] room unfolding sz need [symmetric] Let_def by auto
      let ?s = "written k (i + of_nat (length b)) p bm s"
      have fields: "fds ?s = fds s" "next_entry ?s = next_entry s" by (simp_all add: written_def)
      have "fm_rel m' ?s"
      proof (rule fm_relI)
        show "fs_ok L (ch(k := ch k @ take ?need fl)) (drop ?need fl) (map_of (fm_open m')) ?s" using ok' r(3) by simp
        show "fm_files m' ! j = (if j \<in> L then Some (cstr (fe_name (entries ?s ! j)),
            content (ch(k := ch k @ take ?need fl)) ?s j) else None)" if "j < next_entry ?s" for j
        proof (cases "j = k")
          case True
          then show ?thesis using ck k r(3) that len fields written_names [OF e(1)] by simp
        next
          case False
          then show ?thesis using co files that fields r(3) written_names [OF e(1)] by simp
        qed
      qed (use r(3) len nxt free fields in simp_all)
      then show ?thesis using w r(1) backed backed_same [of ?s s] fields by auto
    qed
  qed
qed

lemma step_write:
  assumes "fm_rel m s" and "fds_backed s" and "fm_step (C_Write_At fd i b) m = Some (r, out, m')"
  shows "step_ok (C_Write_At fd i b) s r out m'"
  using assms write_refines [OF assms(1,2), of fd i b] by (fastforce simp: step_ok_def)

lemma step_append:
  assumes rel: "fm_rel m s" and backed: "fds_backed s" and step: "fm_step (C_Append fd b) m = Some (r, out, m')"
  shows "step_ok (C_Append fd b) s r out m'"
proof -
  obtain L ch fl where ok: "fs_ok L ch fl (map_of (fm_open m)) s"
    and files: "\<forall>i < next_entry s. fm_files m ! i =
          (if i \<in> L then Some (cstr (fe_name (entries s ! i)), content ch s i) else None)" using rel by (rule fm_relE)
  show ?thesis
  proof (cases "map_of (fm_open m) fd")
    case None
    then show ?thesis using step rel backed fs_append_eq [OF ok] by (simp add: fm_write_def step_ok_def)
  next
    case (Some k)
    have "fm_files m ! k = Some (cstr (fe_name (entries s ! k)), content ch s k)" using live_file(1) [OF ok Some files] .
    moreover have "length (content ch s k) = unat (file_size (entries s ! k))"
      using content_length [OF ok open_entry [OF ok Some]] .
    ultimately obtain r' where "fm_write fd (unat (file_size (entries s ! k))) b m = Some (r', m')" "r = R_Bool r'" "out = []"
      using step Some by auto
    then show ?thesis using write_refines [OF rel backed] fs_append_eq [OF ok] Some
      by (fastforce simp: step_ok_def)
  qed
qed

lemma warn_prints:
  assumes ok: "fs_ok L ch fl t s" and v: "verb = ''read'' \<or> verb = ''delete''"
  shows "\<exists>c. fs_print (c_lit (''WARNING: The file you are trying to '' @ verb @ '' does not exist'' @ [CHR 0x0A])) [] s
      = Inr (printed c s) \<and> term_ok c \<and> puts term_putchar (no_file_msg verb) (con (vm (fds s))) = Inr c"
proof -
  have tok: "term_ok (con (vm (fds s)))" using fs_okD(3) [OF ok] by (simp add: handles_ok_def)
  obtain c where c: "puts term_putchar (no_file_msg verb) (con (vm (fds s))) = Inr c" "term_ok c"
    using console.puts_ok [OF tok] by blast
  have "0 \<notin> set (no_file_msg verb)" "37 \<notin> set (no_file_msg verb)" using v by (auto simp: bytes_of_def)
  from fs_print_out [OF tok kfmt_plain [OF this]] c show ?thesis by (simp add: c_lit_def)
qed

lemma backed_printed [simp]: "fds_backed (printed c s) = fds_backed s"
  using backed_con [of "printed c s" c s] by (simp add: printed_def)

lemma printed_memory [simp]: "same_memory (vm (fds s)) (vm (fds (printed c s)))"
  by (simp add: printed_def)

lemma rel_printed: "fm_rel m s \<Longrightarrow> term_ok c \<Longrightarrow> fm_rel m (printed c s)"
  unfolding fm_rel_def using fs_ok_printed by (fastforce simp: content_def printed_def)

lemma step_read:
  assumes rel: "fm_rel m s" and backed: "fds_backed s" and step: "fm_step (C_Read fd) m = Some (r, out, m')"
  shows "step_ok (C_Read fd) s r out m'"
proof -
  obtain L ch fl where ok: "fs_ok L ch fl (map_of (fm_open m)) s"
    and files: "\<forall>i < next_entry s. fm_files m ! i =
          (if i \<in> L then Some (cstr (fe_name (entries s ! i)), content ch s i) else None)" using rel by (rule fm_relE)
  show ?thesis
  proof (cases "map_of (fm_open m) fd")
    case None
    obtain c where c: "fs_print (c_lit (''WARNING: The file you are trying to '' @ ''read'' @ '' does not exist'' @ [CHR 0x0A])) [] s
      = Inr (printed c s)" "term_ok c" "puts term_putchar (no_file_msg ''read'') (con (vm (fds s))) = Inr c"
      using warn_prints [OF ok, of "''read''"] by blast
    have "r = R_Unit" "out = no_file_msg ''read''" "m' = m" using step None by simp_all
    then show ?thesis using c None find_open [OF ok] rel_printed [OF rel c(2)] backed
      by (simp add: step_ok_def fs_read_def)
  next
    case (Some k)
    obtain c where c: "puts term_putchar (content ch s k) (con (vm (fds s))) = Inr c" "fs_read fd s = Inr (printed c s)"
      "fs_ok L ch fl (map_of (fm_open m)) (printed c s)"
      using fs_read_prints [OF ok Some] by blast
    have "term_ok c" using fs_okD(3) [OF c(3)] by (simp add: handles_ok_def)
    moreover have "r = R_Unit" "out = content ch s k" "m' = m"
      using step Some live_file(1) [OF ok Some files] by simp_all
    ultimately show ?thesis using c rel_printed [OF rel] backed by (simp add: step_ok_def)
  qed
qed

lemma step_rename:
  assumes rel: "fm_rel m s" and backed: "fds_backed s" and step: "fm_step (C_Rename old new) m = Some (r, out, m')"
  shows "step_ok (C_Rename old new) s r out m'"
proof -
  obtain L ch fl where ok: "fs_ok L ch fl (map_of (fm_open m)) s" and len: "length (fm_files m) = next_entry s"
    and files: "\<forall>i < next_entry s. fm_files m ! i =
          (if i \<in> L then Some (cstr (fe_name (entries s ! i)), content ch s i) else None)"
    and nxt: "fm_next m = next_fd (fds s)" and free: "fm_free m = length fl" using rel by (rule fm_relE)
  have n: "name_ok old" "0 \<notin> set new" using step by (auto split: if_splits)
  have nm: "terminated (old @ [0])" "cstr (old @ [0]) = old" "old \<noteq> []" "terminated (new @ [0])" "cstr (new @ [0]) = new"
    using n cstr_of_literal [of old "[]"] cstr_of_literal [of new "[]"] by (simp_all add: name_ok_def)
  note look = fm_lookup_eq [OF ok nm(3) len files]
  show ?thesis
  proof (cases "lookup s old")
    case None
    then have "r = R_Bool False" "out = []" "m' = m" using step n look by simp_all
    then show ?thesis using fs_rename_absent [OF ok nm(1)] None nm(2) rel backed by (simp add: step_ok_def)
  next
    case (Some i)
    have i: "i \<in> L" using lookup_live [OF ok Some nm(3)] .
    note e = live_entry [OF ok i]
    have fi: "fm_files m ! i = Some (cstr (fe_name (entries s ! i)), content ch s i)" using files e(4) i by simp
    have r: "r = R_Bool True" "out = []" "length new < MAX_FILENAME"
      "m' = m\<lparr>fm_files := (fm_files m)[i := Some (new, content ch s i)]\<rparr>"
      using step n look Some fi by (auto split: if_splits)
    let ?s = "\<lambda>nm. set_entry i ((entries s ! i)\<lparr>fe_name := nm\<rparr>) s"
    obtain nm' where w: "fs_rename (old @ [0]) (new @ [0]) s = Inr (True, ?s nm')" "cstr nm' = new"
      "fs_ok L ch fl (map_of (fm_open m)) (?s nm')" "\<forall>j. content ch (?s nm') j = content ch s j"
      using fs_rename_found [OF ok nm(1) _ i nm(4)] Some r(3) nm(2,5) by (auto simp: Let_def)
    have fields: "next_entry (?s nm') = next_entry s" "fds (?s nm') = fds s"
        "entries (?s nm') ! j = (if j = i then (entries s ! i)\<lparr>fe_name := nm'\<rparr> else entries s ! j)" for j
      using e(1) by (simp_all add: set_entry_def)
    have "fm_rel m' (?s nm')"
    proof (rule fm_relI)
      show "fs_ok L ch fl (map_of (fm_open m')) (?s nm')" using w(3) r(4) by simp
      show "fm_files m' ! j = (if j \<in> L then Some (cstr (fe_name (entries (?s nm') ! j)), content ch (?s nm') j) else None)"
        if "j < next_entry (?s nm')" for j
        using files that i len w(2,4) r(4) fields by (cases "j = i") simp_all
    qed (use r(4) len nxt free fields in simp_all)
    then show ?thesis using w(1) r(1,2) backed backed_same [of "?s nm'" s] fields by (simp add: step_ok_def)
  qed
qed

lemma step_delete:
  assumes rel: "fm_rel m s" and backed: "fds_backed s" and step: "fm_step (C_Delete fd) m = Some (r, out, m')"
  shows "step_ok (C_Delete fd) s r out m'"
proof -
  obtain L ch fl where ok: "fs_ok L ch fl (map_of (fm_open m)) s" and len: "length (fm_files m) = next_entry s"
    and files: "\<forall>i < next_entry s. fm_files m ! i =
          (if i \<in> L then Some (cstr (fe_name (entries s ! i)), content ch s i) else None)"
    and nxt: "fm_next m = next_fd (fds s)" and free: "fm_free m = length fl" using rel by (rule fm_relE)
  show ?thesis
  proof (cases "map_of (fm_open m) fd")
    case None
    obtain c where c: "fs_print (c_lit (''WARNING: The file you are trying to '' @ ''delete'' @ '' does not exist'' @ [CHR 0x0A])) [] s
      = Inr (printed c s)" "term_ok c" "puts term_putchar (no_file_msg ''delete'') (con (vm (fds s))) = Inr c"
      using warn_prints [OF ok, of "''delete''"] by blast
    have "r = R_Unit" "out = no_file_msg ''delete''" "m' = m" using step None by simp_all
    then show ?thesis using c None find_open [OF ok] rel_printed [OF rel c(2)] backed
      by (simp add: step_ok_def fs_delete_def)
  next
    case (Some k)
    note kfile = live_file [OF ok Some files]
    have k: "k \<in> L" using open_entry [OF ok Some] .
    have r: "r = R_Unit" "out = []" "length (content ch s k) \<le> 124" "list_all (\<lambda>(g, i). i = k \<longrightarrow> g = fd) (fm_open m)"
      "m' = m\<lparr>fm_files := (fm_files m)[k := None], fm_open := filter (\<lambda>p. fst p \<noteq> fd) (fm_open m)\<rparr>"
      using step Some kfile(1) by (auto split: if_splits)
    have one: "unat (file_size (entries s ! k)) \<le> 124" using r(3) content_length [OF ok k] by simp
    have only: "g = fd" if "map_of (fm_open m) g = Some k" for g
      using map_of_SomeD [OF that] r(4) by (auto simp: list_all_iff)
    obtain nm d where w: "fs_delete fd s = Inr (deleted k nm d s)" "vm d = vm (fds s)" "next_fd d = next_fd (fds s)"
      "fs_ok (L - {k}) ch fl ((map_of (fm_open m))(fd := None)) (deleted k nm d s)"
      "\<forall>i \<in> L - {k}. content ch (deleted k nm d s) i = content ch s i"
      using fs_delete_single [OF ok Some one only] by blast
    have fields: "next_entry (deleted k nm d s) = next_entry s" "fds (deleted k nm d s) = d"
        "j \<noteq> k \<Longrightarrow> entries (deleted k nm d s) ! j = entries s ! j" for j
      by (simp_all add: deleted_def)
    have "fm_rel m' (deleted k nm d s)"
    proof (rule fm_relI)
      show "fs_ok (L - {k}) ch fl (map_of (fm_open m')) (deleted k nm d s)"
        using w(4) r(5) by (simp add: map_of_without)
      show "fm_files m' ! j = (if j \<in> L - {k} then Some (cstr (fe_name (entries (deleted k nm d s) ! j)),
          content ch (deleted k nm d s) j) else None)" if "j < next_entry (deleted k nm d s)" for j
        using files that len w(5) r(5) fields by (cases "j = k") simp_all
    qed (use r(5) len nxt free fields w(3) in simp_all)
    then show ?thesis using w(1,2) r(1,2) backed backed_same [of "deleted k nm d s" s] fields by (simp add: step_ok_def)
  qed
qed

lemma fs_step_refines:
  assumes "fm_rel m s" and "fds_backed s" and "fm_step c m = Some (r, out, m')"
  shows "step_ok c s r out m'"
  using assms by (cases c)
    (blast intro: step_open step_write step_append step_read step_rename step_delete)+

lemma fs_run_follows:
  "fm_rel m s \<Longrightarrow> fds_backed s \<Longrightarrow> fm_run cs m = Some (rs, out, m') \<Longrightarrow>
   \<exists>s'. fs_run cs s = Inr (rs, s') \<and> fm_rel m' s' \<and> fds_backed s'
     \<and> puts term_putchar out (con (vm (fds s))) = Inr (con (vm (fds s'))) \<and> same_memory (vm (fds s)) (vm (fds s'))"
proof (induction cs arbitrary: m s rs out)
  case (Cons c cs)
  then obtain r out1 m1 rs2 out2 where m1: "fm_step c m = Some (r, out1, m1)" "fm_run cs m1 = Some (rs2, out2, m')"
    and res: "rs = r # rs2" "out = out1 @ out2" by (auto split: option.splits prod.splits)
  from fs_step_refines [OF Cons.prems(1,2) m1(1)] obtain s1 where s1: "fs_step c s = Inr (r, s1)"
    "fm_rel m1 s1" "fds_backed s1" "puts term_putchar out1 (con (vm (fds s))) = Inr (con (vm (fds s1)))"
    "same_memory (vm (fds s)) (vm (fds s1))"
    unfolding step_ok_def by blast
  from Cons.IH [OF s1(2,3) m1(2)] obtain s' where "fs_run cs s1 = Inr (rs2, s')" "fm_rel m' s'" "fds_backed s'"
    "puts term_putchar out2 (con (vm (fds s1))) = Inr (con (vm (fds s')))"
    "same_memory (vm (fds s1)) (vm (fds s'))" by blast
  then show ?case using s1 res same_memory_trans [OF s1(5)] by (auto simp: console.puts_append)
qed simp

section \<open>From mounting on\<close>

definition fm_empty :: fmodel where
  "fm_empty = \<lparr>fm_files = [], fm_open = [], fm_next = 0, fm_free = 129\<rparr>"

lemma fs_init_mounts:
  assumes "init_state s" and "region_present (vm (fds s))" and "next_fd (fds s) = 0"
  shows "\<exists>s' c. fs_init s = Inr s' \<and> fm_rel fm_empty s' \<and> vm (fds s') = (vm (fds s))\<lparr>con := c\<rparr>"
proof -
  obtain s' c where s': "fs_init s = Inr s'" "fs_ok {} (\<lambda>_. []) (rev (map (\<lambda>i. 32 * i) [0..<129])) Map.empty s'"
    "next_entry s' = 0" "next_fd (fds s') = 0" "vm (fds s') = (vm (fds s))\<lparr>con := c\<rparr>"
    using fs_init_ok [OF assms(1,2), of "\<lambda>_. []"] assms(3) by auto
  have "fm_rel fm_empty s'"
  proof (rule fm_relI)
    show "fs_ok {} (\<lambda>_. []) (rev (map (\<lambda>i. 32 * i) [0..<129])) (map_of (fm_open fm_empty)) s'"
      using s'(2) by (simp add: fm_empty_def)
    show "fm_free fm_empty = length (rev (map (\<lambda>i. 32 * i) [0..<129::nat]))"
      by (simp only: length_rev length_map length_upt) (simp add: fm_empty_def)
  qed (use s'(3,4) in \<open>simp_all add: fm_empty_def\<close>)
  then show ?thesis using s'(1,5) by blast
qed

lemma fs_init_rel:
  assumes "init_state s" and "region_present (vm (fds s))" and "next_fd (fds s) = 0" and "fds_backed s"
  shows "\<exists>s'. fs_init s = Inr s' \<and> fm_rel fm_empty s' \<and> fds_backed s'"
  using fs_init_mounts [OF assms(1-3)] backed_con assms(4) by blast

text \<open>Of the memory, only the terminal matters to the relation.\<close>

lemma rel_vm:
  assumes "fm_rel m s" and "term_ok (con v)"
  shows "fm_rel m (s\<lparr>fds := (fds s)\<lparr>vm := v\<rparr>\<rparr>)"
proof -
  have "fs_ok L ch fl t (s\<lparr>fds := (fds s)\<lparr>vm := v\<rparr>\<rparr>)" if "fs_ok L ch fl t s" for L ch fl t
    using that assms(2)
    by (simp add: fs_ok_def names_ok_def blocks_ok_def mounted_def handles_ok_def fd_holds_def fd_list_ok_def)
  then show ?thesis using assms(1) unfolding fm_rel_def by (fastforce simp: content_def)
qed

end
