(* ===== verification/Keyboard.thy ===== *)
theory Keyboard
  imports Kprint
begin

text \<open>
  The keyboard: the interrupt handler and the circular buffer of \<^verbatim>\<open>src/kernel/interrupts.c\<close>
  (\<open>keyboard_handler\<close>, \<open>kgetc\<close>). The indices and the count are \<open>int\<close> in the code and stay
  between 0 and 1000, as \<open>kbd_ok\<close> says; they are \<open>nat\<close> here. The scan code is what a read of
  port \<open>0x60\<close> yields; ports belong to the terminal state, which logs the port accesses.

  Here the handler runs while \<open>kgetc\<close> waits, and the three statements after the wait are one
  operation, \<open>buffer_get\<close>. \<open>Interrupts\<close> takes them one by one, with the handler between them.
\<close>

section \<open>State and operations\<close>

abbreviation "IO_BUFFER_SIZE \<equiv> (1000 :: nat)"

record kbd_state =
  iobuffer :: "u8 list"
  read_val :: nat
  write_val :: nat
  iobuffer_count :: nat
  left_shift_flag :: bool
  right_shift_flag :: bool

definition key_table :: "u8 list" where
  "key_table = bytes_of (''**1234567890-='' @ [CHR 0x08, CHR 0x09] @ ''qwertyuiop[]''
     @ [CHR 0x0A] @ ''*asdfghjkl;'' @ [CHR 0x27] @ ''`*'' @ [CHR 0x5C] @ ''zxcvbnm,./*'' @ ''** *'')"

definition key_table_caps :: "u8 list" where
  "key_table_caps = bytes_of (''..!@#$%^&*()_+'' @ [CHR 0x08, CHR 0x09] @ ''QWERTYUIOP{}''
     @ [CHR 0x0A] @ ''.ASDFGHJKL:'' @ [CHR 0x22] @ ''~.|'' @ ''ZXCVBNM<>?.'' @ ''.. .'')"

text \<open>\<open>iobuffer[write_val++] = c; write_val %= IO_BUFFER_SIZE; iobuffer_count++\<close>\<close>

definition buffer_put :: "u8 \<Rightarrow> kbd_state \<Rightarrow> kbd_state res" where
  "buffer_put c k =
    (if write_val k < length (iobuffer k) then
       Inr (k\<lparr>iobuffer := (iobuffer k)[write_val k := c],
              write_val := (write_val k + 1) mod IO_BUFFER_SIZE,
              iobuffer_count := iobuffer_count k + 1\<rparr>)
     else Inl Overrun)"

definition table_at :: "u8 list \<Rightarrow> u8 \<Rightarrow> u8 res" where
  "table_at t code = (if unat code < length t then Inr (t ! unat code) else Inl Overrun)"

definition keyboard_handler :: "term_state \<times> kbd_state \<Rightarrow> (term_state \<times> kbd_state) res" where
  "keyboard_handler = (\<lambda>(c, k).
    (let code = inb 0x60 (tports c) in
     bindE (if code = 0x2A then Inr (c, k\<lparr>left_shift_flag := True\<rparr>)
       else if code = 0x36 then Inr (c, k\<lparr>right_shift_flag := True\<rparr>)
       else if code = 0xAA then Inr (c, k\<lparr>left_shift_flag := False\<rparr>)
       else if code = 0xB6 then Inr (c, k\<lparr>right_shift_flag := False\<rparr>)
       else if code > 0x3A then Inr (c, k)
       else if iobuffer_count k = IO_BUFFER_SIZE then
         map_res (\<lambda>c. (c, k)) (kprintf (c_lit ''Buffer is full'') [] c)
       else if left_shift_flag k \<or> right_shift_flag k then
         bindE (table_at key_table_caps code) (\<lambda>x. map_res (Pair c) (buffer_put x k))
       else bindE (table_at key_table code) (\<lambda>x. map_res (Pair c) (buffer_put x k)))
     (\<lambda>(c, k). Inr (term_outb PIC1_COMMAND PIC_EOI c, k))))"

text \<open>The statements of \<open>kgetc\<close> after its wait; \<open>None\<close> while the count is zero.\<close>

definition buffer_get :: "kbd_state \<Rightarrow> (u8 \<times> kbd_state) option" where
  "buffer_get k =
    (if iobuffer_count k = 0 then None
     else Some (iobuffer k ! read_val k,
       k\<lparr>read_val := (read_val k + 1) mod IO_BUFFER_SIZE, iobuffer_count := iobuffer_count k - 1\<rparr>))"

text \<open>
  \<open>kgetc\<close> with the key presses that arrive while it waits: each is one run of the handler
  with that scan code at the port. Without a further key it waits for ever.
\<close>

definition key_event :: "u8 \<Rightarrow> term_state \<Rightarrow> term_state" where
  "key_event code c = c\<lparr>tports := (tports c)\<lparr>port_in := (port_in (tports c))(0x60 := code)\<rparr>\<rparr>"

fun kgetc :: "u8 list \<Rightarrow> term_state \<times> kbd_state \<Rightarrow> (u8 \<times> u8 list \<times> term_state \<times> kbd_state) res" where
  "kgetc keys (c, k) = (case buffer_get k of
     Some (x, k) \<Rightarrow> Inr (x, keys, c, k)
   | None \<Rightarrow> (case keys of [] \<Rightarrow> Inl No_Return
      | code # keys \<Rightarrow> bindE (keyboard_handler (key_event code c, k)) (kgetc keys)))"

declare kgetc.simps [simp del]

section \<open>The buffer as a queue\<close>

text \<open>
  A bounded queue of bytes: \<open>items\<close> is what it holds, oldest first. The two laws, and what
  they give: what is put comes out in the same order.
\<close>

locale byte_queue =
  fixes put :: "'a \<Rightarrow> 's \<Rightarrow> 's res" and get :: "'s \<Rightarrow> ('a \<times> 's) option"
    and inv :: "'s \<Rightarrow> bool" and items :: "'s \<Rightarrow> 'a list" and cap :: nat
  assumes put_law: "inv s \<Longrightarrow> length (items s) < cap \<Longrightarrow> \<exists>s'. put x s = Inr s' \<and> inv s' \<and> items s' = items s @ [x]"
    and get_law: "inv s \<Longrightarrow> (case items s of [] \<Rightarrow> get s = None
      | x # xs \<Rightarrow> \<exists>s'. get s = Some (x, s') \<and> inv s' \<and> items s' = xs)"
begin

primrec put_all :: "'a list \<Rightarrow> 's \<Rightarrow> 's res" where
  "put_all [] s = Inr s"
| "put_all (x # xs) s = bindE (put x s) (put_all xs)"

primrec get_n :: "nat \<Rightarrow> 's \<Rightarrow> ('a list \<times> 's) option" where
  "get_n 0 s = Some ([], s)"
| "get_n (Suc n) s = (case get s of None \<Rightarrow> None
     | Some (x, s) \<Rightarrow> map_option (\<lambda>(xs, s). (x # xs, s)) (get_n n s))"

lemma put_all_items:
  "inv s \<Longrightarrow> length (items s) + length xs \<le> cap \<Longrightarrow> \<exists>s'. put_all xs s = Inr s' \<and> inv s' \<and> items s' = items s @ xs"
proof (induction xs arbitrary: s)
  case (Cons x xs)
  then obtain t where t: "put x s = Inr t" "inv t" "items t = items s @ [x]"
    using put_law [of s x] by auto
  then show ?case using Cons.IH [of t] Cons.prems by simp
qed simp

lemma get_n_items:
  "inv s \<Longrightarrow> n \<le> length (items s) \<Longrightarrow> \<exists>s'. get_n n s = Some (take n (items s), s') \<and> inv s' \<and> items s' = drop n (items s)"
proof (induction n arbitrary: s)
  case (Suc n)
  then obtain x xs where items: "items s = x # xs" by (cases "items s") auto
  then obtain t where "get s = Some (x, t)" "inv t" "items t = xs" using get_law [OF Suc.prems(1)] by auto
  then show ?case using Suc.IH [of t] Suc.prems items by auto
qed simp

text \<open>First in, first out, around the end of the buffer as well.\<close>

lemma fifo:
  assumes "inv s" and "length (items s) + length xs \<le> cap"
  shows "\<exists>t u. put_all xs s = Inr t \<and> get_n (length (items s) + length xs) t = Some (items s @ xs, u)
    \<and> inv u \<and> items u = []"
proof -
  obtain t where t: "put_all xs s = Inr t" "inv t" "items t = items s @ xs"
    using put_all_items [OF assms] by blast
  then show ?thesis using get_n_items [of t "length (items s) + length xs"] by simp
qed

end

definition kbd_ok :: "kbd_state \<Rightarrow> bool" where
  "kbd_ok k \<longleftrightarrow> length (iobuffer k) = IO_BUFFER_SIZE \<and> read_val k < IO_BUFFER_SIZE
     \<and> iobuffer_count k \<le> IO_BUFFER_SIZE
     \<and> write_val k = (read_val k + iobuffer_count k) mod IO_BUFFER_SIZE"

definition kbd_items :: "kbd_state \<Rightarrow> u8 list" where
  "kbd_items k = map (\<lambda>j. iobuffer k ! ((read_val k + j) mod IO_BUFFER_SIZE)) [0..<iobuffer_count k]"

lemma length_kbd_items [simp]: "length (kbd_items k) = iobuffer_count k"
  by (simp add: kbd_items_def)

text \<open>Positions at distance less than the size from the read index are distinct.\<close>

lemma ring_distinct:
  assumes "i < j" and "j < n + i" and "0 < (n :: nat)"
  shows "(r + i) mod n \<noteq> (r + j) mod n"
proof
  assume "(r + i) mod n = (r + j) mod n"
  then have "n dvd (r + j) - (r + i)" using assms(1) by (subst mod_eq_dvd_iff_nat [symmetric]) auto
  then show False using assms by (auto dest!: dvd_imp_le)
qed

lemma buffer_put_ok:
  assumes "kbd_ok k" and "iobuffer_count k < IO_BUFFER_SIZE"
  shows "\<exists>k'. buffer_put x k = Inr k' \<and> kbd_ok k' \<and> kbd_items k' = kbd_items k @ [x]
    \<and> left_shift_flag k' = left_shift_flag k \<and> right_shift_flag k' = right_shift_flag k"
proof -
  let ?w = "(read_val k + iobuffer_count k) mod IO_BUFFER_SIZE"
  have w: "write_val k = ?w" "length (iobuffer k) = 1000" using assms(1) by (simp_all add: kbd_ok_def)
  have other: "?w \<noteq> (read_val k + j) mod IO_BUFFER_SIZE" if "j < iobuffer_count k" for j
    using ring_distinct [of j "iobuffer_count k" IO_BUFFER_SIZE "read_val k"] that assms(2) by simp
  let ?k = "k\<lparr>iobuffer := (iobuffer k)[write_val k := x], write_val := (write_val k + 1) mod IO_BUFFER_SIZE,
      iobuffer_count := iobuffer_count k + 1\<rparr>"
  have "buffer_put x k = Inr ?k" using w by (simp add: buffer_put_def)
  moreover have "kbd_ok ?k" using assms w by (simp add: kbd_ok_def mod_Suc_eq)
  moreover have "kbd_items ?k = kbd_items k @ [x]"
  proof -
    have "map (\<lambda>j. ((iobuffer k)[write_val k := x]) ! ((read_val k + j) mod IO_BUFFER_SIZE)) [0..<iobuffer_count k]
        = kbd_items k"
      unfolding kbd_items_def w(1) using other by (intro map_cong) auto
    then show ?thesis using w by (simp add: kbd_items_def)
  qed
  ultimately show ?thesis by simp
qed

lemma buffer_get_ok:
  assumes "kbd_ok k"
  shows "case kbd_items k of [] \<Rightarrow> buffer_get k = None
    | x # xs \<Rightarrow> \<exists>k'. buffer_get k = Some (x, k') \<and> kbd_ok k' \<and> kbd_items k' = xs
        \<and> left_shift_flag k' = left_shift_flag k \<and> right_shift_flag k' = right_shift_flag k"
proof (cases "iobuffer_count k")
  case 0
  then show ?thesis by (simp add: kbd_items_def buffer_get_def)
next
  case (Suc n)
  let ?k = "k\<lparr>read_val := (read_val k + 1) mod IO_BUFFER_SIZE, iobuffer_count := n\<rparr>"
  have r: "read_val k < IO_BUFFER_SIZE" using assms by (simp add: kbd_ok_def)
  have "[0..<Suc n] = 0 # map Suc [0..<n]" by (simp add: map_Suc_upt upt_conv_Cons)
  then have items: "kbd_items k = iobuffer k ! read_val k # kbd_items ?k"
    using Suc r by (simp add: kbd_items_def mod_add_left_eq del: upt_Suc)
  moreover have "kbd_ok ?k" using assms Suc by (simp add: kbd_ok_def mod_add_left_eq)
  moreover have "buffer_get k = Some (iobuffer k ! read_val k, ?k)" using Suc by (simp add: buffer_get_def)
  ultimately show ?thesis by simp
qed

interpretation kbd: byte_queue buffer_put buffer_get kbd_ok kbd_items IO_BUFFER_SIZE
proof unfold_locales
  show "kbd_ok s \<Longrightarrow> length (kbd_items s) < IO_BUFFER_SIZE \<Longrightarrow>
      \<exists>s'. buffer_put x s = Inr s' \<and> kbd_ok s' \<and> kbd_items s' = kbd_items s @ [x]" for s x
    using buffer_put_ok [of s x] by auto
  show "kbd_ok s \<Longrightarrow> (case kbd_items s of [] \<Rightarrow> buffer_get s = None
      | x # xs \<Rightarrow> \<exists>s'. buffer_get s = Some (x, s') \<and> kbd_ok s' \<and> kbd_items s' = xs)" for s
    using buffer_get_ok [of s] by (auto split: list.splits)
qed

section \<open>The handler and its specification\<close>

text \<open>What one scan code means: the new state of the two shift keys, and the character, if any.\<close>

fun scan :: "bool \<times> bool \<Rightarrow> u8 \<Rightarrow> (bool \<times> bool) \<times> u8 option" where
  "scan (l, r) code =
    (if code = 0x2A then ((True, r), None) else if code = 0x36 then ((l, True), None)
     else if code = 0xAA then ((False, r), None) else if code = 0xB6 then ((l, False), None)
     else if code > 0x3A then ((l, r), None)
     else ((l, r), Some ((if l \<or> r then key_table_caps else key_table) ! unat code)))"

definition shifts :: "kbd_state \<Rightarrow> bool \<times> bool" where
  "shifts k = (left_shift_flag k, right_shift_flag k)"

lemma table_lengths: "length key_table = 59" "length key_table_caps = 59"
  by (simp_all add: key_table_def key_table_caps_def bytes_of_def)

lemma table_at_ok: "\<not> code > 0x3A \<Longrightarrow> length t = 59 \<Longrightarrow> table_at t code = Inr (t ! unat code)"
  by (simp add: table_at_def word_less_nat_alt not_less)

lemma key_event_fields [simp]: "term_ok (key_event code c) = term_ok c" "inb 0x60 (tports (key_event code c)) = code"
  by (simp_all add: key_event_def term_ok_def inb_def)

lemma term_ok_outb [simp]: "term_ok (term_outb p v c) = term_ok c"
  by (simp add: term_ok_def)

text \<open>What a key press does to the keyboard's state.\<close>

definition with_shifts :: "bool \<times> bool \<Rightarrow> kbd_state \<Rightarrow> kbd_state" where
  "with_shifts sh k = k\<lparr>left_shift_flag := fst sh, right_shift_flag := snd sh\<rparr>"

definition accepted :: "u8 \<Rightarrow> kbd_state \<Rightarrow> u8 list" where
  "accepted code k = (case snd (scan (shifts k) code) of None \<Rightarrow> []
     | Some x \<Rightarrow> if iobuffer_count k = IO_BUFFER_SIZE then [] else [x])"

definition enqueue :: "u8 list \<Rightarrow> kbd_state \<Rightarrow> kbd_state" where
  "enqueue xs k = (case xs of [] \<Rightarrow> k
     | x # _ \<Rightarrow> k\<lparr>iobuffer := (iobuffer k)[write_val k := x], write_val := (write_val k + 1) mod IO_BUFFER_SIZE,
          iobuffer_count := iobuffer_count k + 1\<rparr>)"

definition pressed :: "u8 \<Rightarrow> kbd_state \<Rightarrow> kbd_state" where
  "pressed code k = with_shifts (fst (scan (shifts k) code)) (enqueue (accepted code k) k)"

lemma with_shifts_simps [simp]:
  "kbd_ok (with_shifts sh k) = kbd_ok k" "kbd_items (with_shifts sh k) = kbd_items k"
  "shifts (with_shifts sh k) = sh" "iobuffer_count (with_shifts sh k) = iobuffer_count k"
  "length (iobuffer (with_shifts sh k)) = length (iobuffer k)" "write_val (with_shifts sh k) = write_val k"
  by (simp_all add: with_shifts_def kbd_ok_def kbd_items_def shifts_def)

lemma with_same_shifts [simp]: "with_shifts (shifts k) k = k"
  by (simp add: with_shifts_def shifts_def)

lemma handler_pressed:
  assumes "term_ok c" and code: "inb 0x60 (tports c) = code" and "length (iobuffer k) = IO_BUFFER_SIZE" and "write_val k < IO_BUFFER_SIZE"
  shows "\<exists>c'. keyboard_handler (c, k) = Inr (c', pressed code k) \<and> term_ok c'"
proof -
  consider (shift) "code \<in> {0x2A, 0x36, 0xAA, 0xB6}" | (other) "code \<notin> {0x2A, 0x36, 0xAA, 0xB6}" "code > 0x3A"
    | (full) "code \<notin> {0x2A, 0x36, 0xAA, 0xB6}" "\<not> code > 0x3A" "iobuffer_count k = IO_BUFFER_SIZE"
    | (key) "code \<notin> {0x2A, 0x36, 0xAA, 0xB6}" "\<not> code > 0x3A" "iobuffer_count k \<noteq> IO_BUFFER_SIZE" by blast
  then show ?thesis
  proof cases
    case full
    have "kfmt (c_lit ''Buffer is full'') [] = Inr (bytes_of ''Buffer is full'')"
      unfolding c_lit_def by (rule kfmt_plain) (auto simp: bytes_of_def)
    then obtain c' where "kprintf (c_lit ''Buffer is full'') [] c = Inr c'" "term_ok c'"
      using kprintf_ok [OF assms(1)] by blast
    then show ?thesis using full assms
      by (auto simp: keyboard_handler_def pressed_def accepted_def enqueue_def shifts_def with_shifts_def)
  next
    case key
    then show ?thesis using assms
      by (auto simp: keyboard_handler_def pressed_def accepted_def enqueue_def shifts_def with_shifts_def
          buffer_put_def table_at_ok table_lengths Let_def)
  qed (use assms in \<open>auto simp: keyboard_handler_def pressed_def accepted_def enqueue_def shifts_def with_shifts_def\<close>)
qed

lemma enqueue_ok:
  assumes "kbd_ok k" and "xs = [] \<or> iobuffer_count k < IO_BUFFER_SIZE \<and> length xs = 1"
  shows "kbd_ok (enqueue xs k)" and "kbd_items (enqueue xs k) = kbd_items k @ xs"
proof -
  have "kbd_ok (enqueue xs k) \<and> kbd_items (enqueue xs k) = kbd_items k @ xs"
  proof (cases xs)
    case (Cons x ys)
    then have "iobuffer_count k < IO_BUFFER_SIZE" "ys = []" using assms(2) by auto
    moreover have "buffer_put x k = Inr (enqueue xs k)"
    proof -
      have "write_val k < length (iobuffer k)" using assms(1) by (simp add: kbd_ok_def)
      then show ?thesis using Cons by (simp add: buffer_put_def enqueue_def)
    qed
    ultimately show ?thesis using buffer_put_ok [OF assms(1), of x] Cons by auto
  qed (use assms(1) in \<open>simp_all add: enqueue_def\<close>)
  then show "kbd_ok (enqueue xs k)" and "kbd_items (enqueue xs k) = kbd_items k @ xs" by blast+
qed

lemma accepted_cases: "accepted code k = [] \<or> iobuffer_count k \<noteq> IO_BUFFER_SIZE \<and> length (accepted code k) = 1"
  by (auto simp: accepted_def split: option.splits)

text \<open>A key press: the shift keys follow, a character is queued if there is room and dropped
  (with a message) if there is none.\<close>

lemma keyboard_handler_ok:
  assumes "kbd_ok k" and "term_ok c" and code: "inb 0x60 (tports c) = code"
  shows "\<exists>c' k'. keyboard_handler (c, k) = Inr (c', k') \<and> kbd_ok k' \<and> term_ok c'
    \<and> shifts k' = fst (scan (shifts k) code)
    \<and> kbd_items k' = kbd_items k @ (case snd (scan (shifts k) code) of None \<Rightarrow> []
         | Some x \<Rightarrow> if iobuffer_count k = IO_BUFFER_SIZE then [] else [x])"
proof -
  have k: "length (iobuffer k) = IO_BUFFER_SIZE" "write_val k < IO_BUFFER_SIZE" "iobuffer_count k \<le> IO_BUFFER_SIZE"
    using assms(1) by (simp_all add: kbd_ok_def)
  then have "accepted code k = [] \<or> iobuffer_count k < IO_BUFFER_SIZE \<and> length (accepted code k) = 1"
    using accepted_cases [of code k] by auto
  from enqueue_ok [OF assms(1) this] have "kbd_ok (pressed code k)" "kbd_items (pressed code k) = kbd_items k @ accepted code k"
    "shifts (pressed code k) = fst (scan (shifts k) code)" by (simp_all add: pressed_def)
  then show ?thesis using handler_pressed [OF assms(2) code k(1,2)] by (auto simp: accepted_def)
qed

section \<open>Typed characters\<close>

text \<open>The characters a sequence of scan codes types, and the shift state after it.\<close>

fun typed :: "bool \<times> bool \<Rightarrow> u8 list \<Rightarrow> u8 list" where
  "typed sh [] = []"
| "typed sh (code # codes) = (case scan sh code of (sh', None) \<Rightarrow> typed sh' codes
     | (sh', Some x) \<Rightarrow> x # typed sh' codes)"

text \<open>
  \<open>kgetc\<close> returns the next character of the stream made of what is queued and what is then
  typed, whatever the keys between.
\<close>

lemma kgetc_next:
  "kbd_ok k \<Longrightarrow> term_ok c \<Longrightarrow> kbd_items k @ typed (shifts k) keys = x # xs \<Longrightarrow>
   \<exists>keys' c' k'. kgetc keys (c, k) = Inr (x, keys', c', k') \<and> kbd_ok k' \<and> term_ok c'
     \<and> kbd_items k' @ typed (shifts k') keys' = xs"
proof (induction keys arbitrary: c k)
  case Nil
  then have "kbd_items k = x # xs" by simp
  then obtain k' where "buffer_get k = Some (x, k')" "kbd_ok k'" "kbd_items k' = xs" "shifts k' = shifts k"
    using buffer_get_ok [OF Nil.prems(1)] by (auto simp: shifts_def)
  then show ?case using Nil.prems(2) by (simp add: kgetc.simps)
next
  case (Cons code keys)
  show ?case
  proof (cases "kbd_items k")
    case (Cons y ys)
    then obtain k' where "buffer_get k = Some (y, k')" "kbd_ok k'" "kbd_items k' = ys" "shifts k' = shifts k"
      using buffer_get_ok [OF Cons.prems(1)] by (auto simp: shifts_def)
    then show ?thesis using Cons Cons.prems(2,3) by (simp add: kgetc.simps)
  next
    case Nil
    then have empty: "buffer_get k = None" "iobuffer_count k = 0"
      using buffer_get_ok [OF Cons.prems(1)] length_kbd_items [of k] by simp_all
    have ev: "term_ok (key_event code c)" "inb 0x60 (tports (key_event code c)) = code" using Cons.prems(2) by simp_all
    obtain c' k' where h: "keyboard_handler (key_event code c, k) = Inr (c', k')" "kbd_ok k'" "term_ok c'"
      "shifts k' = fst (scan (shifts k) code)"
      "kbd_items k' = (case snd (scan (shifts k) code) of None \<Rightarrow> [] | Some x \<Rightarrow> [x])"
      using keyboard_handler_ok [OF Cons.prems(1) ev] Nil empty(2) by (auto split: option.splits)
    obtain sh r where sc: "scan (shifts k) code = (sh, r)" by (cases "scan (shifts k) code") auto
    have "kbd_items k' @ typed (shifts k') keys = typed (shifts k) (code # keys)"
      using h(4,5) sc by (simp split: option.splits)
    then have "kbd_items k' @ typed (shifts k') keys = x # xs" using Cons.prems(3) Nil by simp
    from Cons.IH [OF h(2,3) this] show ?thesis using empty(1) h(1) by (simp add: kgetc.simps [of "code # keys"])
  qed
qed

end
