(* ===== verification/Spaces.thy ===== *)
theory Spaces
  imports Paging "HOL-Library.Sublist"
begin

text \<open>
  Address spaces: the invariant of memory that \<open>vm_map\<close> (\<^verbatim>\<open>src/kernel/memory.c\<close>) keeps, for a set of
  addresses. Tables are one level apart and not free; \<open>blank_leaves\<close> says that no last-level
  entry names a frame; \<open>owned\<close> that no table serves two parts of the address space, so that a
  mapping makes one page present and no other.
\<close>

section \<open>An invariant for a whole address space\<close>

text \<open>
  \<open>lev\<close> gives every page-table page its level (4 for the root, 1 for the last; 0 for other
  pages). \<open>lev_ok\<close>: the tables the address meets are page-aligned, not free, and one level
  apart. \<open>vm_inv A\<close> is the invariant of the memory state for the addresses of \<open>A\<close> in the
  address space that \<open>cr3\<close> selects.
\<close>

fun lev_ok :: "mem_state \<Rightarrow> (u64 \<Rightarrow> nat) \<Rightarrow> u64 set \<Rightarrow> nat list \<Rightarrow> u64 \<Rightarrow> u64 \<Rightarrow> bool" where
  "lev_ok s lev free [] a t \<longleftrightarrow> aligned t \<and> t \<notin> free \<and> lev t = 1"
| "lev_ok s lev free (sh # shs) a t \<longleftrightarrow> aligned t \<and> t \<notin> free \<and> lev t = Suc (Suc (length shs))
     \<and> (let e = cells s (entry_at s t a sh) in pte_present e \<longrightarrow> lev_ok s lev free shs a (pte_target e))"

definition vm_inv_with :: "u64 set \<Rightarrow> mem_state \<Rightarrow> u64 list \<Rightarrow> (u64 \<Rightarrow> nat) \<Rightarrow> bool" where
  "vm_inv_with A s xs lev \<longleftrightarrow> fl_inv s xs \<and> term_ok (con s)
     \<and> (\<forall>p \<in> free_pages s xs. phys p \<and> lev p = 0)
     \<and> (\<forall>a \<in> A. lev_ok s lev (free_pages s xs) [39, 30, 21] a (cr3_root s))"

lemma lev_ok_head: "lev_ok s lev free shs a t \<Longrightarrow> aligned t \<and> t \<notin> free \<and> lev t = Suc (length shs)"
  by (cases shs) auto

text \<open>Levels descend along a path, so its tables are distinct.\<close>

lemma lev_ok_path:
  "lev_ok s lev free shs a t \<Longrightarrow>
   distinct (path_tables s shs a t)
   \<and> (\<forall>q \<in> set (path_tables s shs a t). aligned q \<and> q \<notin> free \<and> lev q \<le> Suc (length shs))"
proof (induction shs arbitrary: t)
  case (Cons sh shs)
  let ?e = "cells s (entry_at s t a sh)"
  show ?case
  proof (cases "pte_present ?e")
    case True
    with Cons.prems have "lev_ok s lev free shs a (pte_target ?e)" by simp
    from Cons.IH [OF this] Cons.prems True show ?thesis by fastforce
  qed (use Cons.prems in simp)
qed simp

lemma vm_inv_walk_ok: "vm_inv_with A s xs lev \<Longrightarrow> a \<in> A \<Longrightarrow> walk_ok s xs [39, 30, 21] a (cr3_root s)"
  using lev_ok_path [of s lev "free_pages s xs" "[39, 30, 21]" a "cr3_root s"]
  unfolding vm_inv_with_def walk_ok_def by blast

text \<open>Paths read only the entries of non-free tables of level 2 and above.\<close>

lemma lev_ok_transfer:
  assumes "hhdm_addr s' = hhdm_addr s" and "free' \<subseteq> free"
    and lev: "\<And>q. q \<notin> free \<Longrightarrow> lev' q = lev q"
    and same: "\<And>q sh. aligned q \<Longrightarrow> q \<notin> free \<Longrightarrow> 2 \<le> lev q \<Longrightarrow>
       cells s' (entry_at s q a sh) = cells s (entry_at s q a sh)
       \<or> (\<exists>p. \<not> pte_present (cells s (entry_at s q a sh)) \<and> pte_target (cells s' (entry_at s q a sh)) = p
            \<and> aligned p \<and> p \<notin> free' \<and> lev' p = lev q - 1
            \<and> (\<forall>d. unat d < 4096 \<longrightarrow> cells s' (p + hhdm_addr s + d) = 0))"
  shows "lev_ok s lev free shs a t \<Longrightarrow> lev_ok s' lev' free' shs a t"
proof (induction shs arbitrary: t)
  case Nil
  then show ?case using assms(2) lev by auto
next
  case (Cons sh shs)
  let ?E = "entry_at s t a sh"
  have E': "entry_at s' t a sh = ?E" using assms(1) by (simp add: entry_at_page)
  have t: "aligned t" "t \<notin> free" "lev t = Suc (Suc (length shs))" using Cons.prems by auto
  have "pte_present (cells s' ?E) \<longrightarrow> lev_ok s' lev' free' shs a (pte_target (cells s' ?E))"
  proof (cases "cells s' ?E = cells s ?E")
    case True
    then show ?thesis using Cons by (simp add: Let_def)
  next
    case False
    then obtain p where p: "pte_target (cells s' ?E) = p" "aligned p" "p \<notin> free'" "lev' p = lev t - 1"
      "\<forall>d. unat d < 4096 \<longrightarrow> cells s' (p + hhdm_addr s + d) = 0"
      using same [OF t(1,2), of sh] t(3) by auto
    have "cells s' (entry_at s' p a sh') = 0" for sh'
      using p(5) pt_index_bound assms(1) by (simp add: entry_at_page)
    then have "lev_ok s' lev' free' shs a p" using p t(3) by (cases shs) (simp_all add: pte_present_def)
    then show ?thesis using p(1) by simp
  qed
  then show ?case using t assms(2) lev E' by auto
qed

lemma lev_ok_cells:
  "cells s' = cells s \<Longrightarrow> hhdm_addr s' = hhdm_addr s \<Longrightarrow> lev_ok s' lev free shs a t = lev_ok s lev free shs a t"
  by (induction shs arbitrary: t) (auto simp: entry_at_page Let_def)

lemma vm_inv_with_con: "vm_inv_with A s xs lev \<Longrightarrow> term_ok c \<Longrightarrow> vm_inv_with A (s\<lparr>con := c\<rparr>) xs lev"
  using lev_ok_cells [of "s\<lparr>con := c\<rparr>" s]
  by (simp add: vm_inv_with_def fl_inv_con read_cr3_def del: lev_ok.simps)

lemma lev_ok_zero:
  assumes "aligned p" and "p \<notin> free" and "lev p = Suc (length shs)"
    and zero: "\<forall>d. unat d < 4096 \<longrightarrow> cells s (p + hhdm_addr s + d) = 0"
  shows "lev_ok s lev free shs a p"
proof -
  have "cells s (entry_at s p a sh) = 0" for sh using zero pt_index_bound by (simp add: entry_at_page)
  then show ?thesis using assms(1-3) by (cases shs) (simp_all add: pte_present_def)
qed

text \<open>
  \<open>vm_map\<close> never assigns the address of a last-level entry, and new tables are zeroed. So in an
  address space whose last-level tables hold no address, they never will: \<open>blank_leaves\<close>, which
  also says that no entry of the two levels above stands for a large page.
\<close>

definition blank_leaves :: "mem_state \<Rightarrow> u64 list \<Rightarrow> (u64 \<Rightarrow> nat) \<Rightarrow> bool" where
  "blank_leaves s xs lev \<longleftrightarrow> (\<forall>q d. aligned q \<longrightarrow> q \<notin> free_pages s xs \<longrightarrow> unat d < 4096 \<longrightarrow>
     (lev q = 1 \<longrightarrow> pte_target (cells s (q + hhdm_addr s + d)) = 0)
     \<and> (lev q = 2 \<or> lev q = 3 \<longrightarrow> \<not> pte_page_size (cells s (q + hhdm_addr s + d))))"

lemma blank_leaves_con: "blank_leaves (s\<lparr>con := c\<rparr>) xs lev = blank_leaves s xs lev"
  by (simp add: blank_leaves_def free_pages_def pages_at_def)

text \<open>
  \<open>own\<close> gives every table the upper bits of the addresses that it serves; \<open>owned\<close>: for every address
  of \<open>A\<close>, the tables that it meets serve its own bits. Bits 48 and above are not looked at.
\<close>

definition bits_from :: "nat \<Rightarrow> u64 \<Rightarrow> u64" where
  "bits_from n a = drop_bit n (take_bit 48 a)"

definition page_no :: "u64 \<Rightarrow> u64" where
  "page_no a = bits_from 12 a"

fun served :: "nat list \<Rightarrow> u64 \<Rightarrow> u64" where
  "served [] a = bits_from 21 a"
| "served (sh # shs) a = bits_from (sh + 9) a"

fun owns :: "mem_state \<Rightarrow> (u64 \<Rightarrow> u64) \<Rightarrow> nat list \<Rightarrow> u64 \<Rightarrow> u64 \<Rightarrow> bool" where
  "owns s own [] a t \<longleftrightarrow> own t = bits_from 21 a"
| "owns s own (sh # shs) a t \<longleftrightarrow> own t = bits_from (sh + 9) a
     \<and> (let e = cells s (entry_at s t a sh) in pte_present e \<longrightarrow> owns s own shs a (pte_target e))"

abbreviation levels :: "nat list" where
  "levels \<equiv> [39, 30, 21]"

definition owned :: "u64 set \<Rightarrow> mem_state \<Rightarrow> (u64 \<Rightarrow> u64) \<Rightarrow> bool" where
  "owned A s own \<longleftrightarrow> (\<forall>a \<in> A. owns s own levels a (cr3_root s))"

lemma bits_from_top: "bits_from 48 a = 0"
  by (rule bit_word_eqI) (simp add: bits_from_def bit_simps)

lemma owns_head: "owns s own shs a t \<Longrightarrow> own t = served shs a"
  by (cases shs) simp_all

lemma served_tail: "suffix (sh # shs) levels \<Longrightarrow> served shs a = bits_from sh a"
  by (auto simp: suffix_Cons)

lemma suffix_levels: "suffix xs levels \<Longrightarrow> suffix ys levels \<Longrightarrow> length xs = length ys \<Longrightarrow> xs = ys"
  by (auto simp: suffix_def)

lemma index_bit: "sh \<le> 39 \<Longrightarrow> bit (pt_index a sh) n \<longleftrightarrow> n < 9 \<and> bit a (sh + n)"
proof -
  assume "sh \<le> 39"
  have mask: "(0x1FF :: u64) = mask 9" by (simp add: mask_eq_exp_minus_1)
  show ?thesis using \<open>sh \<le> 39\<close> unfolding pt_index_def mask by (auto simp: bit_simps)
qed

lemma bits_step:
  assumes "sh \<le> 39" and "bits_from (sh + 9) a = bits_from (sh + 9) b" and "pt_index a sh = pt_index b sh"
  shows "bits_from sh a = bits_from sh b"
proof (rule bit_word_eqI)
  fix n
  have "bit (bits_from (sh + 9) a) (n - 9) = bit (bits_from (sh + 9) b) (n - 9)" using assms(2) by simp
  moreover have "bit (pt_index a sh) n = bit (pt_index b sh) n" using assms(3) by simp
  ultimately show "bit (bits_from sh a) n = bit (bits_from sh b) n"
    using index_bit [OF assms(1)] assms(1) by (cases "n < 9") (auto simp: bits_from_def bit_simps algebra_simps)
qed

lemma index_page: "12 \<le> sh \<Longrightarrow> sh \<le> 39 \<Longrightarrow> page_no a = page_no b \<Longrightarrow> pt_index a sh = pt_index b sh"
proof (rule bit_word_eqI)
  fix n assume sh: "12 \<le> sh" "sh \<le> 39" and eq: "page_no a = page_no b"
  have "bit (page_no a) (sh + n - 12) = bit (page_no b) (sh + n - 12)" using eq by simp
  then show "bit (pt_index a sh) n = bit (pt_index b sh) n"
    using index_bit [OF sh(2)] sh by (auto simp: page_no_def bits_from_def bit_simps)
qed

lemma index_inj: "8 * pt_index a sh = 8 * pt_index b k \<longleftrightarrow> pt_index a sh = pt_index b k"
proof -
  have bound: "unat (8 * pt_index a sh) = 8 * unat (pt_index a sh)" for a sh
  proof -
    have "pt_index a sh \<le> 0x1FF" unfolding pt_index_def by (rule word_and_le1)
    then show ?thesis by (simp add: word_le_nat_alt unat_word_ariths)
  qed
  show ?thesis using bound [of a sh] bound [of b k] by (metis mult_cancel1 word_unat_eq_iff zero_neq_numeral)
qed

lemma entry_inj:
  assumes "aligned q" and "aligned t"
  shows "entry_at s q a k = entry_at s t b sh \<longleftrightarrow> q = t \<and> pt_index a k = pt_index b sh"
  using ptov_offset_eq [OF assms pt_index_bound pt_index_bound] index_inj by (simp add: entry_at_page)

text \<open>Whether the page of an address is present, from a table on.\<close>

definition path_present :: "mem_state \<Rightarrow> nat list \<Rightarrow> u64 \<Rightarrow> u64 \<Rightarrow> bool" where
  "path_present s shs a t = (case table_path s shs a t of None \<Rightarrow> False
     | Some u \<Rightarrow> pte_present (cells s (entry_at s u a 12)))"

lemma page_present_path: "page_present s a = path_present s levels a (cr3_root s)"
  by (simp add: page_present_def path_present_def leaf_entry_def option.case_eq_if option.map_sel del: table_path.simps)

lemma path_present_simps:
  "path_present s [] a t = pte_present (cells s (entry_at s t a 12))"
  "path_present s (sh # shs) a t = (let e = cells s (entry_at s t a sh) in
     pte_present e \<and> path_present s shs a (pte_target e))"
  by (simp_all add: path_present_def Let_def)

text \<open>A page whose bytes are zero is a table without entries.\<close>

lemma zero_table:
  assumes "\<forall>d. unat d < 4096 \<longrightarrow> cells s (p + hhdm_addr s + d) = 0"
  shows "\<not> pte_present (cells s (entry_at s p a sh))" and "\<not> path_present s shs a p"
    and "own p = served shs a \<Longrightarrow> owns s own shs a p"
proof -
  show absent: "\<not> pte_present (cells s (entry_at s p a sh))" for sh
    using assms pt_index_bound by (simp add: entry_at_page pte_present_def)
  show "\<not> path_present s shs a p" using absent by (cases shs) (simp_all add: path_present_simps Let_def)
  show "owns s own shs a p" if "own p = served shs a" using absent that by (cases shs) (simp_all add: Let_def)
qed

text \<open>What linking a new table \<open>p\<close> into the entry of \<open>t\<close> for \<open>address\<close> has changed.\<close>

definition table_added :: "mem_state \<Rightarrow> u64 list \<Rightarrow> nat \<Rightarrow> u64 \<Rightarrow> u64 \<Rightarrow> u64 \<Rightarrow> mem_state \<Rightarrow> u64 list \<Rightarrow> bool" where
  "table_added s xs sh address t p s4 ys \<longleftrightarrow> p \<in> free_pages s xs \<and> aligned p \<and> aligned t
     \<and> free_pages s4 ys = free_pages s xs - {p} \<and> hhdm_addr s4 = hhdm_addr s \<and> cr3 s4 = cr3 s
     \<and> \<not> pte_present (cells s (entry_at s t address sh)) \<and> pte_target (cells s4 (entry_at s t address sh)) = p
     \<and> pte_present (cells s4 (entry_at s t address sh))
     \<and> (\<forall>d. unat d < 4096 \<longrightarrow> cells s4 (p + hhdm_addr s4 + d) = 0)
     \<and> (\<forall>q d. aligned q \<longrightarrow> q \<notin> free_pages s xs \<longrightarrow> unat d < 4096 \<longrightarrow> q + hhdm_addr s + d \<noteq> entry_at s t address sh \<longrightarrow>
         cells s4 (q + hhdm_addr s + d) = cells s (q + hhdm_addr s + d))
     \<and> pte_page_size (cells s4 (entry_at s t address sh)) = pte_page_size (cells s (entry_at s t address sh))"

lemma new_table_added:
  assumes "walk_ok s xs (sh # shs) address t"
    and "\<not> pte_present (cells s (entry_at s t address sh))" and "free_pages s xs \<noteq> {}"
  shows "\<exists>p s4 ys. vm_map_walk (sh # shs) address t s = vm_map_walk shs address p s4
    \<and> walk_ok s4 ys shs address p \<and> table_added s xs sh address t p s4 ys"
proof -
  from new_table_step [OF assms] obtain p s4 ys where p: "p \<in> free_pages s xs"
    "vm_map_walk (sh # shs) address t s = vm_map_walk shs address p s4"
    "walk_ok s4 ys shs address p" "free_pages s4 ys = free_pages s xs - {p}"
    "hhdm_addr s4 = hhdm_addr s" "cr3 s4 = cr3 s" "pte_target (cells s4 (entry_at s4 t address sh)) = p"
    "pte_present (cells s4 (entry_at s4 t address sh))"
    "\<forall>d. unat d < 4096 \<longrightarrow> cells s4 (p + hhdm_addr s + d) = 0"
    "\<forall>q d. aligned q \<longrightarrow> q \<notin> free_pages s xs \<longrightarrow> unat d < 4096 \<longrightarrow> q + hhdm_addr s + d \<noteq> entry_at s t address sh \<longrightarrow>
         cells s4 (q + hhdm_addr s + d) = cells s (q + hhdm_addr s + d)"
    "pte_page_size (cells s4 (entry_at s t address sh)) = pte_page_size (cells s (entry_at s t address sh))"
    by (elim exE conjE)
  moreover have "aligned t" "aligned p"
    using assms(1) p(1) free_pages_aligned unfolding walk_ok_def by auto
  moreover have "entry_at s4 t address sh = entry_at s t address sh" using p(5) by (simp add: entry_at_page)
  ultimately show ?thesis using assms(2) unfolding table_added_def by (intro exI [of _ p] exI [of _ s4] exI [of _ ys]) simp
qed

lemma added_entry:
  assumes "table_added s xs sh address t p s4 ys" and "aligned q" and "q \<notin> free_pages s xs"
  shows "cells s4 (entry_at s q a k) = cells s (entry_at s q a k)
    \<or> q = t \<and> pt_index a k = pt_index address sh \<and> \<not> pte_present (cells s (entry_at s q a k))
        \<and> pte_target (cells s4 (entry_at s q a k)) = p"
proof (cases "entry_at s q a k = entry_at s t address sh")
  case True
  then show ?thesis using assms entry_inj [OF assms(2), of t s a k address sh] by (simp add: table_added_def)
next
  case False
  then show ?thesis using assms pt_index_bound by (simp add: table_added_def entry_at_page)
qed

lemma added_at: "table_added s xs sh address t p s4 ys \<Longrightarrow> entry_at s4 q a k = entry_at s q a k"
  by (simp add: table_added_def entry_at_page)

lemma added_zero: "table_added s xs sh address t p s4 ys \<Longrightarrow> unat d < 4096 \<Longrightarrow> cells s4 (p + hhdm_addr s + d) = 0"
  by (auto simp: table_added_def)

text \<open>Linking a new table one level below a table of the tree keeps the invariant, what is present,
  and the parts that the tables serve.\<close>

lemma added_keeps_inv:
  assumes inv: "vm_inv_with A s xs lev" and ok: "walk_ok s4 ys shs address p"
    and lev_t: "lev t = Suc (Suc (length shs))" and add: "table_added s xs sh address t p s4 ys"
  defines "lev' \<equiv> lev(p := Suc (length shs))"
  shows "vm_inv_with A s4 ys lev'" and "blank_leaves s xs lev \<Longrightarrow> blank_leaves s4 ys lev'"
    and "lev_ok s4 lev' (free_pages s4 ys) shs address p"
proof -
  note p = add [unfolded table_added_def]
  have trans: "lev_ok s4 lev' (free_pages s4 ys) is a q" if "lev_ok s lev (free_pages s xs) is a q" for "is" a q
  proof (rule lev_ok_transfer [OF _ _ _ _ that])
    show "hhdm_addr s4 = hhdm_addr s" "free_pages s4 ys \<subseteq> free_pages s xs" using p by blast+
    show "lev' q = lev q" if "q \<notin> free_pages s xs" for q using that p by (auto simp: lev'_def)
    fix q k assume q: "aligned q" "q \<notin> free_pages s xs" "2 \<le> lev q"
    show "cells s4 (entry_at s q a k) = cells s (entry_at s q a k)
       \<or> (\<exists>p'. \<not> pte_present (cells s (entry_at s q a k)) \<and> pte_target (cells s4 (entry_at s q a k)) = p'
            \<and> aligned p' \<and> p' \<notin> free_pages s4 ys \<and> lev' p' = lev q - 1
            \<and> (\<forall>d. unat d < 4096 \<longrightarrow> cells s4 (p' + hhdm_addr s + d) = 0))"
      using added_entry [OF add q(1,2), of a k] p lev_t by (auto simp: lev'_def)
  qed
  show "vm_inv_with A s4 ys lev'"
    using inv ok p trans unfolding vm_inv_with_def walk_ok_def
    by (auto simp: read_cr3_def lev'_def simp del: lev_ok.simps)
  show "lev_ok s4 lev' (free_pages s4 ys) shs address p"
    using p by (intro lev_ok_zero) (auto simp: lev'_def)
  assume blank: "blank_leaves s xs lev"
  show "blank_leaves s4 ys lev'"
    unfolding blank_leaves_def
  proof (intro allI impI)
    fix q d assume q: "aligned q" "q \<notin> free_pages s4 ys" "unat (d :: u64) < 4096"
    let ?c = "\<lambda>s. cells s (q + hhdm_addr s + d)"
    show "(lev' q = 1 \<longrightarrow> pte_target (?c s4) = 0) \<and> (lev' q = 2 \<or> lev' q = 3 \<longrightarrow> \<not> pte_page_size (?c s4))"
    proof (cases "q = p")
      case True
      have "hhdm_addr s4 = hhdm_addr s" using p by blast
      then show ?thesis using added_zero [OF add q(3)] True by (simp add: pte_target_def pte_address_def pte_page_size_def)
    next
      case False
      then have q': "q \<notin> free_pages s xs" "lev' q = lev q" using q(2) p by (auto simp: lev'_def)
      have h: "hhdm_addr s4 = hhdm_addr s" using p by blast
      have old: "(lev q = 1 \<longrightarrow> pte_target (?c s) = 0) \<and> (lev q = 2 \<or> lev q = 3 \<longrightarrow> \<not> pte_page_size (?c s))"
        using blank q(1,3) q'(1) unfolding blank_leaves_def by blast
      show ?thesis
      proof (cases "q + hhdm_addr s + d = entry_at s t address sh")
        case True
        then have "q = t" using ptov_offset_eq [OF q(1) _ q(3) pt_index_bound] p by (simp add: entry_at_page)
        moreover have "pte_page_size (?c s4) = pte_page_size (?c s)" using p h True by simp
        ultimately show ?thesis using old lev_t q'(2) by simp
      next
        case False
        then have "?c s4 = ?c s" using p h q(1,3) q'(1) by simp
        then show ?thesis using old q'(2) by simp
      qed
    qed
  qed
qed

lemma added_keeps_owned:
  assumes add: "table_added s xs sh address t p s4 ys" and lev_t: "lev t = Suc (Suc (length shs))"
    and sfx: "suffix (sh # shs) levels" and own_t: "own t = served (sh # shs) address"
  shows "lev_ok s lev (free_pages s xs) is a q \<Longrightarrow> suffix is levels \<Longrightarrow> owns s own is a q \<Longrightarrow>
    owns s4 (own(p := served shs address)) is a q"
proof (induction "is" arbitrary: q)
  case Nil
  have "q \<noteq> p" using Nil.prems(1) add by (auto simp: table_added_def)
  then show ?case using Nil.prems(3) by simp
next
  case (Cons k "is")
  let ?own = "own(p := served shs address)" and ?E = "entry_at s q a k"
  have q: "aligned q" "q \<notin> free_pages s xs" "lev q = Suc (Suc (length is))" using Cons.prems(1) by auto
  have ne: "q \<noteq> p" using q(2) add by (auto simp: table_added_def)
  have sis: "suffix is levels" using Cons.prems(2) by (rule suffix_ConsD)
  have own_q: "own q = bits_from (k + 9) a" using Cons.prems(3) by simp
  have "pte_present (cells s4 ?E) \<longrightarrow> owns s4 ?own is a (pte_target (cells s4 ?E))"
  proof (cases "cells s4 ?E = cells s ?E")
    case True
    then show ?thesis using Cons.IH [OF _ sis] Cons.prems(1,3) by (simp add: Let_def del: fun_upd_apply)
  next
    case False
    then have e: "q = t" "pt_index a k = pt_index address sh" "pte_target (cells s4 ?E) = p"
      using added_entry [OF add q(1,2), of a k] by auto
    have "k # is = sh # shs" using q(3) lev_t e(1) by (intro suffix_levels [OF Cons.prems(2) sfx]) simp
    then have ks: "k = sh" "is = shs" by simp_all
    have "sh \<le> 39" using sfx by (auto simp: suffix_Cons)
    moreover have "bits_from (sh + 9) a = bits_from (sh + 9) address" using own_q own_t e(1) ks(1) by simp
    ultimately have "bits_from sh a = bits_from sh address" using bits_step e(2) ks(1) by blast
    then have "served shs address = served is a" using served_tail [OF sfx] ks(2) by simp
    then have "owns s4 ?own is a p" using add by (intro zero_table(3)) (auto simp: table_added_def)
    then show ?thesis using e(3) by simp
  qed
  moreover have "?own q = bits_from (k + 9) a" using own_q ne by simp
  ultimately show ?case using added_at [OF add] by (simp add: Let_def del: fun_upd_apply)
qed

lemma added_present:
  assumes add: "table_added s xs sh address t p s4 ys" and lev_t: "2 \<le> lev t"
  shows "lev_ok s lev (free_pages s xs) is a q \<Longrightarrow> path_present s4 is a q = path_present s is a q"
proof (induction "is" arbitrary: q)
  case Nil
  then have "q \<noteq> t" "aligned q" "q \<notin> free_pages s xs" using lev_t by auto
  then have "cells s4 (entry_at s q a 12) = cells s (entry_at s q a 12)"
    using added_entry [OF add, of q a 12] by blast
  then show ?case by (simp add: path_present_simps added_at [OF add])
next
  case (Cons k "is")
  let ?E = "entry_at s q a k"
  have q: "aligned q" "q \<notin> free_pages s xs" using Cons.prems by auto
  show ?case
  proof (cases "cells s4 ?E = cells s ?E")
    case True
    then show ?thesis using Cons by (auto simp: path_present_simps Let_def added_at [OF add])
  next
    case False
    then have e: "\<not> pte_present (cells s ?E)" "pte_target (cells s4 ?E) = p"
      using added_entry [OF add q, of a k] by auto
    have "\<not> path_present s4 is a p" using add by (intro zero_table(2)) (auto simp: table_added_def)
    then show ?thesis using e by (simp add: path_present_simps Let_def added_at [OF add])
  qed
qed

text \<open>The store to the last-level entry is read by no path.\<close>

lemma leaf_store_keeps_inv:
  assumes inv: "vm_inv_with A s xs lev" and t: "aligned t" "t \<notin> free_pages s xs" "lev t = 1"
  shows "vm_inv_with A (invalidate_tlb address (store (entry_at s t address 12) v s)) xs lev"
proof -
  let ?p = "entry_at s t address 12" and ?s = "invalidate_tlb address (store (entry_at s t address 12) v s)"
  have fl: "fl_inv s xs" using inv by (simp add: vm_inv_with_def)
  have f: "hhdm_addr ?s = hhdm_addr s" "freelist ?s = freelist s" "con ?s = con s" "cr3 ?s = cr3 s"
    by (simp_all add: invalidate_tlb_def)
  have cell: "cells ?s (q + hhdm_addr s + d) = cells s (q + hhdm_addr s + d)"
    if "aligned q" "q \<noteq> t" "unat d < 4096" for q d
    using ptov_offset_eq [OF that(1) t(1) that(3) pt_index_bound] that(2)
    by (simp add: invalidate_tlb_def store_def entry_at_page)
  have "same_page s ?s q" if "q \<in> free_pages s xs" for q
    unfolding same_page_def using cell free_pages_aligned [OF fl that] that t(2) by blast
  note fl' = fl_inv_outside [OF fl f(1,2) this]
  have "lev_ok ?s lev (free_pages s xs) [39, 30, 21] a (cr3_root s)"
    if "lev_ok s lev (free_pages s xs) [39, 30, 21] a (cr3_root s)" for a
  proof (rule lev_ok_transfer [OF f(1) order_refl refl _ that], rule disjI1)
    fix q sh assume "aligned q" "2 \<le> lev q"
    moreover from this t(3) have "q \<noteq> t" by auto
    ultimately show "cells ?s (entry_at s q a sh) = cells s (entry_at s q a sh)"
      using cell [OF _ _ pt_index_bound] by (simp only: entry_at_page)
  qed
  then show ?thesis using inv fl' f unfolding vm_inv_with_def
    by (simp add: read_cr3_def del: lev_ok.simps)
qed

lemma leaf_store_keeps_blank:
  assumes inv: "vm_inv_with A s xs lev" and t: "aligned t" "t \<notin> free_pages s xs" "lev t = 1"
    and blank: "blank_leaves s xs lev" and v: "pte_target v = 0"
  shows "blank_leaves (invalidate_tlb address (store (entry_at s t address 12) v s)) xs lev"
proof -
  let ?s = "invalidate_tlb address (store (entry_at s t address 12) v s)"
  have cell: "cells ?s b = (if b = entry_at s t address 12 then v else cells s b)" for b
    by (simp add: invalidate_tlb_def store_def)
  have h: "hhdm_addr ?s = hhdm_addr s" by (simp add: invalidate_tlb_def)
  have fl: "fl_inv s xs" using inv by (simp add: vm_inv_with_def)
  have "same_page s ?s q" if "q \<in> free_pages s xs" for q
    unfolding same_page_def cell using ptov_offset_eq [OF free_pages_aligned [OF fl that] t(1) _ pt_index_bound] that t(2)
    by (auto simp: entry_at_page)
  then have "free_pages ?s xs = free_pages s xs" by (intro fl_inv_outside [OF fl h]) (simp_all add: invalidate_tlb_def)
  then have free: "free_pages ?s xs = free_pages s xs" .
  have "q \<noteq> t \<Longrightarrow> cells ?s (q + hhdm_addr s + d) = cells s (q + hhdm_addr s + d)" if "aligned q" "unat d < 4096" for q d
    unfolding cell using ptov_offset_eq [OF that(1) t(1) that(2) pt_index_bound] by (auto simp: entry_at_page)
  moreover have "pte_target (cells ?s (t + hhdm_addr s + d)) = 0" if "unat d < 4096" for d
    using blank v t that unfolding blank_leaves_def cell by simp
  ultimately show ?thesis using blank t(3) unfolding blank_leaves_def h free by (metis numeral_eq_one_iff semiring_norm(85,86))
qed

text \<open>Changes that no path reads.\<close>

lemma path_same:
  assumes h: "hhdm_addr s' = hhdm_addr s"
    and same: "\<And>q sh. aligned q \<Longrightarrow> 2 \<le> lev q \<Longrightarrow> cells s' (entry_at s q a sh) = cells s (entry_at s q a sh)"
  shows "lev_ok s lev free shs a t \<Longrightarrow> owns s' own shs a t = owns s own shs a t
    \<and> table_path s' shs a t = table_path s shs a t
    \<and> path_tables s' shs a t = path_tables s shs a t"
proof (induction shs arbitrary: t)
  case (Cons sh shs)
  have "cells s' (entry_at s' t a sh) = cells s (entry_at s t a sh)"
    using same [of t sh] Cons.prems h by (simp add: entry_at_page)
  then show ?case using Cons by (auto simp: Let_def)
qed simp

lemma path_cells:
  assumes "cells s' = cells s" and "hhdm_addr s' = hhdm_addr s"
  shows "owns s' own shs a t = owns s own shs a t" and "table_path s' shs a t = table_path s shs a t"
    and "path_present s' shs a t = path_present s shs a t"
proof -
  have e: "entry_at s' t a sh = entry_at s t a sh" for t sh using assms(2) by (simp add: entry_at_page)
  show "owns s' own shs a t = owns s own shs a t" "table_path s' shs a t = table_path s shs a t"
    "path_present s' shs a t = path_present s shs a t"
    using assms(1) e by (induction shs arbitrary: t) (simp_all add: Let_def path_present_simps)
qed

section \<open>The invariant\<close>

definition space_ok :: "u64 set \<Rightarrow> mem_state \<Rightarrow> u64 list \<Rightarrow> (u64 \<Rightarrow> nat) \<Rightarrow> (u64 \<Rightarrow> u64) \<Rightarrow> bool" where
  "space_ok A s xs lev own \<longleftrightarrow> vm_inv_with A s xs lev \<and> owned A s own"

definition vm_inv :: "u64 set \<Rightarrow> mem_state \<Rightarrow> bool" where
  "vm_inv A s \<longleftrightarrow> (\<exists>xs lev own. space_ok A s xs lev own)"

text \<open>An address space in order without an address in its last-level tables.\<close>

definition blank_space :: "u64 set \<Rightarrow> mem_state \<Rightarrow> bool" where
  "blank_space A s \<longleftrightarrow> (\<exists>xs lev own. space_ok A s xs lev own \<and> blank_leaves s xs lev)"

lemma blank_space_inv: "blank_space A s \<Longrightarrow> vm_inv A s"
  by (auto simp: blank_space_def vm_inv_def)

text \<open>The states with the same memory and free list.\<close>

lemma space_ok_cells:
  assumes "cells s' = cells s" and "hhdm_addr s' = hhdm_addr s" and "cr3 s' = cr3 s" and "freelist s' = freelist s"
    and "term_ok (con s')"
  shows "space_ok A s xs lev own \<Longrightarrow> space_ok A s' xs lev own"
    and "blank_leaves s' xs lev = blank_leaves s xs lev" and "page_present s' a = page_present s a"
    and "free_pages s' xs = free_pages s xs"
proof -
  show free: "free_pages s' xs = free_pages s xs" using assms(1) by (simp add: free_pages_def pages_at_def)
  have fl: "fl_inv s' xs = fl_inv s xs" using assms(1,2,4) by (simp add: fl_inv_def chunk_ok_def pages_at_def)
  show "blank_leaves s' xs lev = blank_leaves s xs lev" using assms(1,2) free by (simp add: blank_leaves_def)
  show "page_present s' a = page_present s a"
    using path_cells [OF assms(1,2)] assms(3) by (simp add: page_present_path read_cr3_def)
  show "space_ok A s xs lev own \<Longrightarrow> space_ok A s' xs lev own"
    using fl free lev_ok_cells [OF assms(1,2)] path_cells(1) [OF assms(1,2)] assms(3,5)
    by (simp add: space_ok_def vm_inv_with_def owned_def read_cr3_def del: lev_ok.simps owns.simps)
qed

lemma vm_inv_cells:
  assumes "cells s' = cells s" and "hhdm_addr s' = hhdm_addr s" and "cr3 s' = cr3 s" and "freelist s' = freelist s"
    and "term_ok (con s')"
  shows "vm_inv A s \<Longrightarrow> vm_inv A s'" and "blank_space A s \<Longrightarrow> blank_space A s'"
  using space_ok_cells [OF assms] unfolding vm_inv_def blank_space_def by blast+

lemma vm_inv_con: "vm_inv A s \<Longrightarrow> term_ok c \<Longrightarrow> vm_inv A (s\<lparr>con := c\<rparr>)"
  and blank_space_con: "blank_space A s \<Longrightarrow> term_ok c \<Longrightarrow> blank_space A (s\<lparr>con := c\<rparr>)"
  by (rule vm_inv_cells; simp)+

text \<open>The tables below the root that the addresses of \<open>A\<close> meet, and how a walk has come to a table.\<close>

definition tables :: "u64 set \<Rightarrow> mem_state \<Rightarrow> u64 set" where
  "tables A s = (\<Union>a \<in> A. set (path_tables s levels a (cr3_root s))) - {cr3_root s}"

definition met :: "mem_state \<Rightarrow> u64 \<Rightarrow> nat list \<Rightarrow> u64 \<Rightarrow> bool" where
  "met s a shs t \<longleftrightarrow> (\<exists>pre. pre @ shs = levels \<and> table_path s pre a (cr3_root s) = Some t)"

lemma table_path_snoc:
  "table_path s pre a q = Some t \<Longrightarrow> pte_present (cells s (entry_at s t a sh)) \<Longrightarrow>
   table_path s (pre @ [sh]) a q = Some (pte_target (cells s (entry_at s t a sh)))"
  by (induction pre arbitrary: q) (auto simp: Let_def split: if_splits)

lemma table_path_member: "table_path s pre a q = Some t \<Longrightarrow> t \<in> set (path_tables s (pre @ shs) a q)"
proof (induction pre arbitrary: q)
  case Nil
  then show ?case by (cases shs) auto
qed (auto simp: Let_def split: if_splits)

lemma met_start: "met s a levels (cr3_root s)"
  unfolding met_def by (intro exI [of _ "[]"]) simp

lemma met_next:
  assumes "met s a (sh # shs) t" and "pte_present (cells s (entry_at s t a sh))"
  shows "met s a shs (pte_target (cells s (entry_at s t a sh)))"
proof -
  obtain pre where "pre @ sh # shs = levels" "table_path s pre a (cr3_root s) = Some t" using assms(1) by (auto simp: met_def)
  then show ?thesis unfolding met_def using table_path_snoc [OF _ assms(2)] by (intro exI [of _ "pre @ [sh]"]) simp
qed

lemma added_paths:
  assumes add: "table_added s xs sh address t p s4 ys"
  shows "lev_ok s lev (free_pages s xs) is a q \<Longrightarrow>
    set (path_tables s is a q) \<subseteq> set (path_tables s4 is a q) \<and> set (path_tables s4 is a q) \<subseteq> insert p (set (path_tables s is a q))"
proof (induction "is" arbitrary: q)
  case (Cons k "is")
  let ?E = "entry_at s q a k"
  have q: "aligned q" "q \<notin> free_pages s xs" using Cons.prems by auto
  show ?case
  proof (cases "cells s4 ?E = cells s ?E")
    case True
    then show ?thesis using Cons by (auto simp: Let_def added_at [OF add])
  next
    case False
    then have e: "\<not> pte_present (cells s ?E)" "pte_target (cells s4 ?E) = p"
      using added_entry [OF add q, of a k] by auto
    have "path_tables s4 is a p = [p]"
      by (rule zero_table_path(1)) (use added_zero [OF add] add in \<open>simp add: table_added_def\<close>)
    then show ?thesis using e by (auto simp: Let_def added_at [OF add])
  qed
qed simp

lemma added_table_path:
  assumes add: "table_added s xs sh address t p s4 ys"
  shows "lev_ok s lev (free_pages s xs) (pre @ is) a q \<Longrightarrow> table_path s pre a q = Some u \<Longrightarrow> table_path s4 pre a q = Some u"
proof (induction pre arbitrary: q)
  case (Cons k pre)
  let ?E = "entry_at s q a k"
  have q: "aligned q" "q \<notin> free_pages s xs" and pres: "pte_present (cells s ?E)" using Cons.prems by (auto simp: Let_def split: if_splits)
  then have "cells s4 ?E = cells s ?E" using added_entry [OF add q, of a k] by blast
  then show ?case using Cons pres by (simp add: Let_def added_at [OF add])
qed simp

section \<open>What a walk keeps\<close>

text \<open>From \<open>s\<close> to \<open>s'\<close> at most \<open>n\<close> pages have left the free list, the invariant holds, and every page
  that has left the free list is a table of the space.\<close>

definition space_step :: "u64 set \<Rightarrow> mem_state \<Rightarrow> u64 list \<Rightarrow> (u64 \<Rightarrow> nat) \<Rightarrow> nat \<Rightarrow> mem_state \<Rightarrow> u64 list
    \<Rightarrow> (u64 \<Rightarrow> nat) \<Rightarrow> (u64 \<Rightarrow> u64) \<Rightarrow> bool" where
  "space_step A s xs lev n s' ys lev' own' \<longleftrightarrow> space_ok A s' ys lev' own' \<and> cr3 s' = cr3 s
     \<and> (blank_leaves s xs lev \<longrightarrow> blank_leaves s' ys lev')
     \<and> (\<exists>Q. finite Q \<and> card Q \<le> n \<and> free_pages s' ys = free_pages s xs - Q)
     \<and> free_pages s' ys \<union> tables A s' = free_pages s xs \<union> tables A s"

lemma space_step_refl: "space_ok A s xs lev own \<Longrightarrow> space_step A s xs lev n s xs lev own"
  unfolding space_step_def by (auto intro: exI [of _ "{}"])

lemma space_step_trans:
  assumes "space_step A s xs lev n s1 ys lev1 own1" and "space_step A s1 ys lev1 m s2 zs lev2 own2"
  shows "space_step A s xs lev (n + m) s2 zs lev2 own2"
proof -
  obtain Q R where Q: "finite Q" "card Q \<le> n" "free_pages s1 ys = free_pages s xs - Q"
    and R: "finite R" "card R \<le> m" "free_pages s2 zs = free_pages s1 ys - R"
    using assms unfolding space_step_def by blast
  have "card (Q \<union> R) \<le> n + m" using card_Un_le [of Q R] Q(2) R(2) by linarith
  moreover have "free_pages s2 zs = free_pages s xs - (Q \<union> R)" using Q(3) R(3) by blast
  ultimately show ?thesis using assms Q(1) R(1) unfolding space_step_def by (auto intro!: exI [of _ "Q \<union> R"])
qed

lemma tables_cells:
  assumes "cells s' = cells s" and "hhdm_addr s' = hhdm_addr s" and "cr3 s' = cr3 s"
  shows "tables A s' = tables A s"
proof -
  have "path_tables s' shs a t = path_tables s shs a t" for shs a t
    using assms(1,2) by (induction shs arbitrary: t) (simp_all add: Let_def entry_at_page)
  then show ?thesis using assms(3) by (simp add: tables_def read_cr3_def del: path_tables.simps)
qed

lemma added_step:
  assumes ok: "space_ok A s xs lev own" and walk: "walk_ok s4 ys shs address p"
    and lev_t: "lev t = Suc (Suc (length shs))" and add: "table_added s xs sh address t p s4 ys"
    and sfx: "suffix (sh # shs) levels" and own_t: "own t = served (sh # shs) address"
    and a: "address \<in> A" and met: "met s address (sh # shs) t"
  defines "lev' \<equiv> lev(p := Suc (length shs))" and "own' \<equiv> own(p := served shs address)"
  shows "space_step A s xs lev 1 s4 ys lev' own'" and "\<forall>b \<in> A. page_present s4 b = page_present s b"
proof -
  have inv: "vm_inv_with A s xs lev" "owned A s own" using ok by (simp_all add: space_ok_def)
  note keeps = added_keeps_inv [OF inv(1) walk lev_t add, folded lev'_def]
  have root: "cr3_root s4 = cr3_root s" "cr3 s4 = cr3 s" using add by (auto simp: table_added_def read_cr3_def)
  have path: "lev_ok s lev (free_pages s xs) levels b (cr3_root s)" if "b \<in> A" for b
    using inv(1) that by (simp add: vm_inv_with_def del: lev_ok.simps)
  have new: "pte_present (cells s4 (entry_at s4 t address sh)) \<and> pte_target (cells s4 (entry_at s4 t address sh)) = p"
    using add added_at [OF add] by (simp add: table_added_def)
  have "owns s4 own' levels b (cr3_root s)" if "b \<in> A" for b
    unfolding own'_def using path [OF that] inv(2) that
    by (intro added_keeps_owned [where lev = lev and own = own and sh = sh, OF add lev_t sfx own_t])
      (simp_all add: owned_def del: owns.simps lev_ok.simps)
  then have "owned A s4 own'" using root(1) by (simp add: owned_def del: owns.simps)
  moreover have "free_pages s4 ys = free_pages s xs - {p}" using add by (simp add: table_added_def)
  moreover have "free_pages s4 ys \<union> tables A s4 = free_pages s xs \<union> tables A s"
  proof -
    have p: "p \<in> free_pages s xs" using add by (simp add: table_added_def)
    obtain pre where pre: "pre @ sh # shs = levels" "table_path s pre address (cr3_root s) = Some t" using met by (auto simp: met_def)
    have "lev_ok s lev (free_pages s xs) (pre @ sh # shs) address (cr3_root s)" using path [OF a] by (simp only: pre(1))
    then have "table_path s4 pre address (cr3_root s) = Some t" by (rule added_table_path [OF add _ pre(2)])
    moreover have "pte_present (cells s4 (entry_at s4 t address sh))" "pte_target (cells s4 (entry_at s4 t address sh)) = p"
      using new by blast+
    ultimately have "table_path s4 (pre @ [sh]) address (cr3_root s) = Some p" using table_path_snoc by metis
    from table_path_member [OF this, of shs] have "p \<in> set (path_tables s4 levels address (cr3_root s))" using pre(1) by simp
    moreover have "p \<noteq> cr3_root s" using p lev_ok_head [OF path [OF a]] by blast
    ultimately have "p \<in> tables A s4" using a root(1) unfolding tables_def by auto
    moreover have "tables A s \<subseteq> tables A s4" "tables A s4 \<subseteq> insert p (tables A s)"
      using added_paths [OF add path] unfolding tables_def root(1) by blast+
    moreover have "free_pages s4 ys = free_pages s xs - {p}" using add by (simp add: table_added_def)
    ultimately show ?thesis using p by blast
  qed
  ultimately show "space_step A s xs lev 1 s4 ys lev' own'"
    using keeps(1,2) root(2) unfolding space_step_def space_ok_def by (auto intro: exI [of _ "{p}"])
  have "2 \<le> lev t" using lev_t by simp
  then show "\<forall>b \<in> A. page_present s4 b = page_present s b"
    using added_present [OF add _ path] root by (simp add: page_present_path)
qed

lemma walk_keeps:
  "space_ok A s xs lev own \<Longrightarrow> walk_ok s xs shs address t \<Longrightarrow> lev_ok s lev (free_pages s xs) shs address t \<Longrightarrow>
   owns s own shs address t \<Longrightarrow> suffix shs levels \<Longrightarrow> vm_map_walk shs address t s = Inr (r, s') \<Longrightarrow>
   address \<in> A \<Longrightarrow> met s address shs t \<Longrightarrow>
   \<exists>ys lev' own'. space_step A s xs lev (length shs) s' ys lev' own' \<and> (\<forall>b \<in> A. page_present s' b = page_present s b)
     \<and> (\<forall>u. r = Some u \<longrightarrow> aligned u \<and> u \<notin> free_pages s' ys \<and> lev' u = 1 \<and> own' u = served [] address)"
proof (induction shs arbitrary: s xs lev own t)
  case Nil
  have "space_step A s xs lev (length []) s xs lev own" using Nil.prems(1) by (rule space_step_refl)
  then show ?case using Nil.prems by (intro exI [of _ xs] exI [of _ lev] exI [of _ own]) auto
next
  case (Cons sh shs)
  let ?E = "entry_at s t address sh"
  have t: "lev t = Suc (Suc (length shs))" "own t = served (sh # shs) address"
    using Cons.prems(3) owns_head [OF Cons.prems(4)] by auto
  have sfx: "suffix shs levels" using Cons.prems(5) by (rule suffix_ConsD)
  consider "pte_present (cells s ?E)" | "\<not> pte_present (cells s ?E)" "free_pages s xs = {}"
    | "\<not> pte_present (cells s ?E)" "free_pages s xs \<noteq> {}" by blast
  then show ?case
  proof cases
    case 1
    let ?n = "pte_target (cells s ?E)"
    have "walk_ok s xs shs address ?n" using Cons.prems(2) 1 unfolding walk_ok_def by simp
    moreover have "lev_ok s lev (free_pages s xs) shs address ?n" "owns s own shs address ?n"
      using Cons.prems(3,4) 1 by simp_all
    moreover have "vm_map_walk shs address ?n s = Inr (r, s')" using Cons.prems(6) 1 by simp
    moreover have "met s address shs ?n" using met_next [OF Cons.prems(8) 1] .
    ultimately obtain ys lev' own' where "space_step A s xs lev (length shs) s' ys lev' own'"
      "\<forall>b \<in> A. page_present s' b = page_present s b"
      "\<forall>u. r = Some u \<longrightarrow> aligned u \<and> u \<notin> free_pages s' ys \<and> lev' u = 1 \<and> own' u = served [] address"
      using Cons.IH Cons.prems(1,7) sfx by blast
    moreover from this(1) have "space_step A s xs lev (length (sh # shs)) s' ys lev' own'"
      unfolding space_step_def by fastforce
    ultimately show ?thesis by blast
  next
    case 2
    from vm_map_walk_full [OF Cons.prems(2) 2] Cons.prems(6) obtain c
      where c: "r = None" "s' = s\<lparr>con := c\<rparr>" "term_ok c" by auto
    note same = space_ok_cells [of s' s]
    have "space_ok A s' xs lev own" "blank_leaves s' xs lev = blank_leaves s xs lev" "free_pages s' xs = free_pages s xs"
      "page_present s' b = page_present s b" for b
      using same Cons.prems(1) c(2,3) by simp_all
    moreover have "tables A s' = tables A s" by (rule tables_cells) (simp_all add: c(2))
    ultimately have "space_step A s xs lev (length (sh # shs)) s' xs lev own"
      using c(2) unfolding space_step_def by (auto intro!: exI [of _ "{}"])
    then show ?thesis using c(1) \<open>\<And>b. page_present s' b = page_present s b\<close> by blast
  next
    case 3
    from new_table_added [OF Cons.prems(2) 3] obtain p s4 ys where step: "vm_map_walk (sh # shs) address t s = vm_map_walk shs address p s4"
      and p: "walk_ok s4 ys shs address p" "table_added s xs sh address t p s4 ys" by blast
    let ?lev = "lev(p := Suc (length shs))" and ?own = "own(p := served shs address)"
    have run: "vm_map_walk shs address p s4 = Inr (r, s')" using step Cons.prems(6) by simp
    note st = added_step [OF Cons.prems(1) p(1) t(1) p(2) Cons.prems(5) t(2) Cons.prems(7,8)]
    have "space_ok A s4 ys ?lev ?own" using st(1) by (simp add: space_step_def)
    moreover have "lev_ok s4 ?lev (free_pages s4 ys) shs address p"
      using added_keeps_inv(3) [where lev = lev and A = A, OF _ p(1) t(1) p(2)] Cons.prems(1) by (simp add: space_ok_def)
    moreover have "owns s4 ?own shs address p" using p(2) by (intro zero_table(3)) (auto simp: table_added_def)
    moreover have "met s4 address shs p"
    proof -
      obtain pre where pre: "pre @ sh # shs = levels" "table_path s pre address (cr3_root s) = Some t"
        using Cons.prems(8) by (auto simp: met_def)
      have "cr3_root s4 = cr3_root s" using p(2) by (simp add: table_added_def read_cr3_def)
      moreover have "lev_ok s lev (free_pages s xs) (pre @ sh # shs) address (cr3_root s)"
        using Cons.prems(1,7) unfolding space_ok_def vm_inv_with_def by (simp only: pre(1))
      then have "table_path s4 pre address (cr3_root s) = Some t" by (rule added_table_path [OF p(2) _ pre(2)])
      ultimately have "met s4 address (sh # shs) t" using pre(1) unfolding met_def by metis
      from met_next [OF this] show ?thesis using p(2) added_at [OF p(2)] by (simp add: table_added_def)
    qed
    ultimately obtain zs lev' own' where "space_step A s4 ys ?lev (length shs) s' zs lev' own'"
      "\<forall>b \<in> A. page_present s' b = page_present s4 b"
      "\<forall>u. r = Some u \<longrightarrow> aligned u \<and> u \<notin> free_pages s' zs \<and> lev' u = 1 \<and> own' u = served [] address"
      using Cons.IH [OF _ p(1) _ _ sfx run Cons.prems(7)] by blast
    moreover from space_step_trans [OF st(1) this(1)]
    have "space_step A s xs lev (length (sh # shs)) s' zs lev' own'" by simp
    ultimately show ?thesis using st(2) by auto
  qed
qed

section \<open>What mapping a page keeps and changes\<close>

lemma lev_ok_leaf: "lev_ok s lev free shs a t \<Longrightarrow> table_path s shs a t = Some u \<Longrightarrow> aligned u \<and> u \<notin> free \<and> lev u = 1"
  by (induction shs arbitrary: t) (auto simp: Let_def split: if_splits)

lemma owns_leaf: "owns s own shs a t \<Longrightarrow> table_path s shs a t = Some u \<Longrightarrow> own u = served [] a"
  by (induction shs arbitrary: t) (auto simp: Let_def split: if_splits)

text \<open>The store to a last-level entry makes present the page of that entry and no other.\<close>

lemma leaf_store_step:
  assumes ok: "space_ok A s xs lev own" and t: "aligned t" "t \<notin> free_pages s xs" "lev t = 1" "own t = served [] a"
    and v: "pte_present v" "pte_target v = pte_target (cells s (entry_at s t a 12))"
  defines "s' \<equiv> invalidate_tlb a (store (entry_at s t a 12) v s)"
  shows "space_step A s xs lev 0 s' xs lev own"
    and "b \<in> A \<Longrightarrow> page_present s' b \<Longrightarrow> page_present s b \<or> page_no b = page_no a"
    and "b \<in> A \<Longrightarrow> page_present s b \<Longrightarrow> page_present s' b"
proof -
  have inv: "vm_inv_with A s xs lev" "owned A s own" using ok by (simp_all add: space_ok_def)
  have f: "hhdm_addr s' = hhdm_addr s" "cr3 s' = cr3 s" by (simp_all add: s'_def invalidate_tlb_def)
  have cell: "cells s' b = (if b = entry_at s t a 12 then v else cells s b)" for b
    by (simp add: s'_def invalidate_tlb_def store_def)
  have same: "cells s' (entry_at s q b sh) = cells s (entry_at s q b sh)" if "aligned q" "2 \<le> lev q" for q b sh
    using entry_inj [OF that(1) t(1), of s b sh a 12] that(2) t(3) unfolding cell by auto
  have path: "lev_ok s lev (free_pages s xs) levels b (cr3_root s)" if "b \<in> A" for b
    using inv(1) that by (simp add: vm_inv_with_def del: lev_ok.simps)
  have keep: "owns s' own levels b (cr3_root s) = owns s own levels b (cr3_root s)
      \<and> table_path s' levels b (cr3_root s) = table_path s levels b (cr3_root s)
      \<and> path_tables s' levels b (cr3_root s) = path_tables s levels b (cr3_root s)" if "b \<in> A" for b
    by (rule path_same [OF f(1) same path [OF that]])
  have root: "cr3_root s' = cr3_root s" using f(2) by (simp add: read_cr3_def)
  have "owned A s' own" using inv(2) keep unfolding owned_def root by blast
  moreover have "tables A s' = tables A s" using keep unfolding tables_def root by auto
  moreover have "vm_inv_with A s' xs lev" unfolding s'_def by (rule leaf_store_keeps_inv [OF inv(1) t(1-3)])
  moreover have "blank_leaves s' xs lev" if "blank_leaves s xs lev"
  proof -
    have "pte_target (cells s (entry_at s t a 12)) = 0"
      using that t(1-3) pt_index_bound unfolding blank_leaves_def entry_at_page by blast
    then show ?thesis unfolding s'_def using v(2) that by (intro leaf_store_keeps_blank [OF inv(1) t(1-3)]) simp_all
  qed
  moreover have "free_pages s' xs = free_pages s xs"
  proof (rule fl_inv_outside(2) [OF _ f(1)])
    show fl: "fl_inv s xs" using inv(1) by (simp add: vm_inv_with_def)
    show "freelist s' = freelist s" by (simp add: s'_def invalidate_tlb_def)
    show "same_page s s' q" if "q \<in> free_pages s xs" for q
      unfolding same_page_def cell using ptov_offset_eq [OF free_pages_aligned [OF fl that] t(1) _ pt_index_bound] that t(2)
      by (auto simp: entry_at_page)
  qed
  ultimately show "space_step A s xs lev 0 s' xs lev own"
    using f(2) unfolding space_step_def space_ok_def by (auto intro: exI [of _ "{}"])
  show "page_present s' b" if b: "b \<in> A" "page_present s b"
  proof -
    obtain u where u: "table_path s levels b (cr3_root s) = Some u" "pte_present (cells s (entry_at s u b 12))"
      using b(2) unfolding page_present_path path_present_def by (auto simp del: table_path.simps split: option.splits)
    have "entry_at s' u b 12 = entry_at s u b 12" using f(1) by (simp add: entry_at_page)
    then have "pte_present (cells s' (entry_at s' u b 12))" using u(2) v(1) unfolding cell by simp
    moreover have "table_path s' levels b (cr3_root s') = Some u" using keep [OF b(1)] u(1) unfolding root by (simp only:)
    ultimately show ?thesis unfolding page_present_path path_present_def by (simp del: table_path.simps)
  qed
  assume b: "b \<in> A" "page_present s' b"
  have "table_path s' levels b (cr3_root s') = table_path s levels b (cr3_root s)" using keep [OF b(1)] root by simp
  then obtain u where u: "table_path s levels b (cr3_root s) = Some u" "pte_present (cells s' (entry_at s' u b 12))"
    using b(2) unfolding page_present_path path_present_def by (auto simp del: table_path.simps split: option.splits)
  have eu: "entry_at s' u b 12 = entry_at s u b 12" using f(1) by (simp add: entry_at_page)
  show "page_present s b \<or> page_no b = page_no a"
  proof (cases "entry_at s u b 12 = entry_at s t a 12")
    case False
    then have "pte_present (cells s (entry_at s u b 12))" using u(2) unfolding eu cell by simp
    then have "page_present s b" unfolding page_present_path path_present_def u(1) by simp
    then show ?thesis ..
  next
    case True
    have "aligned u" using lev_ok_leaf [OF path [OF b(1)] u(1)] by blast
    then have ut: "u = t" "pt_index b 12 = pt_index a 12" using True entry_inj t(1) by blast+
    have "own u = served [] b"
      using owns_leaf [OF _ u(1)] inv(2) b(1) unfolding owned_def by blast
    then have "bits_from (12 + 9) b = bits_from (12 + 9) a" using ut(1) t(4) by simp
    then have "page_no b = page_no a" unfolding page_no_def using ut(2) by (rule bits_step [rotated]) simp
    then show ?thesis ..
  qed
qed

text \<open>The addresses of one page take the same path.\<close>

lemma page_present_no:
  assumes "page_no a = page_no b"
  shows "page_present s a = page_present s b"
proof -
  note index = index_page [OF _ _ assms]
  have "path_present s shs a t = path_present s shs b t" if "\<forall>sh \<in> set shs. 12 \<le> sh \<and> sh \<le> 39" for shs t
    using that by (induction shs arbitrary: t) (simp_all add: path_present_simps Let_def entry_at_page index)
  then show ?thesis by (simp add: page_present_path)
qed

lemma space_ok_walk:
  assumes "space_ok A s xs lev own" and "a \<in> A"
  shows "walk_ok s xs levels a (cr3_root s)" and "lev_ok s lev (free_pages s xs) levels a (cr3_root s)"
    and "owns s own levels a (cr3_root s)"
  using assms vm_inv_walk_ok unfolding space_ok_def vm_inv_with_def owned_def by blast+

lemma vm_map_step:
  assumes ok: "space_ok A s xs lev own" and a: "a \<in> A"
  shows "\<exists>rc s' ys lev' own'. vm_map (cr3_root s) a u w x s = Inr (rc, s') \<and> space_step A s xs lev 3 s' ys lev' own'
    \<and> (\<forall>b \<in> A. page_present s' b \<longleftrightarrow> page_present s b \<or> rc \<and> page_no b = page_no a)"
proof -
  note path = space_ok_walk [OF ok a]
  obtain r s1 where r: "vm_map_walk levels a (cr3_root s) s = Inr (r, s1)"
    using vm_map_walk_spec [OF path(1)] by blast
  from walk_keeps [OF ok path suffix_order.order_refl r a met_start] obtain ys lev' own'
    where st0: "space_step A s xs lev (length levels) s1 ys lev' own'" and pres: "\<forall>b \<in> A. page_present s1 b = page_present s b"
      and upd: "\<And>t. r = Some t \<Longrightarrow> aligned t \<and> t \<notin> free_pages s1 ys \<and> lev' t = 1 \<and> own' t = served [] a" by blast
  have "length levels = 3" by simp
  then have st: "space_step A s xs lev 3 s1 ys lev' own'" using st0 by (simp only:)
  have ok1: "space_ok A s1 ys lev' own'" using st by (simp add: space_step_def)
  show ?thesis
  proof (cases r)
    case None
    then have "vm_map (cr3_root s) a u w x s = Inr (False, s1)" using r by (simp add: vm_map_def del: vm_map_walk.simps)
    then show ?thesis using st pres by blast
  next
    case (Some t)
    let ?p = "entry_at s1 t a 12"
    show ?thesis
    proof (cases "pte_present (cells s1 ?p)")
      case True
      have "term_ok (con s1)" using ok1 by (simp add: space_ok_def vm_inv_with_def)
      then obtain c where c: "mprintf (c_lit (''Address is already mapped'' @ [CHR 0x0A])) [] s1 = Inr (s1\<lparr>con := c\<rparr>)"
          "term_ok c"
        using mprintf_plain [of s1 "''Address is already mapped'' @ [CHR 0x0A]"] by (auto simp: bytes_of_def)
      note same = space_ok_cells [of "s1\<lparr>con := c\<rparr>" s1, simplified, OF c(2)]
      have "tables A (s1\<lparr>con := c\<rparr>) = tables A s1" by (rule tables_cells) simp_all
      then have "space_step A s1 ys lev' 0 (s1\<lparr>con := c\<rparr>) ys lev' own'"
        using same ok1 unfolding space_step_def by (auto intro: exI [of _ "{}"])
      from space_step_trans [OF st this] have "space_step A s xs lev 3 (s1\<lparr>con := c\<rparr>) ys lev' own'" by simp
      moreover have "vm_map (cr3_root s) a u w x s = Inr (False, s1\<lparr>con := c\<rparr>)"
        using r Some True c(1) by (simp add: vm_map_def Let_def del: vm_map_walk.simps)
      ultimately show ?thesis using same(3) pres by blast
    next
      case False
      let ?v = "pte_set_flags True u w (\<not> x) (cells s1 ?p)"
      let ?s = "invalidate_tlb a (store ?p ?v s1)"
      have t: "aligned t" "t \<notin> free_pages s1 ys" "lev' t = 1" "own' t = served [] a" using upd Some by blast+
      have v: "pte_present ?v" "pte_target ?v = pte_target (cells s1 ?p)" by simp_all
      note leaf = leaf_store_step [OF ok1 t v]
      have run: "vm_map (cr3_root s) a u w x s = Inr (True, ?s)"
        using r Some False by (simp add: vm_map_def Let_def del: vm_map_walk.simps)
      obtain zs where "map_post s xs (cr3_root s) a u w x True ?s zs" using vm_map_post [OF path(1), of u w x] run by auto
      then have "page_present ?s a" by (auto simp: map_post_def page_present_def read_cr3_def)
      then have "page_present ?s b" if "page_no b = page_no a" for b using page_present_no [OF that] by simp
      moreover from space_step_trans [OF st leaf(1)] have "space_step A s xs lev 3 ?s ys lev' own'" by simp
      ultimately show ?thesis using run leaf(2,3) pres by blast
    qed
  qed
qed

text \<open>In terms of the invariants.\<close>

lemma vm_map_keeps_inv:
  assumes "vm_inv A s" and "a \<in> A"
  shows "\<exists>rc s'. vm_map (cr3_root s) a u w x s = Inr (rc, s') \<and> vm_inv A s'
    \<and> (\<forall>b \<in> A. page_present s' b \<longleftrightarrow> page_present s b \<or> rc \<and> page_no b = page_no a)"
proof -
  obtain xs lev own where "space_ok A s xs lev own" using assms(1) by (auto simp: vm_inv_def)
  from vm_map_step [OF this assms(2), of u w x] show ?thesis unfolding vm_inv_def space_step_def by blast
qed

lemma vm_map_keeps_blank:
  assumes "blank_space A s" and "a \<in> A" and "vm_map (cr3_root s) a u w x s = Inr (rc, s')"
  shows "blank_space A s'"
proof -
  obtain xs lev own where s: "space_ok A s xs lev own" "blank_leaves s xs lev" using assms(1) by (auto simp: blank_space_def)
  from vm_map_step [OF s(1) assms(2), of u w x] s(2) assms(3) show ?thesis
    unfolding blank_space_def space_step_def by fastforce
qed

text \<open>At most three pages leave the free list.\<close>

lemma vm_map_uses:
  assumes "vm_inv A s" and "a \<in> A" and "vm_map (cr3_root s) a u w x s = Inr (rc, s')"
  shows "\<exists>Q. finite Q \<and> card Q \<le> 3 \<and> mem_avail s' = mem_avail s - Q"
proof -
  obtain xs lev own where s: "space_ok A s xs lev own" using assms(1) by (auto simp: vm_inv_def)
  then have "mem_avail s = free_pages s xs" using mem_avail_eq by (auto simp: space_ok_def vm_inv_with_def)
  moreover obtain ys lev' own' where "space_step A s xs lev 3 s' ys lev' own'" using vm_map_step [OF s assms(2), of u w x] assms(3) by auto
  moreover from this have "mem_avail s' = free_pages s' ys" using mem_avail_eq by (auto simp: space_step_def space_ok_def vm_inv_with_def)
  ultimately show ?thesis unfolding space_step_def by metis
qed

text \<open>No page is lost: one that has left the free list is a table of the space.\<close>

lemma vm_map_pool:
  assumes "vm_inv A s" and "a \<in> A" and "vm_map (cr3_root s) a u w x s = Inr (rc, s')"
  shows "mem_avail s' \<union> tables A s' = mem_avail s \<union> tables A s"
proof -
  obtain xs lev own where s: "space_ok A s xs lev own" using assms(1) by (auto simp: vm_inv_def)
  then have "mem_avail s = free_pages s xs" using mem_avail_eq by (auto simp: space_ok_def vm_inv_with_def)
  moreover obtain ys lev' own' where "space_step A s xs lev 3 s' ys lev' own'" using vm_map_step [OF s assms(2), of u w x] assms(3) by auto
  moreover from this have "mem_avail s' = free_pages s' ys" using mem_avail_eq by (auto simp: space_step_def space_ok_def vm_inv_with_def)
  ultimately show ?thesis unfolding space_step_def by metis
qed

text \<open>All the pages of a blank space are the page at physical address 0.\<close>

lemma blank_target:
  assumes "blank_space A s" and "a \<in> A" and "leaf_entry s a (cr3_root s) = Some e"
  shows "pte_target e = 0"
proof -
  obtain xs lev own where s: "space_ok A s xs lev own" "blank_leaves s xs lev" using assms(1) by (auto simp: blank_space_def)
  obtain t where t: "table_path s levels a (cr3_root s) = Some t" "e = cells s (entry_at s t a 12)"
    using assms(3) unfolding leaf_entry_def by blast
  from lev_ok_leaf [OF space_ok_walk(2) [OF s(1) assms(2)] t(1)] show ?thesis
    using s(2) pt_index_bound unfolding blank_leaves_def t(2) entry_at_page by blast
qed

end
