(* ===== verification/Mappings.thy ===== *)
theory Mappings
  imports Spaces
begin

text \<open>
  What mapping one page does to the others: \<open>vm_map\<close> (\<^verbatim>\<open>src/kernel/memory.c\<close>) never changes an
  entry that is present, so every page that was mapped stays mapped as it was. \<open>page_mapper\<close> is
  the interface of a routine that maps one page, for the loops that map one page after the
  other.
\<close>

section \<open>Present entries are kept\<close>

definition entries_kept :: "u64 set \<Rightarrow> mem_state \<Rightarrow> mem_state \<Rightarrow> bool" where
  "entries_kept free s s' \<longleftrightarrow> hhdm_addr s' = hhdm_addr s \<and>
     (\<forall>q d. aligned q \<longrightarrow> q \<notin> free \<longrightarrow> unat d < 4096 \<longrightarrow> pte_present (cells s (q + hhdm_addr s + d)) \<longrightarrow>
        cells s' (q + hhdm_addr s + d) = cells s (q + hhdm_addr s + d))"

lemma kept_refl: "hhdm_addr s' = hhdm_addr s \<Longrightarrow> cells s' = cells s \<Longrightarrow> entries_kept free s s'"
  by (simp add: entries_kept_def)

lemma kept_trans:
  assumes st: "entries_kept free s t" and tu: "entries_kept free' t u" and sub: "free' \<subseteq> free"
  shows "entries_kept free s u"
proof -
  have h: "hhdm_addr t = hhdm_addr s" "hhdm_addr u = hhdm_addr t" using st tu by (simp_all add: entries_kept_def)
  have "cells u (q + hhdm_addr s + d) = cells s (q + hhdm_addr s + d)"
    if "aligned q" "q \<notin> free" "unat d < 4096" "pte_present (cells s (q + hhdm_addr s + d))" for q d
  proof -
    have "cells t (q + hhdm_addr s + d) = cells s (q + hhdm_addr s + d)"
      using st that unfolding entries_kept_def by blast
    moreover have "q \<notin> free'" using that(2) sub by blast
    ultimately show ?thesis using tu that h unfolding entries_kept_def by simp
  qed
  then show ?thesis using h by (simp add: entries_kept_def)
qed

lemma walk_keeps_entries:
  "walk_ok s xs shs address t \<Longrightarrow> vm_map_walk shs address t s = Inr (r, s') \<Longrightarrow>
   entries_kept (free_pages s xs) s s'"
proof (induction shs arbitrary: s xs t)
  case Nil
  then show ?case by (simp add: kept_refl)
next
  case (Cons sh shs)
  let ?E = "entry_at s t address sh"
  consider "pte_present (cells s ?E)" | "\<not> pte_present (cells s ?E)" "free_pages s xs = {}"
    | "\<not> pte_present (cells s ?E)" "free_pages s xs \<noteq> {}" by blast
  then show ?case
  proof cases
    case 1
    then have "walk_ok s xs shs address (pte_target (cells s ?E))" using Cons.prems(1) unfolding walk_ok_def by simp
    then show ?thesis using Cons.IH Cons.prems(2) 1 by simp
  next
    case 2
    from vm_map_walk_full [OF Cons.prems(1) 2] Cons.prems(2) show ?thesis by (auto intro: kept_refl)
  next
    case 3
    from new_table_step [OF Cons.prems(1) 3] obtain p s4 ys where p:
      "vm_map_walk (sh # shs) address t s = vm_map_walk shs address p s4"
      "walk_ok s4 ys shs address p" "free_pages s4 ys = free_pages s xs - {p}" "hhdm_addr s4 = hhdm_addr s"
      and cell: "\<forall>q d. aligned q \<longrightarrow> q \<notin> free_pages s xs \<longrightarrow> unat d < 4096 \<longrightarrow> q + hhdm_addr s + d \<noteq> ?E \<longrightarrow>
         cells s4 (q + hhdm_addr s + d) = cells s (q + hhdm_addr s + d)"
      by (elim exE conjE)
    have "entries_kept (free_pages s xs) s s4"
      unfolding entries_kept_def using cell 3(1) p(4) by metis
    moreover have "entries_kept (free_pages s4 ys) s4 s'" using Cons.IH [OF p(2)] p(1) Cons.prems(2) by simp
    ultimately show ?thesis using kept_trans p(3) by blast
  qed
qed

lemma vm_map_keeps_entries:
  assumes ok: "walk_ok s xs [39, 30, 21] a root" and run: "vm_map root a u w x s = Inr (rc, s')"
  shows "entries_kept (free_pages s xs) s s'"
proof -
  obtain r s1 where r: "vm_map_walk [39, 30, 21] a root s = Inr (r, s1)"
    using vm_map_walk_spec [OF ok] by blast
  note kept = walk_keeps_entries [OF ok r]
  show ?thesis
  proof (cases r)
    case None
    then show ?thesis using run r kept by (simp add: vm_map_def del: vm_map_walk.simps)
  next
    case (Some t)
    let ?p = "entry_at s1 t a 12"
    show ?thesis
    proof (cases "pte_present (cells s1 ?p)")
      case True
      then have "cells s' = cells s1" "hhdm_addr s' = hhdm_addr s1"
        using run r Some by (auto simp: vm_map_def Let_def mprintf_def simp del: vm_map_walk.simps)
      then show ?thesis using kept by (simp add: entries_kept_def)
    next
      case False
      then have s': "cells s' b = cells s1 b" "hhdm_addr s' = hhdm_addr s1" if "pte_present (cells s1 b)" for b
        using run r Some that by (auto simp: vm_map_def Let_def store_def invalidate_tlb_def simp del: vm_map_walk.simps)
      have h: "hhdm_addr s' = hhdm_addr s1"
        using run r Some False by (auto simp: vm_map_def Let_def store_def invalidate_tlb_def simp del: vm_map_walk.simps)
      show ?thesis using kept s'(1) h unfolding entries_kept_def by metis
    qed
  qed
qed

lemma kept_path:
  "lev_ok s lev free shs a t \<Longrightarrow> entries_kept free s s' \<Longrightarrow> table_path s shs a t = Some u \<Longrightarrow>
   table_path s' shs a t = Some u \<and> aligned u \<and> u \<notin> free"
proof (induction shs arbitrary: t)
  case (Cons sh shs)
  let ?e = "cells s (entry_at s t a sh)"
  have pres: "pte_present ?e" and rest: "table_path s shs a (pte_target ?e) = Some u"
    using Cons.prems(3) by (simp_all add: Let_def split: if_splits)
  have t: "aligned t" "t \<notin> free" using lev_ok_head [OF Cons.prems(1)] by blast+
  have "entry_at s' t a sh = entry_at s t a sh" using Cons.prems(2) by (simp add: entries_kept_def entry_at_page)
  moreover have "cells s' (entry_at s t a sh) = ?e"
    using Cons.prems(2) t pres pt_index_bound unfolding entries_kept_def entry_at_page by blast
  moreover have "lev_ok s lev free shs a (pte_target ?e)" using Cons.prems(1) pres by simp
  ultimately show ?case using Cons.IH [OF _ Cons.prems(2) rest] pres by simp
qed simp

lemma kept_leaf:
  assumes "lev_ok s lev free [39, 30, 21] b root" and "entries_kept free s s'"
    and "leaf_entry s b root = Some e" and "pte_present e"
  shows "leaf_entry s' b root = Some e"
proof -
  obtain u where u: "table_path s [39, 30, 21] b root = Some u" "e = cells s (entry_at s u b 12)"
    using assms(3) by (auto simp: leaf_entry_def simp del: table_path.simps)
  from kept_path [OF assms(1,2) u(1)] have u': "table_path s' [39, 30, 21] b root = Some u" "aligned u" "u \<notin> free"
    by blast+
  have "cells s' (entry_at s u b 12) = e"
    using assms(2,4) u(2) u'(2,3) pt_index_bound unfolding entries_kept_def entry_at_page by blast
  moreover have "entry_at s' u b 12 = entry_at s u b 12" using assms(2) by (simp add: entries_kept_def entry_at_page)
  ultimately show ?thesis using u'(1) by (simp add: leaf_entry_def del: table_path.simps)
qed

text \<open>One call of \<open>vm_map\<close> under the invariant.\<close>

lemma vm_map_maps:
  assumes inv: "vm_inv A s" and a: "a \<in> A"
  shows "\<exists>rc s'. vm_map (cr3_root s) a u w x s = Inr (rc, s') \<and> vm_inv A s' \<and> cr3 s' = cr3 s
    \<and> (page_present s' a \<or> mem_avail s' = {}) \<and> mem_avail s' \<subseteq> mem_avail s
    \<and> (\<forall>b \<in> A. \<forall>e. leaf_entry s b (cr3_root s) = Some e \<longrightarrow> pte_present e \<longrightarrow> leaf_entry s' b (cr3_root s') = Some e)"
proof -
  obtain rc s' where r: "vm_map (cr3_root s) a u w x s = Inr (rc, s')" "vm_inv A s'"
    using vm_map_keeps_inv [OF assms] by blast
  obtain xs lev where xs: "vm_inv_with A s xs lev" using inv by (auto simp: vm_inv_def space_ok_def)
  note ok = vm_inv_walk_ok [OF xs a]
  obtain ys where post: "map_post s xs (cr3_root s) a u w x rc s' ys"
    using vm_map_post [OF ok, of u w x] r(1) by auto
  have cr3: "cr3 s' = cr3 s" and fl: "fl_inv s' ys" "free_pages s' ys \<subseteq> free_pages s xs"
    using post by (simp_all add: map_post_def)
  then have root: "cr3_root s' = cr3_root s" by (simp add: read_cr3_def)
  have av: "mem_avail s' = free_pages s' ys" "mem_avail s = free_pages s xs"
    using mem_avail_eq fl(1) xs by (auto simp: vm_inv_with_def)
  note kept = vm_map_keeps_entries [OF ok r(1)]
  have leaf: "leaf_entry s' b (cr3_root s') = Some e"
    if "b \<in> A" "leaf_entry s b (cr3_root s) = Some e" "pte_present e" for b e
    using kept_leaf [OF _ kept that(2,3)] that(1) xs root by (auto simp: vm_inv_with_def simp del: lev_ok.simps)
  have "page_present s' a \<or> mem_avail s' = {}"
    using post leaf [OF a] unfolding map_post_def page_present_def root av(1)
    by (auto split: if_splits)
  then show ?thesis using r cr3 leaf av fl(2) by blast
qed

section \<open>Three free pages are enough\<close>

lemma walk_succeeds:
  "walk_ok s xs shs address t \<Longrightarrow> P \<subseteq> free_pages s xs \<Longrightarrow> finite P \<Longrightarrow> length shs \<le> card P \<Longrightarrow>
   vm_map_walk shs address t s = Inr (r, s') \<Longrightarrow> r \<noteq> None"
proof (induction shs arbitrary: s xs t P)
  case (Cons sh shs)
  let ?E = "entry_at s t address sh"
  show ?case
  proof (cases "pte_present (cells s ?E)")
    case True
    then have "walk_ok s xs shs address (pte_target (cells s ?E))" using Cons.prems(1) unfolding walk_ok_def by simp
    then show ?thesis using Cons.IH [of s xs _ P] Cons.prems True by simp
  next
    case False
    have "P \<noteq> {}" using Cons.prems(4) by auto
    then have ne: "free_pages s xs \<noteq> {}" using Cons.prems(2) by blast
    from new_table_step [OF Cons.prems(1) False ne] obtain p s4 ys where p:
      "vm_map_walk (sh # shs) address t s = vm_map_walk shs address p s4"
      "walk_ok s4 ys shs address p" "free_pages s4 ys = free_pages s xs - {p}"
      by (elim exE conjE)
    have "P - {p} \<subseteq> free_pages s4 ys" using Cons.prems(2) p(3) by blast
    moreover have "length shs \<le> card (P - {p})" using Cons.prems(4) card_Diff1_le [of P p] by (cases "p \<in> P") (simp_all add: Cons.prems(3))
    moreover have "vm_map_walk shs address p s4 = Inr (r, s')" using p(1) Cons.prems(5) by simp
    ultimately show ?thesis using Cons.IH [OF p(2)] Cons.prems(3) by blast
  qed
qed auto

text \<open>The leaf entry of a page that is not mapped, or no leaf table yet.\<close>

definition unmapped_target :: "mem_state \<Rightarrow> u64 \<Rightarrow> u64" where
  "unmapped_target m a = (case leaf_entry m a (cr3_root m) of None \<Rightarrow> 0 | Some e \<Rightarrow> pte_target e)"

lemma vm_map_succeeds:
  assumes inv: "vm_inv A s" and a: "a \<in> A" and absent: "\<not> page_present s a"
    and P: "P \<subseteq> mem_avail s" "finite P" "3 \<le> card P"
  shows "\<exists>s' e. vm_map (cr3_root s) a u w x s = Inr (True, s') \<and> vm_inv A s' \<and> cr3 s' = cr3 s
    \<and> leaf_entry s' a (cr3_root s') = Some e \<and> pte_present e \<and> pte_target e = unmapped_target s a
    \<and> pte_user e = u \<and> pte_writable e = w \<and> pte_no_execute e = (\<not> x)
    \<and> (\<forall>b \<in> A. \<forall>e. leaf_entry s b (cr3_root s) = Some e \<longrightarrow> pte_present e \<longrightarrow> leaf_entry s' b (cr3_root s') = Some e)"
proof -
  obtain rc s' where r: "vm_map (cr3_root s) a u w x s = Inr (rc, s')" "vm_inv A s'" "cr3 s' = cr3 s"
    and kept: "\<forall>b \<in> A. \<forall>e. leaf_entry s b (cr3_root s) = Some e \<longrightarrow> pte_present e \<longrightarrow> leaf_entry s' b (cr3_root s') = Some e"
    using vm_map_maps [OF inv a] by blast
  obtain xs lev where xs: "vm_inv_with A s xs lev" using inv by (auto simp: vm_inv_def space_ok_def)
  note ok = vm_inv_walk_ok [OF xs a]
  have "mem_avail s = free_pages s xs" using mem_avail_eq xs by (simp add: vm_inv_with_def)
  then have sub: "P \<subseteq> free_pages s xs" using P(1) by simp
  obtain ro s1 where w: "vm_map_walk [39, 30, 21] a (cr3_root s) s = Inr (ro, s1)" using vm_map_walk_spec [OF ok] by blast
  have "length [39, 30, 21 :: nat] \<le> card P" using P(3) by simp
  then obtain t where t: "ro = Some t" using walk_succeeds [OF ok sub P(2) _ w] by auto
  obtain ys where post: "map_post s xs (cr3_root s) a u w x rc s' ys"
    using vm_map_post [OF ok, of u w x] r(1) by auto
  have rc: rc
  proof (rule ccontr)
    assume "\<not> rc"
    then have "leaf_entry s a (cr3_root s) = None \<and> free_pages s' ys = {}"
      using post absent by (auto simp: map_post_def page_present_def split: option.splits)
    then have none: "leaf_entry s a (cr3_root s) = None" ..
    obtain zs where wp: "walk_post s xs [39, 30, 21] a (cr3_root s) (Some t) s1 zs"
      using vm_map_walk_spec [OF ok] w t by auto
    have path: "table_path s [39, 30, 21] a (cr3_root s) = None" using none by (simp add: leaf_entry_def del: table_path.simps)
    then have "cells s1 (t + hhdm_addr s + 8 * pt_index a 12) = 0" "hhdm_addr s1 = hhdm_addr s"
      using wp pt_index_bound by (simp_all add: walk_post_def del: table_path.simps path_tables.simps)
    then have "\<not> pte_present (cells s1 (entry_at s1 t a 12))" by (simp add: entry_at_page pte_present_def)
    then show False using r(1) w t \<open>\<not> rc\<close> by (simp add: vm_map_def Let_def del: vm_map_walk.simps)
  qed
  have root: "cr3_root s' = cr3_root s" using r(3) by (simp add: read_cr3_def)
  obtain e where "leaf_entry s' a (cr3_root s) = Some e" "pte_present e" "pte_user e = u" "pte_writable e = w"
    "pte_no_execute e = (\<not> x)" "pte_target e = unmapped_target s a"
    using post rc by (auto simp: map_post_def unmapped_target_def)
  then show ?thesis using r kept rc root by auto
qed

section \<open>A mapping that succeeds prints nothing\<close>

lemma pmem_alloc_loop_con: "pmem_alloc_loop cur prev s = Some r \<Longrightarrow> con (snd r) = con s"
proof (rule pmem_alloc_loop.raw_induct [where P = "\<lambda>cur prev s r. con (snd r) = con s"])
  fix rec cur prev s r
  assume IH: "\<And>cur prev s r. rec cur prev s = Some r \<Longrightarrow> con (snd r) = con s"
    and body: "(if cur = 0 then Some (-1, s)
     else if node_size s cur < PAGESIZE then rec (node_next s cur) cur s
     else
       (let result = node_addr s cur + node_size s cur - PAGESIZE;
            s = store cur (node_size s cur - PAGESIZE) s;
            s = (if node_size s cur = 0 then
                   (if prev = 0 then s\<lparr>freelist := node_next s cur\<rparr>
                    else store (prev + 16) (node_next s cur) s)
                 else s)
        in Some (result, s))) = Some r"
  then show "con (snd r) = con s" by (auto simp: Let_def store_def split: if_splits)
qed

lemma pmem_alloc_con: "pmem_alloc s = Inr (p, s') \<Longrightarrow> con s' = con s"
  by (auto simp: pmem_alloc_def split: option.splits dest: pmem_alloc_loop_con)

lemma walk_quiet: "vm_map_walk shs a t s = Inr (Some u, s') \<Longrightarrow> con s' = con s"
proof (induction shs arbitrary: t s)
  case (Cons sh shs)
  let ?E = "entry_at s t a sh"
  show ?case
  proof (cases "pte_present (cells s ?E)")
    case True
    then show ?thesis using Cons.IH Cons.prems by simp
  next
    case False
    then obtain p s1 where p: "pmem_alloc s = Inr (p, s1)" using Cons.prems by (cases "pmem_alloc s") auto
    have "p \<noteq> -1"
    proof
      assume "p = -1"
      then show False using Cons.prems False p
        by (cases "mprintf (c_lit ''Could not allocate new page'') [] s1") simp_all
    qed
    then show ?thesis using Cons.IH Cons.prems False p pmem_alloc_con [OF p]
      by (fastforce simp: Let_def zero_page_def store_def)
  qed
qed simp

lemma vm_map_quiet:
  assumes "vm_map root a u w x s = Inr (True, s')"
  shows "con s' = con s"
proof -
  obtain t s1 where t: "vm_map_walk [39, 30, 21] a root s = Inr (Some t, s1)"
    using assms by (auto simp: vm_map_def simp del: vm_map_walk.simps split: option.splits)
  have "\<not> pte_present (cells s1 (entry_at s1 t a 12))"
    using assms t by (cases "mprintf (c_lit (''Address is already mapped'' @ [CHR 0x0A])) [] s1")
      (auto simp: vm_map_def Let_def simp del: vm_map_walk.simps)
  then have "con s' = con s1" using assms t by (auto simp: vm_map_def Let_def invalidate_tlb_def store_def simp del: vm_map_walk.simps)
  then show ?thesis using walk_quiet [OF t] by simp
qed

text \<open>All that a call of \<open>vm_map\<close> that succeeds does to the address space.\<close>

definition maps_page :: "u64 set \<Rightarrow> u64 \<Rightarrow> mem_state \<Rightarrow> mem_state \<Rightarrow> bool" where
  "maps_page A a m m' \<longleftrightarrow> con m' = con m \<and> cr3 m' = cr3 m \<and> (blank_space A m \<longrightarrow> blank_space A m')
     \<and> (\<forall>b \<in> A. page_present m' b \<longleftrightarrow> page_present m b \<or> page_no b = page_no a)
     \<and> (\<exists>Q. finite Q \<and> card Q \<le> 3 \<and> mem_avail m' = mem_avail m - Q)"

lemma vm_map_maps_page:
  assumes "vm_inv A s" and "a \<in> A" and "vm_map (cr3_root s) a u w x s = Inr (True, s')"
  shows "maps_page A a s s'"
proof -
  have "con s' = con s" using vm_map_quiet [OF assms(3)] .
  moreover have "cr3 s' = cr3 s" using vm_map_maps [OF assms(1,2), of u w x] assms(3) by auto
  moreover have "\<forall>b \<in> A. page_present s' b \<longleftrightarrow> page_present s b \<or> page_no b = page_no a"
    using vm_map_keeps_inv [OF assms(1,2), of u w x] assms(3) by auto
  ultimately show ?thesis
    using vm_map_keeps_blank [OF _ assms(2,3)] vm_map_uses [OF assms] by (simp add: maps_page_def)
qed

section \<open>Mapping pages one after the other\<close>

locale page_mapper =
  fixes map_page :: "'a \<Rightarrow> 's \<Rightarrow> 's res" and inv :: "'s \<Rightarrow> bool" and space :: "'a set"
    and mapped :: "'s \<Rightarrow> 'a \<Rightarrow> bool" and exhausted :: "'s \<Rightarrow> bool"
  assumes map_law: "inv s \<Longrightarrow> a \<in> space \<Longrightarrow> \<exists>s'. map_page a s = Inr s' \<and> inv s' \<and> (mapped s' a \<or> exhausted s')
      \<and> (\<forall>b \<in> space. mapped s b \<longrightarrow> mapped s' b) \<and> (exhausted s \<longrightarrow> exhausted s')"
begin

primrec map_each :: "'a list \<Rightarrow> 's \<Rightarrow> 's res" where
  "map_each [] s = Inr s"
| "map_each (a # as) s = bindE (map_page a s) (map_each as)"

lemma map_each_maps:
  "inv s \<Longrightarrow> set as \<subseteq> space \<Longrightarrow> \<exists>s'. map_each as s = Inr s' \<and> inv s'
     \<and> ((\<forall>a \<in> set as. mapped s' a) \<or> exhausted s')
     \<and> (\<forall>b \<in> space. mapped s b \<longrightarrow> mapped s' b) \<and> (exhausted s \<longrightarrow> exhausted s')"
proof (induction as arbitrary: s)
  case (Cons a as)
  have a: "a \<in> space" "set as \<subseteq> space" using Cons.prems(2) by auto
  obtain t where t: "map_page a s = Inr t" "inv t" "mapped t a \<or> exhausted t"
    "\<forall>b \<in> space. mapped s b \<longrightarrow> mapped t b" "exhausted s \<longrightarrow> exhausted t"
    using map_law [OF Cons.prems(1) a(1)] by blast
  obtain u where "map_each as t = Inr u" "inv u" "(\<forall>a \<in> set as. mapped u a) \<or> exhausted u"
    "\<forall>b \<in> space. mapped t b \<longrightarrow> mapped u b" "exhausted t \<longrightarrow> exhausted u"
    using Cons.IH [OF t(2) a(2)] by blast
  then show ?case using t a(1) by auto
qed simp

text \<open>What each call keeps, the run keeps.\<close>

lemma map_each_keeps:
  assumes keep: "\<And>s a s'. inv s \<Longrightarrow> P s \<Longrightarrow> a \<in> space \<Longrightarrow> map_page a s = Inr s' \<Longrightarrow> P s'"
  shows "inv s \<Longrightarrow> P s \<Longrightarrow> set as \<subseteq> space \<Longrightarrow> map_each as s = Inr s' \<Longrightarrow> P s'"
proof (induction as arbitrary: s)
  case (Cons a as)
  have a: "a \<in> space" "set as \<subseteq> space" using Cons.prems(3) by auto
  obtain t where t: "map_page a s = Inr t" "inv t" using map_law [OF Cons.prems(1) a(1)] by blast
  have "P t" using keep [OF Cons.prems(1,2) a(1) t(1)] .
  then show ?case using Cons.IH [OF t(2) _ a(2)] t(1) Cons.prems(4) by simp
qed simp

end

end
