(* ===== verification/Loader.thy ===== *)
theory Loader
  imports Mappings CString
begin

text \<open>
  The module loader, \<^verbatim>\<open>src/kernel/modules.c\<close>. A module is the list of its bytes; the ELF
  header and program headers are read from it at the offsets that the two structures of the
  file give their fields.

  \<open>ram\<close> is the physical memory behind the pages that are mapped for user programs, by
  physical address. A store to a virtual address goes to the frame that the page tables name.
\<close>

record load_state =
  lvm :: mem_state
  ram :: "u64 \<Rightarrow> u8"

section \<open>Reading an image\<close>

text \<open>\<open>n\<close> bytes at an offset, little-endian; past the end of the image is \<open>Overrun\<close>.\<close>

definition field_at :: "u8 list \<Rightarrow> u64 \<Rightarrow> nat \<Rightarrow> u64 res" where
  "field_at img off n =
    (if unat off + n \<le> length img then Inr (le_join (take n (drop (unat off) img))) else Inl Overrun)"

record elf_header =
  e_entry :: u64
  e_phoff :: u64
  e_phnum :: nat

record program_header =
  p_type :: u64
  p_flags :: u64
  p_offset :: u64
  p_vaddr :: u64
  p_memsz :: u64

text \<open>Both headers are copied whole: 64 and 56 bytes.\<close>

definition read_elf_header :: "u8 list \<Rightarrow> elf_header res" where
  "read_elf_header img = (if length img < 64 then Inl Overrun else
     bindE (field_at img 24 8) (\<lambda>en. bindE (field_at img 32 8) (\<lambda>ph. bindE (field_at img 56 2) (\<lambda>n.
       Inr \<lparr>e_entry = en, e_phoff = ph, e_phnum = unat n\<rparr>))))"

definition read_program_header :: "u8 list \<Rightarrow> u64 \<Rightarrow> program_header res" where
  "read_program_header img pos = (if length img < unat pos + 56 then Inl Overrun else
     bindE (field_at img pos 4) (\<lambda>ty. bindE (field_at img (pos + 4) 4) (\<lambda>fl.
     bindE (field_at img (pos + 8) 8) (\<lambda>off. bindE (field_at img (pos + 16) 8) (\<lambda>va.
     bindE (field_at img (pos + 40) 8) (\<lambda>sz.
       Inr \<lparr>p_type = ty, p_flags = fl, p_offset = off, p_vaddr = va, p_memsz = sz\<rparr>))))))"

section \<open>Loading\<close>

definition lprintf :: "u8 list \<Rightarrow> karg list \<Rightarrow> load_state \<Rightarrow> load_state res" where
  "lprintf fmt args s = map_res (\<lambda>m. s\<lparr>lvm := m\<rparr>) (mprintf fmt args (lvm s))"

text \<open>The physical address behind a virtual one, through the tables that \<open>cr3\<close> selects.\<close>

definition frame_of :: "mem_state \<Rightarrow> u64 \<Rightarrow> u64 option" where
  "frame_of m a = (case leaf_entry m a (cr3_root m) of None \<Rightarrow> None
     | Some e \<Rightarrow> if pte_present e then Some (pte_target e + (a AND 0xFFF)) else None)"

definition store_byte :: "u64 \<Rightarrow> u8 \<Rightarrow> load_state \<Rightarrow> load_state res" where
  "store_byte a b s = (case frame_of (lvm s) a of None \<Rightarrow> Inl (Page_Fault a)
     | Some p \<Rightarrow> Inr (s\<lparr>ram := (ram s)(p := b)\<rparr>))"

text \<open>\<open>memcpy\<close> from the img to user memory; its loop counter is an \<open>int\<close>.\<close>

fun copy_image :: "int \<Rightarrow> nat \<Rightarrow> u64 \<Rightarrow> u8 list \<Rightarrow> load_state \<Rightarrow> load_state res" where
  "copy_image i 0 dest src s = Inr s"
| "copy_image i (Suc n) dest [] s = Inl Overrun"
| "copy_image i (Suc n) dest (b # src) s =
     bindE (store_byte dest b s) (\<lambda>s.
       if i = 2147483647 then Inl Signed_Overflow else copy_image (i + 1) n (dest + 1) src s)"

definition load_segment :: "u8 list \<Rightarrow> program_header \<Rightarrow> load_state \<Rightarrow> load_state res" where
  "load_segment img ph s =
    (if p_type ph \<noteq> 1 \<or> p_memsz ph = 0 then Inr s
     else
      (let root = cr3_root (lvm s); start = p_vaddr ph AND NOT 0xFFF in
       bindE (vm_map root start True True True (lvm s)) (\<lambda>(rc, m).
       let s = s\<lparr>lvm := m\<rparr> in
       if \<not> rc then
         bindE (lprintf (c_lit (''Panic, vm_map didn'' @ [CHR 0x27] @ ''t map the modules'' @ [CHR 0x0A])) [] s)
           (\<lambda>_. Inl Halted)
       else
         bindE (copy_image 0 (unat (p_memsz ph)) (p_vaddr ph) (drop (unat (p_offset ph)) img) s) (\<lambda>s.
         case vm_protect root start True (bit (p_flags ph) 1) (bit (p_flags ph) 0) (lvm s) of
           (_, m) \<Rightarrow> Inr (s\<lparr>lvm := m\<rparr>)))))"

fun load_segments :: "nat \<Rightarrow> u64 \<Rightarrow> u8 list \<Rightarrow> load_state \<Rightarrow> load_state res" where
  "load_segments 0 pos img s = Inr s"
| "load_segments (Suc n) pos img s =
     bindE (read_program_header img pos) (\<lambda>ph.
     bindE (load_segment img ph s) (load_segments n (pos + 56) img))"

text \<open>The first module of the given name; \<open>-1\<close> if there is none.\<close>

fun load_named :: "boot_module list \<Rightarrow> u8 list \<Rightarrow> load_state \<Rightarrow> (u64 \<times> load_state) res" where
  "load_named [] str s = Inr (-1, s)"
| "load_named (m # ms) str s =
     bindE (strcmp (mod_string m) str) (\<lambda>r.
     if r \<noteq> 0 then load_named ms str s
     else bindE (read_elf_header (mod_image m)) (\<lambda>eh.
       map_res (\<lambda>s. (e_entry eh, s)) (load_segments (e_phnum eh) (e_phoff eh) (mod_image m) s)))"

text \<open>Without a modules tag the count is read through a null pointer, at its offset in the tag.\<close>

definition load_module :: "stivale_tag list \<Rightarrow> u8 list \<Rightarrow> load_state \<Rightarrow> (u64 \<times> load_state) res" where
  "load_module hdr str s =
    (case find_tag hdr MODULES_ID of Some (Modules_Tag ms) \<Rightarrow> load_named ms str s
     | _ \<Rightarrow> Inl (Page_Fault 16))"

fun print_module_list :: "boot_module list \<Rightarrow> load_state \<Rightarrow> load_state res" where
  "print_module_list [] s = Inr s"
| "print_module_list (m # ms) s =
     bindE (lprintf (c_lit (''%s %p - %p'' @ [CHR 0x0A]))
              [Str_Arg (mod_string m), Word_Arg (mod_begin m), Word_Arg (mod_end m)] s)
       (print_module_list ms)"

definition print_modules :: "stivale_tag list \<Rightarrow> load_state \<Rightarrow> load_state res" where
  "print_modules hdr s =
    (case find_tag hdr MODULES_ID of Some (Modules_Tag ms) \<Rightarrow> print_module_list ms s
     | _ \<Rightarrow> Inl (Page_Fault 16))"

section \<open>Lemmas\<close>

text \<open>Loading a name that no module has, among modules with terminated names, loads nothing.\<close>

lemma load_named_absent:
  "terminated str \<Longrightarrow> (\<forall>m \<in> set ms. terminated (mod_string m) \<and> cstr (mod_string m) \<noteq> cstr str) \<Longrightarrow>
   load_named ms str s = Inr (-1, s)"
proof (induction ms)
  case (Cons m ms)
  then obtain r where "strcmp (mod_string m) str = Inr r" "r \<noteq> 0"
    using strcmp_returns [of "mod_string m" str] strcmp_zero_iff [of "mod_string m" str] by auto
  then show ?case using Cons by simp
qed simp

text \<open>Copying into one page that is present puts the bytes at its frame.\<close>

lemma copy_image_page:
  assumes "n \<le> length src" and "0 \<le> i" and "i + int n \<le> 2147483647" and "n \<le> 4096"
    and "\<forall>j < n. frame_of (lvm s) (dest + of_nat j) = Some (f + of_nat j)"
  shows "\<exists>r. copy_image i n dest src s = Inr (s\<lparr>ram := r\<rparr>)
     \<and> (\<forall>j < n. r (f + of_nat j) = src ! j) \<and> (\<forall>a. (\<forall>j < n. a \<noteq> f + of_nat j) \<longrightarrow> r a = ram s a)"
  using assms
proof (induction n arbitrary: i dest src s f)
  case 0
  have "s = s\<lparr>ram := ram s\<rparr>" by simp
  then show ?case by (metis copy_image.simps(1) not_less_zero)
next
  case (Suc n)
  obtain b src' where src: "src = b # src'" using Suc.prems(1) by (cases src) auto
  let ?s = "s\<lparr>ram := (ram s)(f := b)\<rparr>"
  have st: "store_byte dest b s = Inr ?s" using Suc.prems(5) [rule_format, of 0] by (simp add: store_byte_def)
  have pages: "\<forall>j < n. frame_of (lvm ?s) (dest + 1 + of_nat j) = Some (f + 1 + of_nat j)"
    using Suc.prems(5) [rule_format, of "Suc j" for j] by (simp add: add.assoc)
  have "n \<le> length src'" "0 \<le> i + 1" "i + 1 + int n \<le> 2147483647" "n \<le> 4096"
    using Suc.prems(1-4) src by simp_all
  from Suc.IH [OF this pages] obtain r where r: "copy_image (i + 1) n (dest + 1) src' ?s = Inr (?s\<lparr>ram := r\<rparr>)"
    "\<And>j. j < n \<Longrightarrow> r (f + 1 + of_nat j) = src' ! j"
    "\<And>a. (\<forall>j < n. a \<noteq> f + 1 + of_nat j) \<Longrightarrow> r a = ram ?s a"
    by (elim exE conjE) blast
  have ne: "f \<noteq> f + 1 + of_nat j" if "j < n" for j
  proof
    assume "f = f + 1 + of_nat j"
    then have "of_nat (Suc j) = (0 :: u64)" by (simp add: add.assoc)
    then have "unat (of_nat (Suc j) :: u64) = 0" by (simp only: unat_0)
    then show False using that Suc.prems(4) by (simp add: unat_of_nat take_bit_eq_mod del: of_nat_Suc)
  qed
  have first: "r f = b" using r(3) [of f] ne by simp
  have later: "r (f + of_nat j) = src ! j" if "j < Suc n" for j
    using first r(2) that src by (cases j) (simp_all add: add.assoc)
  have rest: "r a = ram s a" if *: "\<forall>j < Suc n. a \<noteq> f + of_nat j" for a
  proof -
    have "a \<noteq> f" using * [rule_format, of 0] by simp
    moreover have "a \<noteq> f + 1 + of_nat j" if "j < n" for j
      using * [rule_format, of "Suc j"] that by (simp add: add.assoc)
    ultimately show ?thesis using r(3) [of a] by simp
  qed
  have "copy_image i (Suc n) dest src s = Inr (s\<lparr>ram := r\<rparr>)"
    using st r(1) Suc.prems(3) src by simp
  then show ?case using later rest by blast
qed

section \<open>A segment within one page\<close>

lemma page_split:
  fixes a :: u64
  assumes "unat (a AND 0xFFF) + j < 4096"
  shows "(a + of_nat j) AND NOT 0xFFF = a AND NOT 0xFFF" and "(a + of_nat j) AND 0xFFF = (a AND 0xFFF) + of_nat j"
proof -
  let ?p = "a AND NOT 0xFFF" and ?d = "(a AND 0xFFF) + of_nat j"
  have mask: "(0xFFF :: u64) = mask 12" by (simp add: mask_eq_exp_minus_1)
  have "unat (of_nat j :: u64) = j" using assms by (intro unat_of_nat_small) simp
  then have d: "unat ?d = unat (a AND 0xFFF) + j" using assms by (subst unat_add_small) simp_all
  have low: "?d AND mask 12 = ?d"
  proof -
    have "take_bit 12 (unat ?d) = unat ?d" using d assms by (simp add: take_bit_nat_eq_self)
    then have "unat (take_bit 12 ?d) = unat ?d" by (simp only: unsigned_take_bit_eq)
    then have "take_bit 12 ?d = ?d" by (simp only: word_unat_eq_iff)
    then show ?thesis by (simp only: take_bit_eq_mask)
  qed
  have "a = ?p + (a AND 0xFFF)"
    by (subst disjunctive_add) (auto simp: bit_simps intro!: bit_word_eqI)
  then have sum: "a + of_nat j = ?p + ?d" by (simp add: add.assoc)
  have high: "bit ?d n \<Longrightarrow> n < 12" for n
    using low by (metis bit_and_iff bit_mask_iff)
  have disj: "\<not> bit ?p n \<or> \<not> bit ?d n" for n
    using high [of n] by (auto simp: mask bit_simps)
  have "?p + ?d = ?p OR ?d" by (rule disjunctive_add) (rule disj)
  then have or: "a + of_nat j = ?p OR ?d" using sum by simp
  show "(a + of_nat j) AND NOT 0xFFF = ?p" unfolding or
    by (rule bit_word_eqI) (use high in \<open>auto simp: mask bit_simps\<close>)
  show "(a + of_nat j) AND 0xFFF = ?d" unfolding or
    by (rule bit_word_eqI) (use high in \<open>auto simp: mask bit_simps\<close>)
qed

lemma pt_index_page: "12 \<le> sh \<Longrightarrow> pt_index (a AND NOT 0xFFF) sh = pt_index a sh"
proof -
  assume "12 \<le> sh"
  have mask: "(0xFFF :: u64) = mask 12" by (simp add: mask_eq_exp_minus_1)
  have "drop_bit sh (a AND NOT 0xFFF) = drop_bit sh a" unfolding mask
    by (rule bit_word_eqI) (use \<open>12 \<le> sh\<close> in \<open>auto simp: bit_simps dest: bit_imp_le_length\<close>)
  then show ?thesis by (simp only: pt_index_def)
qed

lemma leaf_entry_page: "leaf_entry m (a AND NOT 0xFFF) root = leaf_entry m a root"
proof -
  have "table_path m shs (a AND NOT 0xFFF) t = table_path m shs a t" if "\<forall>sh \<in> set shs. 12 \<le> sh" for shs t
    using that by (induction shs arbitrary: t) (simp_all add: Let_def entry_at_page pt_index_page [simplified])
  then show ?thesis by (simp add: leaf_entry_def entry_at_page pt_index_page [simplified] del: table_path.simps)
qed

text \<open>The addresses of a page that is present lie in its frame.\<close>

lemma frame_of_page:
  assumes "leaf_entry m (a AND NOT 0xFFF) (cr3_root m) = Some e" and "pte_present e"
    and "unat (a AND 0xFFF) + j < 4096"
  shows "frame_of m (a + of_nat j) = Some (pte_target e + (a AND 0xFFF) + of_nat j)"
proof -
  have "leaf_entry m (a + of_nat j) (cr3_root m) = Some e"
    using assms(1) leaf_entry_page page_split(1) [OF assms(3)] by metis
  then show ?thesis using assms(2) page_split(2) [OF assms(3)] by (simp add: frame_of_def add.assoc)
qed

lemma vm_protect_frames:
  assumes "vm_protect root b u w x m = (rc, m')"
  shows "frame_of m' a = frame_of m a" and "vm_inv A m \<Longrightarrow> vm_inv A m'" and "con m' = con m"
    and "blank_space A m \<Longrightarrow> blank_space A m'" and "page_present m' a = page_present m a" and "cr3 m' = cr3 m"
    and "mem_avail m' = mem_avail m"
proof -
  consider "m' = m" | "m' = invalidate_tlb b m"
    using assms by (auto simp: vm_protect_def vm_protect_copy_def Let_def split: option.splits if_splits)
  then have eq: "cells m' = cells m \<and> hhdm_addr m' = hhdm_addr m \<and> cr3 m' = cr3 m \<and> con m' = con m
      \<and> freelist m' = freelist m \<and> (\<forall>xs. fl_inv m' xs = fl_inv m xs \<and> free_pages m' xs = free_pages m xs)"
    by cases (simp_all add: fl_inv_tlb, simp add: invalidate_tlb_def)
  then have all: "cells m' = cells m" "hhdm_addr m' = hhdm_addr m" "cr3 m' = cr3 m" "freelist m' = freelist m" by blast+
  then have "table_path m' shs a t = table_path m shs a t" for shs t using leaf_entry_cells by blast
  then show "frame_of m' a = frame_of m a"
    using eq by (simp add: frame_of_def leaf_entry_def read_cr3_def entry_at_page del: table_path.simps)
  show "con m' = con m" "cr3 m' = cr3 m" using eq by blast+
  have tok: "vm_inv A m \<Longrightarrow> term_ok (con m')" using eq by (auto simp: vm_inv_def space_ok_def vm_inv_with_def)
  show "vm_inv A m \<Longrightarrow> vm_inv A m'" using vm_inv_cells(1) [OF all tok] by blast
  show "blank_space A m \<Longrightarrow> blank_space A m'" using vm_inv_cells(2) [OF all tok [OF blank_space_inv]] by blast
  show "page_present m' a = page_present m a"
    using path_cells(3) [OF all(1,2)] all(3) by (simp add: page_present_path read_cr3_def)
  show "mem_avail m' = mem_avail m" using eq by (simp add: mem_avail_def)
qed

lemma load_segment_page:
  assumes inv: "vm_inv A (lvm s)" and a: "p_vaddr ph AND NOT 0xFFF \<in> A"
    and load: "p_type ph = 1" "p_memsz ph \<noteq> 0"
    and page: "unat (p_vaddr ph AND 0xFFF) + unat (p_memsz ph) \<le> 4096"
    and img: "unat (p_offset ph) + unat (p_memsz ph) \<le> length img"
    and fresh: "\<not> page_present (lvm s) (p_vaddr ph AND NOT 0xFFF)"
    and P: "P \<subseteq> mem_avail (lvm s)" "finite P" "3 \<le> card P"
  defines "f \<equiv> unmapped_target (lvm s) (p_vaddr ph AND NOT 0xFFF) + (p_vaddr ph AND 0xFFF)"
  shows "\<exists>m r. load_segment img ph s = Inr (s\<lparr>lvm := m, ram := r\<rparr>) \<and> vm_inv A m
    \<and> (\<forall>j < unat (p_memsz ph). frame_of m (p_vaddr ph + of_nat j) = Some (f + of_nat j)
         \<and> r (f + of_nat j) = img ! (unat (p_offset ph) + j))
    \<and> (\<forall>b. (\<forall>j < unat (p_memsz ph). b \<noteq> f + of_nat j) \<longrightarrow> r b = ram s b)
    \<and> maps_page A (p_vaddr ph AND NOT 0xFFF) (lvm s) m"
proof -
  let ?a = "p_vaddr ph AND NOT 0xFFF" and ?n = "unat (p_memsz ph)"
  obtain m e where m: "vm_map (cr3_root (lvm s)) ?a True True True (lvm s) = Inr (True, m)" "vm_inv A m"
    "cr3 m = cr3 (lvm s)" "leaf_entry m ?a (cr3_root m) = Some e" "pte_present e"
    "pte_target e = unmapped_target (lvm s) ?a"
    using vm_map_succeeds [OF inv a fresh P, of True True True] by blast
  have fr: "frame_of m (p_vaddr ph + of_nat j) = Some (f + of_nat j)" if "j < ?n" for j
    using frame_of_page [OF m(4,5), of j] that page m(6) by (simp add: f_def)
  have page1: "maps_page A ?a (lvm s) m" using vm_map_maps_page [OF inv a m(1)] .
  have fr': "\<forall>j < ?n. frame_of (lvm (s\<lparr>lvm := m\<rparr>)) (p_vaddr ph + of_nat j) = Some (f + of_nat j)" using fr by simp
  have le: "?n \<le> 4096" using page by linarith
  have n: "?n \<le> length (drop (unat (p_offset ph)) img)" "0 \<le> (0 :: int)" using img by simp_all
  have int: "0 + int ?n \<le> 2147483647" using le by linarith
  have "s\<lparr>lvm := m, ram := r\<rparr> = (s\<lparr>lvm := m\<rparr>)\<lparr>ram := r\<rparr>" for r by simp
  with copy_image_page [OF n int le fr'] obtain r where r: "copy_image 0 ?n (p_vaddr ph) (drop (unat (p_offset ph)) img) (s\<lparr>lvm := m\<rparr>)
      = Inr (s\<lparr>lvm := m, ram := r\<rparr>)"
    "\<forall>j < ?n. r (f + of_nat j) = drop (unat (p_offset ph)) img ! j"
    "\<forall>b. (\<forall>j < ?n. b \<noteq> f + of_nat j) \<longrightarrow> r b = ram s b"
    by auto
  obtain rc m' where m': "vm_protect (cr3_root (lvm s)) ?a True (bit (p_flags ph) 1) (bit (p_flags ph) 0) m = (rc, m')"
    by (meson surj_pair)
  have "load_segment img ph s = Inr (s\<lparr>lvm := m', ram := r\<rparr>)"
    using load m(1) r(1) m' by (simp add: load_segment_def Let_def)
  moreover have "r (f + of_nat j) = img ! (unat (p_offset ph) + j)" if "j < ?n" for j
    using r(2) that img by simp
  moreover have "maps_page A ?a (lvm s) m'" using page1 vm_protect_frames(3-) [OF m'] by (auto simp: maps_page_def)
  ultimately show ?thesis using vm_protect_frames [OF m'] m(2) fr r(3)
    by (intro exI [of _ m'] exI [of _ r]) simp
qed

text \<open>A segment that reaches past its first page faults there, unless the next page happens to be
  mapped already.\<close>

lemma copy_image_faults:
  "k < n \<Longrightarrow> k < length src \<Longrightarrow> 0 \<le> i \<Longrightarrow> i + int k \<le> 2147483647 \<Longrightarrow>
   (\<forall>j < k. frame_of (lvm s) (dest + of_nat j) \<noteq> None) \<Longrightarrow> frame_of (lvm s) (dest + of_nat k) = None \<Longrightarrow>
   copy_image i n dest src s = Inl (Page_Fault (dest + of_nat k))"
proof (induction k arbitrary: i n dest src s)
  case 0
  then show ?case by (cases n; cases src) (simp_all add: store_byte_def)
next
  case (Suc k)
  obtain n' b src' where ns: "n = Suc n'" "src = b # src'" using Suc.prems(1,2) by (cases n; cases src) auto
  obtain p where "frame_of (lvm s) dest = Some p" using Suc.prems(5) [rule_format, of 0] by auto
  then have st: "store_byte dest b s = Inr (s\<lparr>ram := (ram s)(p := b)\<rparr>)" by (simp add: store_byte_def)
  have "\<forall>j < k. frame_of (lvm s) (dest + 1 + of_nat j) \<noteq> None"
    using Suc.prems(5) [rule_format, of "Suc j" for j] by (simp add: add.assoc)
  then have "copy_image (i + 1) n' (dest + 1) src' (s\<lparr>ram := (ram s)(p := b)\<rparr>) = Inl (Page_Fault (dest + 1 + of_nat k))"
    using Suc.prems ns by (intro Suc.IH) (simp_all add: add.assoc)
  then show ?case using ns st Suc.prems(3,4) by (simp add: add.assoc)
qed
text \<open>In a space that is otherwise unmapped, a segment that reaches past its first page faults at the second.\<close>

lemma next_page:
  fixes a :: u64
  assumes "k = 4096 - unat (a AND 0xFFF)"
  shows "a + of_nat k = (a AND NOT 0xFFF) + 0x1000" and "0 < k" and "k \<le> 4096"
    and "j < k \<Longrightarrow> unat (a AND 0xFFF) + j < 4096"
proof -
  have mask: "(0xFFF :: u64) = mask 12" by (simp add: mask_eq_exp_minus_1)
  have "a AND 0xFFF = take_bit 12 a" unfolding mask by (rule take_bit_eq_mask [symmetric])
  then have lt: "unat (a AND 0xFFF) < 4096" 
    using take_bit_nat_less_exp [of 12 "unat a"] by (simp add: unsigned_take_bit_eq)
  then show "0 < k" "k \<le> 4096" "j < k \<Longrightarrow> unat (a AND 0xFFF) + j < 4096" using assms by simp_all
  have split: "a = (a AND NOT 0xFFF) + (a AND 0xFFF)"
    by (subst disjunctive_add) (auto simp: bit_simps intro!: bit_word_eqI)
  have sum: "(a AND 0xFFF) + of_nat k = 0x1000"
  proof -
    have "(a AND 0xFFF) + of_nat k = of_nat (unat (a AND 0xFFF) + k)" by (simp add: of_nat_add)
    also have "unat (a AND 0xFFF) + k = 4096" using lt assms by simp
    finally show ?thesis by simp
  qed
  have "a + of_nat k = (a AND NOT 0xFFF) + ((a AND 0xFFF) + of_nat k)"
    using arg_cong [OF split, of "\<lambda>x. x + of_nat k"] by (simp only: add.assoc)
  then show "a + of_nat k = (a AND NOT 0xFFF) + 0x1000" by (simp only: sum)
qed

lemma page_no_next: "page_no (a + 0x1000) \<noteq> page_no a"
proof -
  have bit: "bit (page_no b) 0 \<longleftrightarrow> odd (unat b div 4096)" for b
  proof -
    have "bit (page_no b) 0 \<longleftrightarrow> bit b 12" by (simp add: page_no_def bits_from_def bit_simps del: bit_0)
    also have "\<dots> \<longleftrightarrow> bit (unat b) 12" by (simp add: bit_simps)
    finally show ?thesis by (simp add: bit_iff_odd)
  qed
  have u: "unat a < 2 ^ 64" using unsigned_less [of a] by simp
  have "odd (unat (a + 0x1000) div 4096) \<longleftrightarrow> even (unat a div 4096)"
  proof (cases "unat a + 4096 < 2 ^ 64")
    case True
    then have "unat (a + 0x1000) = unat a + 4096" by (subst unat_add_small) simp_all
    moreover have "(unat a + 4096) div 4096 = unat a div 4096 + 1" by (rule div_add_self2) simp
    ultimately show ?thesis by simp
  next
    case False
    then have "unat (a + 0x1000) = unat a + 4096 - 2 ^ 64" using u by (simp add: unat_word_ariths mod_if)
    moreover have "unat a + 4096 - 2 ^ 64 < 4096" using u by linarith
    ultimately have "unat (a + 0x1000) div 4096 = 0" by simp
    moreover have "unat a div 4096 = 2 ^ 52 - 1"
      by (rule div_nat_eqI) (use False u in simp_all)
    ultimately show ?thesis by simp
  qed
  then show ?thesis using bit [of a] bit [of "a + 0x1000"] by metis
qed

lemma load_segment_faults:
  assumes inv: "vm_inv A (lvm s)" and a: "p_vaddr ph AND NOT 0xFFF \<in> A" "(p_vaddr ph AND NOT 0xFFF) + 0x1000 \<in> A"
    and load: "p_type ph = 1" "p_memsz ph \<noteq> 0"
    and long: "4096 < unat (p_vaddr ph AND 0xFFF) + unat (p_memsz ph)"
    and img: "unat (p_offset ph) + unat (p_memsz ph) \<le> length img"
    and fresh: "\<not> page_present (lvm s) (p_vaddr ph AND NOT 0xFFF)" "\<not> page_present (lvm s) ((p_vaddr ph AND NOT 0xFFF) + 0x1000)"
    and P: "P \<subseteq> mem_avail (lvm s)" "finite P" "3 \<le> card P"
  shows "load_segment img ph s = Inl (Page_Fault ((p_vaddr ph AND NOT 0xFFF) + 0x1000))"
proof -
  let ?a = "p_vaddr ph AND NOT 0xFFF" and ?n = "unat (p_memsz ph)" and ?k = "4096 - unat (p_vaddr ph AND 0xFFF)"
  note nx = next_page [of ?k "p_vaddr ph", OF refl]
  obtain m e where m: "vm_map (cr3_root (lvm s)) ?a True True True (lvm s) = Inr (True, m)"
    "leaf_entry m ?a (cr3_root m) = Some e" "pte_present e"
    using vm_map_succeeds [OF inv a(1) fresh(1) P, of True True True] by blast
  let ?s = "s\<lparr>lvm := m\<rparr>"
  have before: "\<forall>j < ?k. frame_of (lvm ?s) (p_vaddr ph + of_nat j) \<noteq> None"
    using frame_of_page [OF m(2,3)] nx(4) by simp
  have "maps_page A ?a (lvm s) m" using vm_map_maps_page [OF inv a(1) m(1)] .
  then have "\<not> page_present m (?a + 0x1000)" using a(2) fresh(2) page_no_next unfolding maps_page_def by blast
  then have "frame_of (lvm ?s) (p_vaddr ph + of_nat ?k) = None"
    unfolding nx(1) by (auto simp: frame_of_def page_present_def split: option.splits)
  moreover have "?k < ?n" using long nx(2) by linarith
  moreover have "?k < length (drop (unat (p_offset ph)) img)" using \<open>?k < ?n\<close> img by simp
  ultimately have "copy_image 0 ?n (p_vaddr ph) (drop (unat (p_offset ph)) img) ?s = Inl (Page_Fault (?a + 0x1000))"
    using copy_image_faults [OF _ _ _ _ before] nx(1,3) by simp
  then show ?thesis using load m(1) by (simp add: load_segment_def Let_def)
qed


end
