(* ===== verification/Userlib.thy ===== *)
theory Userlib
  imports Kprint
begin

text \<open>
  Formatted output of user programs, \<^verbatim>\<open>src/stdlib/io.c\<close>, and the system call it ends in,
  \<open>SYS_write\<close> of \<^verbatim>\<open>src/kernel/interrupts.c\<close>. A buffer is its list of bytes, as in
  \<open>Kprint\<close>; reading past its end is \<open>Overrun\<close>. The two call sites of the assembly stubs pass
  arguments and result on unchanged.

  The routines are a second implementation of what \<open>Kprint\<close> has for the kernel; the lemmas show
  that they do the same.
\<close>

section \<open>The write system call\<close>

fun write_loop :: "nat \<Rightarrow> u8 list \<Rightarrow> term_state \<Rightarrow> term_state res" where
  "write_loop 0 buffer s = Inr s"
| "write_loop (Suc n) [] s = Inl Overrun"
| "write_loop (Suc n) (c # buffer) s =
     bindE (kprintf (c_lit ''%c'') [Word_Arg (scast c)] s) (write_loop n buffer)"

text \<open>File descriptor and length are \<open>int\<close>; the loop runs up to a positive length.\<close>

definition SYS_write :: "int \<Rightarrow> u8 list \<Rightarrow> int \<Rightarrow> term_state \<Rightarrow> (int \<times> term_state) res" where
  "SYS_write file_descriptor buffer len s =
    (if file_descriptor \<noteq> 1 \<and> file_descriptor \<noteq> 2 then Inr (-1, s)
     else map_res (Pair len) (write_loop (nat len) buffer s))"

section \<open>io.c\<close>

abbreviation "STD_OUT \<equiv> (1 :: int)"

text \<open>\<open>write\<close>: the count goes through the \<open>int\<close> parameter of the system call, the result through
  the \<open>int\<close> that \<open>syscall\<close> is declared to return.\<close>

definition u_write :: "int \<Rightarrow> u8 list \<Rightarrow> u64 \<Rightarrow> term_state \<Rightarrow> (u64 \<times> term_state) res" where
  "u_write fd buf count s =
     map_res (\<lambda>(r, s). (scast (word_of_int r :: u32), s)) (SYS_write fd buf (int_of_size count) s)"

definition print_c :: "u8 \<Rightarrow> term_state \<Rightarrow> term_state res" where
  "print_c c s = map_res snd (u_write STD_OUT [c] 1 s)"

fun print_s :: "u8 list \<Rightarrow> term_state \<Rightarrow> term_state res" where
  "print_s [] s = Inl Overrun"
| "print_s (c # str) s =
     (if c \<noteq> 0 then bindE (u_write STD_OUT (c # str) 1 s) (\<lambda>(_, s). print_s str s) else Inr s)"

definition print_d :: "u64 \<Rightarrow> term_state \<Rightarrow> term_state res" where
  "print_d value s =
     bindE (digit_loop 10 dec_digit value 20 (replicate 20 0)) (\<lambda>(str, i).
       map_res snd (u_write STD_OUT (drop i str) (of_nat (20 - i)) s))"

definition print_x :: "u64 \<Rightarrow> term_state \<Rightarrow> term_state res" where
  "print_x value s =
     bindE (digit_loop 16 hex_digit value 20 (replicate 20 0)) (\<lambda>(str, i).
       map_res snd (u_write STD_OUT (drop i str) (of_nat (20 - i)) s))"

definition print_p :: "u64 \<Rightarrow> term_state \<Rightarrow> term_state res" where
  "print_p ptr s = bindE (print_s (c_lit ''0x'') s) (print_x ptr)"

definition print_directive :: "u8 \<Rightarrow> karg list \<Rightarrow> term_state \<Rightarrow> (karg list \<times> term_state) res" where
  "print_directive d args s =
    (if d = 37 then map_res (Pair args) (print_c d s)
     else if d = 99 then
       (case args of Word_Arg w # args \<Rightarrow> map_res (Pair args) (print_c (ucast w) s) | _ \<Rightarrow> Inl Missing_Arg)
     else if d = 115 then
       (case args of Str_Arg b # args \<Rightarrow> map_res (Pair args) (print_s b s) | _ \<Rightarrow> Inl Missing_Arg)
     else if d = 100 then
       (case args of Word_Arg w # args \<Rightarrow> map_res (Pair args) (print_d w s) | _ \<Rightarrow> Inl Missing_Arg)
     else if d = 120 then
       (case args of Word_Arg w # args \<Rightarrow> map_res (Pair args) (print_x w s) | _ \<Rightarrow> Inl Missing_Arg)
     else if d = 112 then
       (case args of Word_Arg w # args \<Rightarrow> map_res (Pair args) (print_p w s) | _ \<Rightarrow> Inl Missing_Arg)
     else map_res (Pair args) (print_s (c_lit ''????'') s))"

fun printf :: "u8 list \<Rightarrow> karg list \<Rightarrow> term_state \<Rightarrow> term_state res" where
  "printf [] args s = Inl Overrun"
| "printf (c # pos) args s =
    (if c = 0 then Inr s
     else if c = 37 then
       (case pos of [] \<Rightarrow> Inl Overrun
        | d # pos' \<Rightarrow> bindE (print_directive d args s) (\<lambda>(args', s'). printf pos' args' s'))
     else bindE (print_c c s) (printf pos args))"

section \<open>The same output as the kernel's routines\<close>

lemma ucast_scast_u8 [simp]: "ucast (scast (c :: u8) :: u64) = c"
  by (rule bit_word_eqI) (auto simp: bit_simps)

lemma kprintf_char: "kprintf (c_lit ''%c'') [Word_Arg (scast c)] s = term_putchar c s"
  by (simp add: c_lit_def bytes_of_def directive.simps kprint_c_puts) (cases "term_putchar c s"; simp)

lemma write_loop_term: "write_loop n buffer s = term_write buffer n s"
  by (induction n buffer s rule: write_loop.induct) (auto simp: kprintf_char intro: bindE_cong)

lemma u_write_term:
  "unat n < 2 ^ 31 \<Longrightarrow> map_res snd (u_write STD_OUT buf n s) = term_write buf (unat n) s"
  by (simp add: u_write_def SYS_write_def write_loop_term int_of_size_small)
    (cases "term_write buf (unat n) s"; simp)

lemma print_c_same: "print_c = kprint_c"
  by (simp add: fun_eq_iff print_c_def kprint_c_def u_write_term)

lemma print_s_same: "print_s str s = kprint_s str s"
proof (induction str arbitrary: s)
  case (Cons c str)
  have "bindE (u_write STD_OUT (c # str) 1 s) (\<lambda>(_, s). print_s str s)
      = bindE (map_res snd (u_write STD_OUT (c # str) 1 s)) (print_s str)"
    by (simp add: case_prod_unfold)
  also have "\<dots> = bindE (term_write (c # str) 1 s) (print_s str)"
    by (simp add: u_write_term del: term_write.simps)
  also have "\<dots> = bindE (term_write (c # str) 1 s) (kprint_s str)"
    by (rule bindE_cong) (rule Cons)
  finally show ?case by (simp del: term_write.simps)
qed simp

text \<open>The buffer of \<open>print_d\<close> and \<open>print_x\<close>: the digits are at most 20.\<close>

lemma digit_loop_index: "digit_loop b d v i str = Inr (str', j) \<Longrightarrow> j \<le> i"
  by (induction b d v i str rule: digit_loop.induct) (fastforce simp: Let_def split: if_splits)+

lemma u_write_digits:
  assumes "i \<le> 20"
  shows "map_res snd (u_write STD_OUT buf (of_nat (20 - i)) s) = term_write buf (20 - i) s"
proof -
  have "unat (of_nat (20 - i) :: u64) = 20 - i" by (rule unat_of_nat_small) simp
  then show ?thesis using u_write_term [of "of_nat (20 - i)" buf s] by simp
qed

lemma digits_same:
  "bindE (digit_loop b d v 20 str) (\<lambda>(str, i). map_res snd (u_write STD_OUT (drop i str) (of_nat (20 - i)) s))
   = bindE (digit_loop b d v 20 str) (\<lambda>(str, i). term_write (drop i str) (20 - i) s)"
proof (cases "digit_loop b d v 20 str")
  case (Inr r)
  then obtain str' i where "digit_loop b d v 20 str = Inr (str', i)" by (cases r) auto
  then show ?thesis using u_write_digits [OF digit_loop_index] by simp
qed simp

lemma print_d_same: "print_d = kprint_d"
  by (intro ext) (simp only: print_d_def kprint_d_def digits_same)

lemma print_x_same: "print_x = kprint_x"
  by (intro ext) (simp only: print_x_def kprint_x_def digits_same)

lemma print_p_same: "print_p = kprint_p"
proof (intro ext)
  fix p s
  have "term_write (c_lit ''0x'') 2 = kprint_s (c_lit ''0x'')"
    by (simp add: fun_eq_iff term_write_puts kprint_s_puts c_lit_def bytes_of_def)
  then show "print_p p s = kprint_p p s"
    by (simp add: print_p_def kprint_p_def print_s_same print_x_same)
qed

lemma print_directive_same: "print_directive d args s = directive d args s"
  unfolding print_directive_def directive.simps
  by (simp only: print_c_same print_s_same print_d_same print_x_same print_p_same)

lemma printf_same: "printf fmt args s = kprintf fmt args s"
proof (induction fmt args s rule: kprintf.induct)
  case (2 c pos args s)
  show ?case
  proof (cases pos)
    case Nil
    then show ?thesis by (auto simp: print_c_same intro!: bindE_cong)
  next
    case (Cons d pos')
    have "bindE (directive d args s) (\<lambda>(args', s'). printf pos' args' s')
        = bindE (directive d args s) (\<lambda>(args', s'). kprintf pos' args' s')" if "c = 37"
      using "2.IH"(1) Cons that by (cases "directive d args s") (auto split: prod.split)
    moreover have "bindE (kprint_c c s) (printf pos args) = bindE (kprint_c c s) (kprintf pos args)" if "c \<noteq> 0" "c \<noteq> 37"
      using "2.IH"(2) that by (cases "kprint_c c s") auto
    ultimately show ?thesis using Cons by (simp add: print_c_same print_directive_same)
  qed
qed simp

end
