(* ===== verification/Descriptors.thy ===== *)
theory Descriptors
  imports Kprint
begin

text \<open>
  The descriptor tables: segments and the task state (\<^verbatim>\<open>src/kernel/gdt.c\<close>), interrupt
  gates and the handlers that halt (\<^verbatim>\<open>src/kernel/interrupts.c\<close>). Where the linker puts an
  object or a function is a parameter. The instructions \<open>lgdt\<close>, \<open>lidt\<close> and \<open>ltr\<close> record what
  they are given.
\<close>

section \<open>The global descriptor table\<close>

abbreviation "MAX_GDT_SIZE \<equiv> (256 :: nat)"
abbreviation "KERNEL_CODE_SELECTOR \<equiv> (0x28 :: u16)"
abbreviation "KERNEL_DATA_SELECTOR \<equiv> (0x30 :: u16)"
abbreviation "USER_CODE_SELECTOR \<equiv> (0x38 :: u16)"
abbreviation "USER_DATA_SELECTOR \<equiv> (0x40 :: u16)"
abbreviation "TSS_SELECTOR \<equiv> (0x48 :: u16)"

record tss =
  tss_reserved_0 :: u32
  rsp0 :: u64
  rsp1 :: u64
  rsp2 :: u64
  tss_reserved_1 :: u64
  ist1 :: u64
  ist2 :: u64
  ist3 :: u64
  ist4 :: u64
  ist5 :: u64
  ist6 :: u64
  ist7 :: u64
  tss_reserved_2 :: u64
  tss_reserved_3 :: u16
  iomap :: u16

definition zero_tss :: tss where
  "zero_tss = \<lparr>tss_reserved_0 = 0, rsp0 = 0, rsp1 = 0, rsp2 = 0, tss_reserved_1 = 0, ist1 = 0, ist2 = 0,
     ist3 = 0, ist4 = 0, ist5 = 0, ist6 = 0, ist7 = 0, tss_reserved_2 = 0, tss_reserved_3 = 0, iomap = 0\<rparr>"

abbreviation "sizeof_tss \<equiv> (104 :: nat)"

record gdt_state =
  gdt :: "u8 list"
  gdt_size :: nat
  task :: tss
  gdtr :: "(u16 \<times> u64) option"
  task_register :: "u16 option"

record seg_descriptor =
  seg_limit_0 :: u16
  seg_base_0 :: "24 word"
  seg_access :: u8
  seg_limit_1 :: "4 word"
  seg_flags :: "4 word"
  seg_base_1 :: u8

definition zero_seg :: seg_descriptor where
  "zero_seg = \<lparr>seg_limit_0 = 0, seg_base_0 = 0, seg_access = 0, seg_limit_1 = 0, seg_flags = 0, seg_base_1 = 0\<rparr>"

text \<open>A packed structure in memory: byte \<open>n\<close> of a field, and two 4-bit fields in one byte.\<close>

definition byte_of :: "nat \<Rightarrow> 'a::len word \<Rightarrow> u8" where
  "byte_of n w = ucast (drop_bit (8 * n) w)"

definition nibbles :: "4 word \<Rightarrow> 4 word \<Rightarrow> u8" where
  "nibbles lo hi = ucast lo OR push_bit 4 (ucast hi)"

definition seg_bytes :: "seg_descriptor \<Rightarrow> u8 list" where
  "seg_bytes d = [byte_of 0 (seg_limit_0 d), byte_of 1 (seg_limit_0 d),
     byte_of 0 (seg_base_0 d), byte_of 1 (seg_base_0 d), byte_of 2 (seg_base_0 d),
     seg_access d, nibbles (seg_limit_1 d) (seg_flags d), seg_base_1 d]"

record sys_descriptor =
  sys_limit_0 :: u16
  sys_base_0 :: "24 word"
  sys_access :: u8
  sys_limit_1 :: "4 word"
  sys_flags :: "4 word"
  sys_base_1 :: "40 word"
  sys_reserved :: u32

definition zero_sys :: sys_descriptor where
  "zero_sys = \<lparr>sys_limit_0 = 0, sys_base_0 = 0, sys_access = 0, sys_limit_1 = 0, sys_flags = 0,
     sys_base_1 = 0, sys_reserved = 0\<rparr>"

definition sys_bytes :: "sys_descriptor \<Rightarrow> u8 list" where
  "sys_bytes d = [byte_of 0 (sys_limit_0 d), byte_of 1 (sys_limit_0 d),
     byte_of 0 (sys_base_0 d), byte_of 1 (sys_base_0 d), byte_of 2 (sys_base_0 d),
     sys_access d, nibbles (sys_limit_1 d) (sys_flags d)]
     @ map (\<lambda>n. byte_of n (sys_base_1 d)) [0..<5] @ map (\<lambda>n. byte_of n (sys_reserved d)) [0..<4]"

text \<open>Storing a structure at an offset of the table; past the table's end is \<open>Overrun\<close>.\<close>

definition put_bytes :: "nat \<Rightarrow> u8 list \<Rightarrow> gdt_state \<Rightarrow> gdt_state res" where
  "put_bytes off bs s =
    (if off + length bs \<le> length (gdt s) then
       Inr (s\<lparr>gdt := take off (gdt s) @ bs @ drop (off + length bs) (gdt s)\<rparr>)
     else Inl Overrun)"

definition grow_gdt :: "nat \<Rightarrow> gdt_state \<Rightarrow> gdt_state" where
  "grow_gdt n s = (if gdt_size s < n then s\<lparr>gdt_size := n\<rparr> else s)"

definition gdt_code_descriptor :: "u16 \<Rightarrow> bool \<Rightarrow> gdt_state \<Rightarrow> gdt_state res" where
  "gdt_code_descriptor offset user s =
     put_bytes (unat offset)
       (seg_bytes (zero_seg\<lparr>seg_access := 0x9A OR (if user then 0x60 else 0), seg_flags := 0x2\<rparr>))
       (grow_gdt (unat offset + 8) s)"

definition gdt_data_descriptor :: "u16 \<Rightarrow> bool \<Rightarrow> gdt_state \<Rightarrow> gdt_state res" where
  "gdt_data_descriptor offset user s =
     put_bytes (unat offset) (seg_bytes (zero_seg\<lparr>seg_access := 0x92 OR (if user then 0x60 else 0)\<rparr>))
       (grow_gdt (unat offset + 8) s)"

definition gdt_tss_descriptor :: "u16 \<Rightarrow> u64 \<Rightarrow> gdt_state \<Rightarrow> gdt_state res" where
  "gdt_tss_descriptor offset tss_addr s =
     put_bytes (unat offset)
       (sys_bytes (zero_sys\<lparr>sys_base_0 := ucast tss_addr, sys_base_1 := ucast (drop_bit 24 tss_addr),
          sys_limit_0 := of_nat sizeof_tss, sys_limit_1 := of_nat (drop_bit 16 sizeof_tss), sys_access := 0x89\<rparr>))
       (grow_gdt (unat offset + 16) s)"

definition gdt_setup :: "u64 \<Rightarrow> u64 \<Rightarrow> u64 \<Rightarrow> gdt_state \<Rightarrow> gdt_state res" where
  "gdt_setup gdt_addr tss_addr interrupt_stack s =
     bindE (gdt_code_descriptor KERNEL_CODE_SELECTOR False (s\<lparr>gdt := replicate MAX_GDT_SIZE 0\<rparr>)) (\<lambda>s.
     bindE (gdt_data_descriptor KERNEL_DATA_SELECTOR False s) (\<lambda>s.
     bindE (gdt_code_descriptor USER_CODE_SELECTOR True s) (\<lambda>s.
     bindE (gdt_data_descriptor USER_DATA_SELECTOR True s) (\<lambda>s.
     bindE (gdt_tss_descriptor TSS_SELECTOR tss_addr s) (\<lambda>s.
     let s = s\<lparr>gdtr := Some (of_nat (gdt_size s - 1), gdt_addr)\<rparr>;
         s = s\<lparr>task := zero_tss\<lparr>rsp0 := interrupt_stack + 0x8000 - 8\<rparr>\<rparr>
     in Inr (s\<lparr>task_register := Some TSS_SELECTOR\<rparr>))))))"

section \<open>The interrupt descriptor table\<close>

abbreviation "IDT_TYPE_INTERRUPT \<equiv> (0xE :: 4 word)"
abbreviation "IDT_TYPE_TRAP \<equiv> (0xF :: 4 word)"
abbreviation "IRQ1_INTERRUPT \<equiv> (0x21 :: u8)"

record idt_entry =
  offset_0 :: u16
  gate_selector :: u16
  ist :: "3 word"
  idt_unused_0 :: "5 word"
  gate_type :: "4 word"
  idt_unused_1 :: "1 word"
  dpl :: "2 word"
  present :: "1 word"
  offset_1 :: u16
  offset_2 :: u32
  idt_unused_2 :: u32

definition zero_gate :: idt_entry where
  "zero_gate = \<lparr>offset_0 = 0, gate_selector = 0, ist = 0, idt_unused_0 = 0, gate_type = 0, idt_unused_1 = 0,
     dpl = 0, present = 0, offset_1 = 0, offset_2 = 0, idt_unused_2 = 0\<rparr>"

abbreviation "sizeof_idt \<equiv> (256 * 16 :: nat)"

text \<open>The index is a \<open>uint8_t\<close> and the table has 256 entries.\<close>

definition set_gate :: "u64 \<Rightarrow> 4 word \<Rightarrow> idt_entry \<Rightarrow> idt_entry" where
  "set_gate fn ty e = e\<lparr>
     gate_type := ty, present := 1, dpl := 3, ist := 0, gate_selector := KERNEL_CODE_SELECTOR,
     offset_0 := ucast (fn AND 0xffff),
     offset_1 := ucast (drop_bit 16 (fn AND 0xffff0000)),
     offset_2 := ucast (drop_bit 32 (fn AND 0xffffffff00000000))\<rparr>"

definition idt_set_handler :: "u8 \<Rightarrow> u64 \<Rightarrow> 4 word \<Rightarrow> idt_entry list \<Rightarrow> idt_entry list" where
  "idt_set_handler index fn ty idt = idt[unat index := set_gate fn ty (idt ! unat index)]"

datatype handler =
    Default_Handler
  | Default_Handler_Ec
  | Divide_Handler
  | General_Protection_Handler
  | Page_Fault_Handler
  | Keyboard_Handler
  | Syscall_Entry

text \<open>The calls of \<open>idt_setup\<close> in order.\<close>

definition idt_handlers :: "(u8 \<times> handler) list" where
  "idt_handlers = [(0, Divide_Handler), (1, Default_Handler), (2, Default_Handler), (3, Default_Handler),
     (4, Default_Handler), (5, Default_Handler), (6, Default_Handler), (7, Default_Handler),
     (8, Default_Handler_Ec), (9, Default_Handler), (10, Default_Handler_Ec), (11, Default_Handler_Ec),
     (12, Default_Handler_Ec), (13, General_Protection_Handler), (14, Page_Fault_Handler),
     (15, Default_Handler), (16, Default_Handler), (17, Default_Handler_Ec), (18, Default_Handler),
     (19, Default_Handler), (20, Default_Handler), (21, Default_Handler_Ec),
     (IRQ1_INTERRUPT, Keyboard_Handler), (0x80, Syscall_Entry)]"

text \<open>\<open>idt_setup\<close>: the table and the operand of \<open>lidt\<close>.\<close>

definition idt_setup :: "(handler \<Rightarrow> u64) \<Rightarrow> u64 \<Rightarrow> idt_entry list \<times> (u16 \<times> u64)" where
  "idt_setup addr_of idt_addr =
    (fold (\<lambda>(i, h). idt_set_handler i (addr_of h) IDT_TYPE_TRAP) idt_handlers (replicate 256 zero_gate),
     (of_nat sizeof_idt, idt_addr))"

section \<open>The handlers that halt\<close>

definition default_handler :: "term_state \<Rightarrow> term_state res" where
  "default_handler c =
     bindE (kprintf (c_lit (''Default interrupt handler'' @ [CHR 0x0A])) [] c) (\<lambda>_. Inl Halted)"

text \<open>The error code is not passed to \<open>kprintf\<close>.\<close>

definition default_handler_ec :: "u64 \<Rightarrow> term_state \<Rightarrow> term_state res" where
  "default_handler_ec ec c =
     bindE (kprintf (c_lit (''Default interrupt handler (ec=%d)'' @ [CHR 0x0A])) [] c) (\<lambda>_. Inl Halted)"

definition divide_handler :: "term_state \<Rightarrow> term_state res" where
  "divide_handler c =
     bindE (kprintf (c_lit (''Divide interrupt handler'' @ [CHR 0x0A])) [] c) (\<lambda>_. Inl Halted)"

definition general_protection_handler :: "u64 \<Rightarrow> term_state \<Rightarrow> term_state res" where
  "general_protection_handler ec c =
     bindE (kprintf (c_lit (''General Protection interrupt handler (ec=%d)'' @ [CHR 0x0A])) [Word_Arg ec] c)
       (\<lambda>_. Inl Halted)"

definition page_fault_handler :: "u64 \<Rightarrow> term_state \<Rightarrow> term_state res" where
  "page_fault_handler ec c =
     bindE (kprintf (c_lit (''Page Fault interrupt handler (ec=%d)'' @ [CHR 0x0A])) [Word_Arg ec] c)
       (\<lambda>_. Inl Halted)"

section \<open>What the processor reads back\<close>

text \<open>
  The fields of a segment descriptor, the base address of a system descriptor and the target
  of a gate, read from the bytes by their positions in the processor manual.
\<close>

definition read_seg :: "u8 list \<Rightarrow> seg_descriptor" where
  "read_seg b = \<lparr>seg_limit_0 = ucast (le_join (take 2 b)), seg_base_0 = ucast (le_join (take 3 (drop 2 b))),
     seg_access = b ! 5, seg_limit_1 = ucast (b ! 6), seg_flags = ucast (drop_bit 4 (b ! 6)), seg_base_1 = b ! 7\<rparr>"

definition read_base :: "u8 list \<Rightarrow> u64" where
  "read_base b = le_join (take 3 (drop 2 b) @ take 5 (drop 7 b))"

definition gate_target :: "idt_entry \<Rightarrow> u64" where
  "gate_target e = ucast (offset_0 e) OR push_bit 16 (ucast (offset_1 e)) OR push_bit 32 (ucast (offset_2 e))"

lemma byte_nth:
  fixes w :: "'a::len word"
  assumes "n < LENGTH('a)"
  shows "bit (byte_of (n div 8) w) (n mod 8) = bit w n"
  using assms by (simp add: byte_of_def bit_simps)

lemma le_join_bytes:
  fixes w :: "'a::len word"
  assumes "LENGTH('a) \<le> 8 * k" and "LENGTH('a) \<le> 64"
  shows "ucast (le_join (map (\<lambda>n. byte_of n w) [0..<k])) = w"
proof (rule bit_word_eqI)
  fix n assume n: "n < LENGTH('a)"
  then have "n div 8 < k" using assms(1) by (simp add: less_mult_imp_div_less mult.commute)
  then show "bit (ucast (le_join (map (\<lambda>n. byte_of n w) [0..<k])) :: 'a word) n = bit w n"
    using n assms(2) byte_nth [OF n] by (simp add: bit_simps bit_le_join)
qed

lemma nibbles_fields: "ucast (nibbles lo hi) = lo" "ucast (drop_bit 4 (nibbles lo hi)) = hi"
  using bit_imp_le_length [of lo] by (intro bit_word_eqI; force simp: nibbles_def bit_simps)+

lemma upt_2_3_5: "[0..<2] = [0, Suc 0]" "[0..<3] = [0, Suc 0, 2]" "[0..<5] = [0, Suc 0, 2, 3, 4]" "[0..<4] = [0, Suc 0, 2, 3]"
  by (simp_all add: upt_rec)

lemma read_seg_bytes: "read_seg (seg_bytes d) = d"
  using le_join_bytes [of 2 "seg_limit_0 d"] le_join_bytes [of 3 "seg_base_0 d"]
  by (simp add: read_seg_def seg_bytes_def nibbles_fields upt_2_3_5 take_Cons' drop_Cons' del: le_join.simps)

text \<open>The two base fields of the task state's descriptor put together give its address back.\<close>

lemma read_base_bytes:
  "read_base (sys_bytes (d\<lparr>sys_base_0 := ucast p, sys_base_1 := ucast (drop_bit 24 p)\<rparr>)) = p"
proof -
  have lo: "byte_of n (ucast p :: 24 word) = byte_of n p" if "n < 3" for n
    using that by (intro bit_word_eqI) (simp add: byte_of_def bit_simps)
  have hi: "byte_of n (ucast (drop_bit 24 p) :: 40 word) = byte_of (n + 3) p" if "n < 5" for n
    using that by (intro bit_word_eqI) (simp add: byte_of_def bit_simps algebra_simps)
  have "read_base (sys_bytes (d\<lparr>sys_base_0 := ucast p, sys_base_1 := ucast (drop_bit 24 p)\<rparr>))
      = le_join (map (\<lambda>n. byte_of n p) [0..<8])"
    using lo hi by (simp add: read_base_def sys_bytes_def upt_rec numeral_eq_Suc del: le_join.simps)
  also have "\<dots> = p" using le_join_bytes [of 8 p] by simp
  finally show ?thesis .
qed

lemma gate_target_set: "gate_target (set_gate fn ty e) = fn"
proof -
  have "ucast (ucast (fn AND 0xffff) :: u16) OR push_bit 16 (ucast (ucast (drop_bit 16 (fn AND 0xffff0000)) :: u16))
      OR push_bit 32 (ucast (ucast (drop_bit 32 (fn AND 0xffffffff00000000)) :: u32)) = (fn :: u64)"
  proof -
    have m: "0xffff = (mask 16 :: u64)" "0xffff0000 = (push_bit 16 (mask 16) :: u64)"
        "0xffffffff00000000 = (push_bit 32 (mask 32) :: u64)" by (simp_all add: mask_eq_exp_minus_1)
    show ?thesis unfolding m
    proof (rule bit_word_eqI)
      fix n assume n: "n < LENGTH(64)"
      consider "n < 16" | "16 \<le> n" "n < 32" | "32 \<le> n" by linarith
      then show "bit (ucast (ucast (fn AND mask 16) :: u16)
          OR push_bit 16 (ucast (ucast (drop_bit 16 (fn AND push_bit 16 (mask 16))) :: u16))
          OR push_bit 32 (ucast (ucast (drop_bit 32 (fn AND push_bit 32 (mask 32))) :: u32)) :: u64) n = bit fn n"
        using n by cases (simp_all add: bit_simps, linarith+)
    qed
  qed
  then show ?thesis by (simp add: set_gate_def gate_target_def)
qed

section \<open>The tables after the set-up\<close>

lemma index_in_idt: "unat (i :: u8) < 256"
proof -
  have "unat i < 2 ^ LENGTH(8)" by (rule unsigned_less)
  then show ?thesis by simp
qed

text \<open>Gates set one after the other: each index has the last handler given for it.\<close>

lemma fold_handlers:
  "length idt = 256 \<Longrightarrow> distinct (map fst hs) \<Longrightarrow>
   fold (\<lambda>(i, h). idt_set_handler i (addr_of h) ty) hs idt ! unat i =
     (case map_of hs i of None \<Rightarrow> idt ! unat i | Some h \<Rightarrow> set_gate (addr_of h) ty (idt ! unat i))"
proof (induction hs arbitrary: idt)
  case (Cons ih hs)
  obtain j h where ih: "ih = (j, h)" by (cases ih)
  have "length (idt_set_handler j (addr_of h) ty idt) = 256" using Cons.prems(1) by (simp add: idt_set_handler_def)
  note IH = Cons.IH [OF this]
  have fresh: "map_of hs j = None" using Cons.prems(2) ih by (simp add: map_of_eq_None_iff)
  have "unat i = unat j \<longleftrightarrow> i = j" by (simp add: word_unat_eq_iff)
  then show ?case using IH Cons.prems ih fresh index_in_idt [of j] by (auto simp: idt_set_handler_def split: option.splits)
qed simp

text \<open>A gate that is set: a present trap gate to the kernel's code segment, open to ring 3.\<close>

definition trap_gate :: "u64 \<Rightarrow> idt_entry \<Rightarrow> bool" where
  "trap_gate fn e \<longleftrightarrow> present e = 1 \<and> gate_target e = fn \<and> gate_selector e = KERNEL_CODE_SELECTOR
     \<and> gate_type e = IDT_TYPE_TRAP \<and> dpl e = 3 \<and> ist e = 0"

lemma trap_gate_set: "trap_gate fn (set_gate fn IDT_TYPE_TRAP e)"
  by (simp add: trap_gate_def gate_target_set) (simp add: set_gate_def)

lemma idt_setup_gates:
  "case map_of idt_handlers i of None \<Rightarrow> fst (idt_setup addr_of a) ! unat i = zero_gate
   | Some h \<Rightarrow> trap_gate (addr_of h) (fst (idt_setup addr_of a) ! unat i)"
proof -
  have "distinct (map fst idt_handlers)" by (simp add: idt_handlers_def)
  then have "fst (idt_setup addr_of a) ! unat i = (case map_of idt_handlers i of
      None \<Rightarrow> zero_gate | Some h \<Rightarrow> set_gate (addr_of h) IDT_TYPE_TRAP zero_gate)"
    using index_in_idt [of i] by (simp add: idt_setup_def fold_handlers split: option.split)
  then show ?thesis using trap_gate_set by (simp split: option.splits)
qed

text \<open>The descriptor at a selector of the table.\<close>

abbreviation seg_at :: "gdt_state \<Rightarrow> u16 \<Rightarrow> seg_descriptor" where
  "seg_at s sel \<equiv> read_seg (take 8 (drop (unat sel) (gdt s)))"

lemma length_seg_bytes [simp]: "length (seg_bytes d) = 8"
  by (simp add: seg_bytes_def)

lemma length_sys_bytes [simp]: "length (sys_bytes d) = 16"
  by (simp add: sys_bytes_def)

lemma gdt_setup_bytes:
  assumes "gdt_size s \<le> 0x58"
  shows "gdt_setup ga ta st s = Inr (s\<lparr>
     gdt := replicate 40 0 @ seg_bytes (zero_seg\<lparr>seg_access := 0x9A, seg_flags := 2\<rparr>)
       @ seg_bytes (zero_seg\<lparr>seg_access := 0x92\<rparr>)
       @ seg_bytes (zero_seg\<lparr>seg_access := 0xFA, seg_flags := 2\<rparr>)
       @ seg_bytes (zero_seg\<lparr>seg_access := 0xF2\<rparr>)
       @ sys_bytes (zero_sys\<lparr>sys_base_0 := ucast ta, sys_base_1 := ucast (drop_bit 24 ta),
           sys_limit_0 := 104, sys_access := 0x89\<rparr>) @ replicate 168 0,
     gdt_size := 0x58, gdtr := Some (0x57, ga), task := zero_tss\<lparr>rsp0 := st + 0x7FF8\<rparr>,
     task_register := Some TSS_SELECTOR\<rparr>)"
  using assms
  by (cases s) (simp add: zero_sys_def add.commute [of st] gdt_setup_def gdt_code_descriptor_def gdt_data_descriptor_def gdt_tss_descriptor_def
      put_bytes_def grow_gdt_def Let_def)

text \<open>Each exception handler prints its message and halts, except the one for exceptions with an
  error code, whose message takes an argument that is not passed.\<close>

lemma message_halts:
  assumes "term_ok c"
  shows "bindE (kprintf fmt args c) (\<lambda>_. Inl Halted) =
    ((case kfmt fmt args of Inl e \<Rightarrow> Inl e | Inr out \<Rightarrow> Inl Halted) :: term_state res)"
proof (cases "kfmt fmt args")
  case (Inr out)
  obtain c' where "puts term_putchar out c = Inr c'" using console.puts_ok [OF assms] by blast
  then show ?thesis using Inr kprintf_prints [OF assms] by simp
qed (simp add: kprintf_prints [OF assms])

lemma exception_handlers_end:
  assumes "term_ok c"
  shows "default_handler c = Inl Halted" "divide_handler c = Inl Halted"
    "general_protection_handler ec c = Inl Halted" "page_fault_handler ec c = Inl Halted"
    "default_handler_ec ec c = Inl Missing_Arg"
  unfolding default_handler_def divide_handler_def general_protection_handler_def page_fault_handler_def
    default_handler_ec_def message_halts [OF assms]
  by (simp_all add: c_lit_def bytes_of_def directive_out_def)
lemma gdt_setup_segments:
  assumes "gdt_size s \<le> 0x58"
  shows "\<exists>g. gdt_setup ga ta st s = Inr g
    \<and> seg_at g KERNEL_CODE_SELECTOR = zero_seg\<lparr>seg_access := 0x9A, seg_flags := 2\<rparr>
    \<and> seg_at g KERNEL_DATA_SELECTOR = zero_seg\<lparr>seg_access := 0x92\<rparr>
    \<and> seg_at g USER_CODE_SELECTOR = zero_seg\<lparr>seg_access := 0xFA, seg_flags := 2\<rparr>
    \<and> seg_at g USER_DATA_SELECTOR = zero_seg\<lparr>seg_access := 0xF2\<rparr>
    \<and> read_base (drop (unat TSS_SELECTOR) (gdt g)) = ta
    \<and> rsp0 (task g) = st + 0x7FF8 \<and> gdtr g = Some (0x57, ga)"
proof -
  have base: "read_base (b @ c) = read_base b" if "length b = 16" for b c
    using that by (simp add: read_base_def)
  let ?d = "zero_sys\<lparr>sys_base_0 := ucast ta, sys_base_1 := ucast (drop_bit 24 ta), sys_limit_0 := 104, sys_access := 0x89\<rparr>"
  have "?d = (zero_sys\<lparr>sys_limit_0 := 104, sys_access := 0x89\<rparr>)\<lparr>sys_base_0 := ucast ta, sys_base_1 := ucast (drop_bit 24 ta)\<rparr>"
    by simp
  then have "read_base (sys_bytes ?d) = ta" using read_base_bytes by metis
  then show ?thesis unfolding gdt_setup_bytes [OF assms] by (simp add: read_seg_bytes base)
qed

end
