(* ===== verification/Syscall.thy ===== *)
theory Syscall
  imports FileModel Keyboard Loader Userlib Descriptors
begin

text \<open>
  The system calls of \<^verbatim>\<open>src/kernel/interrupts.c\<close> on the state of the whole kernel. A pointer
  that a user program passes is a virtual address: its bytes lie in the frames that the page
  tables name, and an access to a page that is not present is the fault \<open>Page_Fault\<close>. The
  routines that take a buffer or a string get the bytes from that address on, as far as they
  are mapped; a run past them is then \<open>Overrun\<close>.

  \<open>keys\<close> are the scan codes of the keys to come; each is one run of the keyboard handler while
  \<open>kgetc\<close> waits.
\<close>

record kstate =
  kfs :: fs_state
  kkbd :: kbd_state
  keys :: "u8 list"
  mem_start :: u64
  kram :: "u64 \<Rightarrow> u8"
  boot_hdr :: "stivale_tag list"

abbreviation kvm :: "kstate \<Rightarrow> mem_state" where "kvm s \<equiv> vm (fds (kfs s))"
abbreviation kcon :: "kstate \<Rightarrow> term_state" where "kcon s \<equiv> con (kvm s)"

definition set_vm :: "mem_state \<Rightarrow> kstate \<Rightarrow> kstate" where
  "set_vm m s = s\<lparr>kfs := (kfs s)\<lparr>fds := (fds (kfs s))\<lparr>vm := m\<rparr>\<rparr>\<rparr>"

definition set_con :: "term_state \<Rightarrow> kstate \<Rightarrow> kstate" where
  "set_con c s = set_vm ((kvm s)\<lparr>con := c\<rparr>) s"

definition loading :: "(load_state \<Rightarrow> ('a \<times> load_state) res) \<Rightarrow> kstate \<Rightarrow> ('a \<times> kstate) res" where
  "loading f s = map_res (\<lambda>(x, l). (x, set_vm (lvm l) (s\<lparr>kram := ram l\<rparr>))) (f \<lparr>lvm = kvm s, ram = kram s\<rparr>)"

section \<open>User memory\<close>

definition user_load :: "u64 \<Rightarrow> kstate \<Rightarrow> u8 res" where
  "user_load a s = (case frame_of (kvm s) a of None \<Rightarrow> Inl (Page_Fault a) | Some p \<Rightarrow> Inr (kram s p))"

definition user_store :: "u64 \<Rightarrow> u8 \<Rightarrow> kstate \<Rightarrow> kstate res" where
  "user_store a b s = (case frame_of (kvm s) a of None \<Rightarrow> Inl (Page_Fault a)
     | Some p \<Rightarrow> Inr (s\<lparr>kram := (kram s)(p := b)\<rparr>))"

text \<open>At most \<open>n\<close> bytes from an address, and the bytes up to and with a zero byte.\<close>

primrec user_block :: "nat \<Rightarrow> u64 \<Rightarrow> kstate \<Rightarrow> u8 list" where
  "user_block 0 a s = []"
| "user_block (Suc n) a s = (case user_load a s of Inl _ \<Rightarrow> [] | Inr b \<Rightarrow> b # user_block n (a + 1) s)"

lemma unat_step: "a \<noteq> -1 \<Longrightarrow> unat (a + 1) = unat (a :: u64) + 1"
  using unatSuc [of a] by (simp add: add.commute eq_neg_iff_add_eq_0)

function user_string :: "u64 \<Rightarrow> kstate \<Rightarrow> u8 list" where
  "user_string a s = (case user_load a s of Inl _ \<Rightarrow> []
     | Inr b \<Rightarrow> if b = 0 then [0] else if a = -1 then [b] else b # user_string (a + 1) s)"
  by pat_completeness auto
termination
proof (relation "measure (\<lambda>(a, s). 2 ^ 64 - unat a)")
  fix a :: u64 assume "a \<noteq> -1"
  moreover have "unat (a + 1) < 2 ^ LENGTH(64)" by (rule unsigned_less)
  ultimately show "((a + 1, s), a, s) \<in> measure (\<lambda>(a, s). 2 ^ 64 - unat a)" for s :: kstate
    using unat_step [of a] by simp
qed simp

declare user_string.simps [simp del]

section \<open>SYS_read\<close>

text \<open>A recursive call under \<open>bindE\<close> is made on a result of the first part.\<close>

lemma bindE_fundef_cong [fundef_cong]:
  "m = m' \<Longrightarrow> (\<And>x. m' = Inr x \<Longrightarrow> f x = f' x) \<Longrightarrow> bindE m f = bindE m' f'"
  using bindE_cong by metis


definition next_key :: "kstate \<Rightarrow> (u8 \<times> kstate) res" where
  "next_key s = map_res (\<lambda>(x, ks, c, k). (x, set_con c (s\<lparr>keys := ks, kkbd := k\<rparr>))) (kgetc (keys s) (kcon s, kkbd s))"

text \<open>What bounds the number of characters still to come.\<close>

definition pending :: "kstate \<Rightarrow> nat" where
  "pending s = 2 * length (keys s) + iobuffer_count (kkbd s)"

lemma keyboard_handler_count:
  "keyboard_handler (c, k) = Inr (c', k') \<Longrightarrow> iobuffer_count k' \<le> iobuffer_count k + 1"
  by (auto simp: keyboard_handler_def buffer_put_def Let_def split: if_splits)

lemma kgetc_pending:
  "kgetc ks (c, k) = Inr (x, ks', c', k') \<Longrightarrow> 2 * length ks' + iobuffer_count k' < 2 * length ks + iobuffer_count k"
proof (induction ks arbitrary: c k)
  case Nil
  then show ?case by (auto simp: kgetc.simps buffer_get_def split: option.splits if_splits)
next
  case (Cons code ks)
  show ?case
  proof (cases "buffer_get k")
    case (Some r)
    then show ?thesis using Cons.prems by (auto simp: kgetc.simps buffer_get_def split: if_splits)
  next
    case None
    then obtain c1 k1 where h: "keyboard_handler (key_event code c, k) = Inr (c1, k1)" "kgetc ks (c1, k1) = Inr (x, ks', c', k')"
      using Cons.prems by (auto simp: kgetc.simps)
    then show ?thesis using Cons.IH [OF h(2)] keyboard_handler_count [OF h(1)] by simp
  qed
qed

lemma next_key_pending: "next_key s = Inr (x, s') \<Longrightarrow> pending s' < pending s"
  by (auto simp: next_key_def pending_def set_con_def set_vm_def dest!: kgetc_pending)

lemma user_store_pending: "user_store a b s = Inr s' \<Longrightarrow> pending s' = pending s"
  by (auto simp: user_store_def pending_def split: option.splits)

function sys_read_loop :: "int \<Rightarrow> int \<Rightarrow> u64 \<Rightarrow> kstate \<Rightarrow> (int \<times> kstate) res" where
  "sys_read_loop i len buffer s =
    (if i < len then
       bindE (next_key s) (\<lambda>(cur_char, s).
         if cur_char = 8 \<and> i > 0 then sys_read_loop (i - 1) len buffer s
         else if cur_char \<noteq> 8 then
           bindE (user_store (buffer + word_of_int i) cur_char s) (sys_read_loop (i + 1) len buffer)
         else sys_read_loop i len buffer s)
     else Inr (i, s))"
  by pat_completeness auto
termination
  by (relation "measure (\<lambda>(i, len, buffer, s). pending s)")
    (auto dest: next_key_pending simp: user_store_pending)

declare sys_read_loop.simps [simp del]

definition SYS_read :: "int \<Rightarrow> u64 \<Rightarrow> int \<Rightarrow> kstate \<Rightarrow> (int \<times> kstate) res" where
  "SYS_read file_descriptor buffer len s =
    (if file_descriptor \<noteq> 0 then Inr (-1, s) else sys_read_loop 0 len buffer s)"

section \<open>SYS_mmap\<close>

abbreviation "MMAP_MEM_START \<equiv> (0x80000000000 :: u64)"

text \<open>\<open>vm_map\<close> and the message that its failure prints; the loop goes on after either.\<close>

definition map_or_warn :: "u64 \<Rightarrow> u64 \<Rightarrow> bool \<Rightarrow> bool \<Rightarrow> bool \<Rightarrow> mem_state \<Rightarrow> mem_state res" where
  "map_or_warn root a user writable executable m =
     bindE (vm_map root a user writable executable m) (\<lambda>(rc, m).
       if rc then Inr m
       else mprintf (c_lit (''Panic, vm_map didn'' @ [CHR 0x27] @ ''t map the modules'' @ [CHR 0x0A])) [] m)"

partial_function (option) mmap_loop ::
  "u64 \<Rightarrow> bool \<Rightarrow> bool \<Rightarrow> bool \<Rightarrow> u64 \<Rightarrow> u64 \<Rightarrow> mem_state \<Rightarrow> mem_state res option" where
  "mmap_loop root user writable executable len page_align_addr m =
    (if len > 0 then
       (case map_or_warn root page_align_addr user writable executable m of Inl e \<Rightarrow> Some (Inl e)
        | Inr m \<Rightarrow> mmap_loop root user writable executable (len - PAGESIZE) (page_align_addr + PAGESIZE) m)
     else Some (Inr m))"

text \<open>
  \<open>pages\<close> is an \<open>int\<close>, and so is \<open>pages * PAGESIZE\<close>. \<open>prot\<close> is an \<open>int\<close> whose bits are tested;
  \<open>flags\<close>, \<open>fd\<close> and \<open>offset\<close> are not used.
\<close>

definition mmap_pages :: "u64 \<Rightarrow> int res" where
  "mmap_pages len =
    (let pages = int_of_size (len div PAGESIZE);
         pages = (if len mod PAGESIZE \<noteq> 0 then pages + 1 else pages)
     in if pages \<le> 0x7FFFFFFF \<and> - 0x80000000 \<le> pages * 0x1000 \<and> pages * 0x1000 \<le> 0x7FFFFFFF
        then Inr pages else Inl Signed_Overflow)"

definition SYS_mmap :: "u64 \<Rightarrow> u64 \<Rightarrow> u32 \<Rightarrow> kstate \<Rightarrow> (u64 \<times> kstate) res" where
  "SYS_mmap addr len prot s =
    (let root = cr3_root (kvm s) in
     bindE (if addr \<noteq> 0 then
         (let page_align_addr = addr AND NOT 0xFFF;
              first_len = (if page_align_addr = addr then PAGESIZE else PAGESIZE - (addr - page_align_addr))
          in map_res (\<lambda>m. (addr, len - first_len, page_align_addr + PAGESIZE, set_vm m s))
               (map_or_warn root page_align_addr True True True (kvm s)))
       else
         map_res (\<lambda>pages. (mem_start s, len, mem_start s, s\<lparr>mem_start := mem_start s + word_of_int (pages * 0x1000)\<rparr>))
           (mmap_pages len))
     (\<lambda>(addr, len, page_align_addr, s).
       map_res (\<lambda>m. (addr, set_vm m s))
         (run_loop (mmap_loop root (bit prot 0) (bit prot 1) (bit prot 2) len page_align_addr (kvm s)))))"

section \<open>SYS_exec, SYS_exit\<close>

text \<open>
  How a system call ends: it returns a value; or it calls a module's entry point in kernel
  mode (after which it would return 1); or it leaves for user mode with a new stack.
\<close>

datatype sysret =
    Ret u64
  | Call u64
  | Usermode u16 u64 u16 u64     \<comment> \<open>data selector, stack pointer, code selector, entry point\<close>

definition reset_memory :: "kstate \<Rightarrow> kstate" where
  "reset_memory s = (set_vm (unmap_lower_half (cr3_root (kvm s)) (kvm s)) s)\<lparr>mem_start := MMAP_MEM_START\<rparr>"

definition SYS_exec :: "u64 \<Rightarrow> kstate \<Rightarrow> (sysret \<times> kstate) res" where
  "SYS_exec module s =
     bindE (strcpy (replicate 100 0) (user_string module s)) (\<lambda>kernel_mod.
     let s = reset_memory s in
     map_res (\<lambda>(func, s). (Call func, s)) (loading (load_module (boot_hdr s) kernel_mod) s))"

text \<open>The pages of the user stack; the result of \<open>vm_map\<close> is not looked at.\<close>

fun map_stack :: "nat \<Rightarrow> u64 \<Rightarrow> mem_state \<Rightarrow> mem_state res" where
  "map_stack 0 p m = Inr m"
| "map_stack (Suc n) p m = bindE (vm_map (cr3_root m) p True True False m) (\<lambda>(rc, m). map_stack n (p + 0x1000) m)"

abbreviation "USER_STACK \<equiv> (0x70000000000 :: u64)"

definition SYS_exit :: "kstate \<Rightarrow> (sysret \<times> kstate) res" where
  "SYS_exit s =
    (let s = reset_memory s in
     bindE (loading (load_module (boot_hdr s) (c_lit ''init'')) s) (\<lambda>(func, s).
     bindE (map_stack 8 USER_STACK (kvm s)) (\<lambda>m.
     Inr (Usermode (USER_DATA_SELECTOR OR 3) (USER_STACK + 8 * 0x1000 - 8) (USER_CODE_SELECTOR OR 3) func, set_vm m s))))"

text \<open>\<open>load_init\<close> of \<^verbatim>\<open>src/kernel/modules.c\<close> calls the entry point of the first program in kernel mode.\<close>

definition load_init :: "stivale_tag list \<Rightarrow> kstate \<Rightarrow> (sysret \<times> kstate) res" where
  "load_init hdr s = map_res (\<lambda>(func, s). (Call func, s)) (loading (load_module hdr (c_lit ''init'')) s)"

section \<open>The dispatcher\<close>

definition on_fs :: "(fs_state \<Rightarrow> ('a \<times> fs_state) res) \<Rightarrow> kstate \<Rightarrow> ('a \<times> kstate) res" where
  "on_fs f s = map_res (\<lambda>(x, t). (x, s\<lparr>kfs := t\<rparr>)) (f (kfs s))"

definition ret_int :: "(int \<times> kstate) res \<Rightarrow> (sysret \<times> kstate) res" where
  "ret_int r = map_res (\<lambda>(x, s). (Ret (word_of_int x), s)) r"

definition ret_bool :: "(bool \<times> kstate) res \<Rightarrow> (sysret \<times> kstate) res" where
  "ret_bool r = map_res (\<lambda>(x, s). (Ret (if x then 1 else 0), s)) r"

text \<open>A break out of the switch returns 123.\<close>

definition ret_break :: "kstate res \<Rightarrow> (sysret \<times> kstate) res" where
  "ret_break r = map_res (Pair (Ret 123)) r"

definition SYS_fs_open :: "u64 \<Rightarrow> kstate \<Rightarrow> (int \<times> kstate) res" where
  "SYS_fs_open file_name s = on_fs (fs_open (user_string file_name s)) s"

definition SYS_fs_write :: "int \<Rightarrow> u64 \<Rightarrow> u64 \<Rightarrow> kstate \<Rightarrow> (bool \<times> kstate) res" where
  "SYS_fs_write fd buf sz s = on_fs (fs_write fd (user_block (unat sz) buf s) sz) s"

definition SYS_fs_write_at :: "int \<Rightarrow> u64 \<Rightarrow> u64 \<Rightarrow> u64 \<Rightarrow> kstate \<Rightarrow> (bool \<times> kstate) res" where
  "SYS_fs_write_at fd index buff sz s = on_fs (fs_write_at fd index (user_block (unat sz) buff s) sz) s"

definition SYS_fs_append :: "int \<Rightarrow> u64 \<Rightarrow> u64 \<Rightarrow> kstate \<Rightarrow> (bool \<times> kstate) res" where
  "SYS_fs_append fd buf sz s = on_fs (fs_append fd (user_block (unat sz) buf s) sz) s"

definition SYS_fs_read :: "int \<Rightarrow> kstate \<Rightarrow> kstate res" where
  "SYS_fs_read fd s = map_res (\<lambda>t. s\<lparr>kfs := t\<rparr>) (fs_read fd (kfs s))"

definition SYS_fs_delete :: "int \<Rightarrow> kstate \<Rightarrow> kstate res" where
  "SYS_fs_delete fd s = map_res (\<lambda>t. s\<lparr>kfs := t\<rparr>) (fs_delete fd (kfs s))"

definition SYS_fs_rename :: "u64 \<Rightarrow> u64 \<Rightarrow> kstate \<Rightarrow> kstate res" where
  "SYS_fs_rename oldpath newpath s =
     map_res snd (on_fs (fs_rename (user_string oldpath s) (user_string newpath s)) s)"

text \<open>Arguments are 64-bit registers; an \<open>int\<close> parameter takes the low half.\<close>

definition syscall_handler :: "u64 \<Rightarrow> u64 \<Rightarrow> u64 \<Rightarrow> u64 \<Rightarrow> u64 \<Rightarrow> kstate \<Rightarrow> (sysret \<times> kstate) res" where
  "syscall_handler nr arg0 arg1 arg2 arg3 s =
    (if nr = 0 then ret_int (SYS_read (int_of_size arg0) arg1 (int_of_size arg2) s)
     else if nr = 1 then
       ret_int (map_res (\<lambda>(r, c). (r, set_con c s))
         (SYS_write (int_of_size arg0) (user_block (nat (int_of_size arg2)) arg1 s) (int_of_size arg2) (kcon s)))
     else if nr = 9 then map_res (\<lambda>(a, s). (Ret a, s)) (SYS_mmap arg0 arg1 (ucast arg2) s)
     else if nr = 5 then SYS_exec arg0 s
     else if nr = 6 then SYS_exit s
     else if nr = 12 then ret_int (SYS_fs_open arg0 s)
     else if nr = 13 then ret_bool (SYS_fs_write (int_of_size arg0) arg1 arg2 s)
     else if nr = 14 then ret_bool (SYS_fs_write_at (int_of_size arg0) arg1 arg2 arg3 s)
     else if nr = 15 then ret_bool (SYS_fs_append (int_of_size arg0) arg1 arg2 s)
     else if nr = 16 then ret_break (SYS_fs_read (int_of_size arg0) s)
     else if nr = 17 then ret_break (SYS_fs_delete (int_of_size arg0) s)
     else if nr = 18 then ret_break (SYS_fs_rename arg0 arg1 s)
     else ret_break (Inr s))"

end
