(* ===== verification/SysRead.thy ===== *)
theory SysRead
  imports Syscall
begin

text \<open>
  Reading a line and writing a buffer: what \<open>SYS_read\<close> and \<open>SYS_write\<close> of
  \<^verbatim>\<open>src/kernel/interrupts.c\<close> promise a user program. \<open>line_edit\<close> is the specification of
  reading: typed characters extend the line, a backspace takes the last one off, and only the
  line's length ends it.
\<close>

section \<open>Specification\<close>

fun line_edit :: "nat \<Rightarrow> u8 list \<Rightarrow> u8 list \<Rightarrow> (u8 list \<times> u8 list) option" where
  "line_edit n acc inp =
    (if n \<le> length acc then Some (acc, inp)
     else case inp of [] \<Rightarrow> None
       | c # inp \<Rightarrow> line_edit n (if c = 8 then butlast acc else acc @ [c]) inp)"

declare line_edit.simps [simp del]

text \<open>The characters that are queued or will be typed.\<close>

definition char_stream :: "kstate \<Rightarrow> u8 list" where
  "char_stream s = kbd_items (kkbd s) @ typed (shifts (kkbd s)) (keys s)"

definition k_ok :: "kstate \<Rightarrow> bool" where
  "k_ok s \<longleftrightarrow> kbd_ok (kkbd s) \<and> term_ok (kcon s)"

text \<open>\<open>n\<close> bytes at \<open>a\<close> are mapped, each to a frame byte of its own.\<close>

definition backed :: "nat \<Rightarrow> u64 \<Rightarrow> (nat \<Rightarrow> u64) \<Rightarrow> kstate \<Rightarrow> bool" where
  "backed n a f s \<longleftrightarrow> (\<forall>j < n. frame_of (kvm s) (a + of_nat j) = Some (f j)) \<and> inj_on f {..<n}"

section \<open>Updates of the kernel state\<close>

lemma frame_of_con [simp]: "frame_of (m\<lparr>con := c\<rparr>) a = frame_of m a"
proof -
  have "table_path (m\<lparr>con := c\<rparr>) shs a t = table_path m shs a t" for shs t
    by (rule leaf_entry_cells) simp_all
  then show ?thesis by (simp add: frame_of_def leaf_entry_def read_cr3_def entry_at_page del: table_path.simps)
qed

lemma set_con_fields [simp]:
  "kvm (set_con c s) = (kvm s)\<lparr>con := c\<rparr>" "kkbd (set_con c s) = kkbd s" "keys (set_con c s) = keys s"
  "kram (set_con c s) = kram s" "mem_start (set_con c s) = mem_start s" "boot_hdr (set_con c s) = boot_hdr s"
  by (simp_all add: set_con_def set_vm_def)

lemma user_load_backed: "backed n a f s \<Longrightarrow> j < n \<Longrightarrow> user_load (a + of_nat j) s = Inr (kram s (f j))"
  by (simp add: backed_def user_load_def)

lemma user_block_backed:
  "(\<And>j. j < n \<Longrightarrow> user_load (a + of_nat j) s = Inr (g j)) \<Longrightarrow> user_block n a s = map g [0..<n]"
proof (induction n arbitrary: a g)
  case (Suc n)
  have "user_load a s = Inr (g 0)" using Suc.prems [of 0] by simp
  moreover have "user_block n (a + 1) s = map (\<lambda>j. g (Suc j)) [0..<n]"
    using Suc.prems [of "Suc j" for j] by (intro Suc.IH) (simp add: algebra_simps)
  ultimately show ?case by (simp add: map_Suc_upt [symmetric] upt_conv_Cons del: upt_Suc)
qed simp

lemma backed_block: "backed n a f s \<Longrightarrow> user_block n a s = map (\<lambda>j. kram s (f j)) [0..<n]"
  by (rule user_block_backed) (rule user_load_backed)

section \<open>The next key\<close>

lemma kgetc_empty:
  "kbd_ok k \<Longrightarrow> term_ok c \<Longrightarrow> kbd_items k = [] \<Longrightarrow> typed (shifts k) ks = [] \<Longrightarrow> kgetc ks (c, k) = Inl No_Return"
proof (induction ks arbitrary: c k)
  case (Cons code ks)
  then have empty: "buffer_get k = None" "iobuffer_count k = 0"
    using buffer_get_ok [OF Cons.prems(1)] length_kbd_items [of k] by simp_all
  have ev: "term_ok (key_event code c)" "inb 0x60 (tports (key_event code c)) = code" using Cons.prems(2) by simp_all
  obtain sh r where sc: "scan (shifts k) code = (sh, r)" by (cases "scan (shifts k) code") auto
  then have r: "r = None" "typed sh ks = []" using Cons.prems(4) by (auto split: option.splits)
  obtain c' k' where h: "keyboard_handler (key_event code c, k) = Inr (c', k')" "kbd_ok k'" "term_ok c'"
      "shifts k' = sh" "kbd_items k' = []"
    using keyboard_handler_ok [OF Cons.prems(1) ev] Cons.prems(3) sc r by auto
  show ?case using Cons.IH [OF h(2,3,5)] h r empty by (simp add: kgetc.simps [of "code # ks"])
qed (use buffer_get_ok in \<open>fastforce simp: kgetc.simps\<close>)

text \<open>Keys are handled only while the queue is empty, so none is dropped and nothing is printed.\<close>

lemma screen_of_ports [simp]: "screen_of (key_event code c) = screen_of c" "screen_of (term_outb p v c) = screen_of c"
  by (simp_all add: screen_of_def key_event_def)

lemma keyboard_handler_screen:
  "keyboard_handler (c, k) = Inr (c', k') \<Longrightarrow> iobuffer_count k \<noteq> IO_BUFFER_SIZE \<Longrightarrow> screen_of c' = screen_of c"
  by (auto simp: keyboard_handler_def Let_def split: if_splits)

lemma kgetc_screen: "kgetc ks (c, k) = Inr (x, ks', c', k') \<Longrightarrow> screen_of c' = screen_of c"
proof (induction ks arbitrary: c k)
  case Nil
  then show ?case by (auto simp: kgetc.simps split: option.splits)
next
  case (Cons code ks)
  show ?case
  proof (cases "buffer_get k")
    case None
    then have "iobuffer_count k = 0" by (simp add: buffer_get_def split: if_splits)
    moreover obtain c1 k1 where "keyboard_handler (key_event code c, k) = Inr (c1, k1)" "kgetc ks (c1, k1) = Inr (x, ks', c', k')"
      using None Cons.prems by (auto simp: kgetc.simps)
    ultimately show ?thesis using Cons.IH keyboard_handler_screen by fastforce
  qed (use Cons.prems in \<open>auto simp: kgetc.simps\<close>)
qed

lemma next_key_none: "k_ok s \<Longrightarrow> char_stream s = [] \<Longrightarrow> next_key s = Inl No_Return"
  by (simp add: next_key_def k_ok_def char_stream_def kgetc_empty)

lemma next_key_some:
  assumes "k_ok s" and "char_stream s = x # xs"
  shows "\<exists>c ks k. next_key s = Inr (x, set_con c (s\<lparr>keys := ks, kkbd := k\<rparr>)) \<and> screen_of c = screen_of (kcon s)
    \<and> k_ok (set_con c (s\<lparr>keys := ks, kkbd := k\<rparr>)) \<and> char_stream (set_con c (s\<lparr>keys := ks, kkbd := k\<rparr>)) = xs"
proof -
  obtain ks c k where "kgetc (keys s) (kcon s, kkbd s) = Inr (x, ks, c, k)" "kbd_ok k" "term_ok c"
    "kbd_items k @ typed (shifts k) ks = xs"
    using kgetc_next [of "kkbd s" "kcon s" "keys s" x xs] assms by (auto simp: k_ok_def char_stream_def)
  moreover from this have "screen_of c = screen_of (kcon s)" using kgetc_screen by blast
  ultimately show ?thesis
    by (intro exI [of _ c] exI [of _ ks] exI [of _ k]) (simp add: next_key_def k_ok_def char_stream_def)
qed

section \<open>SYS_read edits a line\<close>

text \<open>The state with other keys and user memory and the same screen.\<close>

definition after_read :: "kstate \<Rightarrow> kstate \<Rightarrow> bool" where
  "after_read s s' \<longleftrightarrow> (\<exists>c ks k r. s' = set_con c (s\<lparr>keys := ks, kkbd := k, kram := r\<rparr>)
     \<and> screen_of c = screen_of (kcon s))"

lemma after_read_refl: "after_read s s"
  unfolding after_read_def
  by (rule exI [of _ "kcon s"], rule exI [of _ "keys s"], rule exI [of _ "kkbd s"], rule exI [of _ "kram s"])
    (simp add: set_con_def set_vm_def)

lemma after_read_step:
  "screen_of c = screen_of (kcon s) \<Longrightarrow> after_read (set_con c (s\<lparr>keys := ks, kkbd := k\<rparr>)) s' \<Longrightarrow> after_read s s'"
  "screen_of c = screen_of (kcon s) \<Longrightarrow> after_read ((set_con c (s\<lparr>keys := ks, kkbd := k\<rparr>))\<lparr>kram := r\<rparr>) s' \<Longrightarrow> after_read s s'"
  unfolding after_read_def by (auto simp: set_con_def set_vm_def)

lemma sys_read_loop_done: "sys_read_loop (int n) (int n) buffer s = Inr (int n, s)"
  by (simp add: sys_read_loop.simps)

lemma sys_read_loop_edits:
  "k_ok s \<Longrightarrow> backed n buffer f s \<Longrightarrow> length acc \<le> n \<Longrightarrow> (\<forall>j < length acc. kram s (f j) = acc ! j) \<Longrightarrow>
   case line_edit n acc (char_stream s) of
     None \<Rightarrow> sys_read_loop (int (length acc)) (int n) buffer s = Inl No_Return
   | Some (line, rest) \<Rightarrow> \<exists>s'. sys_read_loop (int (length acc)) (int n) buffer s = Inr (int n, s')
       \<and> k_ok s' \<and> char_stream s' = rest \<and> after_read s s' \<and> length line = n
       \<and> (\<forall>j < n. kram s' (f j) = line ! j) \<and> (\<forall>p. p \<notin> f ` {..<n} \<longrightarrow> kram s' p = kram s p)"
proof (induction "char_stream s" arbitrary: s acc)
  case Nil
  have empty: "char_stream s = []" using Nil.hyps by simp
  show ?case
  proof (cases "length acc = n")
    case True
    then show ?thesis using Nil.prems empty after_read_refl
      by (auto simp: line_edit.simps [of n acc] sys_read_loop_done)
  next
    case False
    then show ?thesis using Nil.prems empty next_key_none [OF Nil.prems(1)]
      by (simp add: line_edit.simps [of n acc] sys_read_loop.simps)
  qed
next
  case (Cons x xs)
  have st: "char_stream s = x # xs" using Cons.hyps(2) by simp
  show ?case
  proof (cases "length acc = n")
    case True
    then show ?thesis using Cons.prems st after_read_refl
      by (auto simp: line_edit.simps [of n acc] sys_read_loop_done)
  next
    case False
    then have lt: "length acc < n" using Cons.prems(3) by simp
    obtain c ks k where nk: "next_key s = Inr (x, set_con c (s\<lparr>keys := ks, kkbd := k\<rparr>))"
      "k_ok (set_con c (s\<lparr>keys := ks, kkbd := k\<rparr>))" "char_stream (set_con c (s\<lparr>keys := ks, kkbd := k\<rparr>)) = xs"
      and scr: "screen_of c = screen_of (kcon s)"
      using next_key_some [OF Cons.prems(1) st] by blast
    let ?t = "set_con c (s\<lparr>keys := ks, kkbd := k\<rparr>)"
    let ?i = "int (length acc)"
    have bt: "backed n buffer f ?t" using Cons.prems(2) by (simp add: backed_def)
    show ?thesis
    proof (cases "x = 8")
      case True
      have le: "length (butlast acc) \<le> n" "\<forall>j < length (butlast acc). kram ?t (f j) = butlast acc ! j"
        using lt Cons.prems(4) by (simp_all add: nth_butlast)
      have loop: "sys_read_loop ?i (int n) buffer s = sys_read_loop (int (length (butlast acc))) (int n) buffer ?t"
        using True lt nk(1) by (cases acc) (simp_all add: sys_read_loop.simps [of _ "int n" buffer s])
      have edit: "line_edit n acc (char_stream s) = line_edit n (butlast acc) (char_stream ?t)"
        using True lt st nk(3) by (simp add: line_edit.simps [of n acc])
      have kr: "kram ?t = kram s" by simp
      show ?thesis using Cons.hyps(1) [OF nk(3) [symmetric] nk(2) bt le] after_read_step(1) [OF scr] unfolding loop edit kr
        by (fastforce split: option.splits)
    next
      case False
      let ?u = "?t\<lparr>kram := (kram ?t)(f (length acc) := x)\<rparr>"
      have store: "user_store (buffer + word_of_int ?i) x ?t = Inr ?u"
        using bt lt by (simp add: backed_def user_store_def)
      have loop: "sys_read_loop ?i (int n) buffer s = sys_read_loop (int (length (acc @ [x]))) (int n) buffer ?u"
        using False lt nk(1) store by (simp add: sys_read_loop.simps [of ?i] add.commute)
      have edit: "line_edit n acc (char_stream s) = line_edit n (acc @ [x]) (char_stream ?u)"
        using False lt st nk(3) by (simp add: line_edit.simps [of n acc] char_stream_def)
      have u: "k_ok ?u" "char_stream ?u = xs" using nk by (simp_all add: k_ok_def char_stream_def)
      have bu: "backed n buffer f ?u" using bt by (simp add: backed_def)
      have inj: "f j \<noteq> f (length acc)" if "j < length acc" for j
        using that lt Cons.prems(2) by (auto simp: backed_def inj_on_def)
      have le: "length (acc @ [x]) \<le> n" "\<forall>j < length (acc @ [x]). kram ?u (f j) = (acc @ [x]) ! j"
        using lt Cons.prems(4) inj by (auto simp: nth_append less_Suc_eq)
      have kr: "kram ?u p = kram s p" if "p \<notin> f ` {..<n}" for p using that lt by auto
      show ?thesis using Cons.hyps(1) [OF u(2) [symmetric] u(1) bu le] after_read_step(2) [OF scr] kr unfolding loop edit
        by (fastforce split: option.splits)
    qed
  qed
qed

lemma backed_after: "after_read s s' \<Longrightarrow> backed n a f s' = backed n a f s"
  by (auto simp: after_read_def backed_def)

lemma sys_read_edits:
  assumes "k_ok s" and "backed n buffer f s"
  shows "case line_edit n [] (char_stream s) of
     None \<Rightarrow> SYS_read 0 buffer (int n) s = Inl No_Return
   | Some (line, rest) \<Rightarrow> \<exists>s'. SYS_read 0 buffer (int n) s = Inr (int n, s')
       \<and> k_ok s' \<and> char_stream s' = rest \<and> after_read s s' \<and> user_block n buffer s' = line"
proof -
  have loop: "sys_read_loop (int (length [])) (int n) buffer s = SYS_read 0 buffer (int n) s" by (simp add: SYS_read_def)
  have "length [] \<le> n" "\<forall>j < length []. kram s (f j) = [] ! j" by simp_all
  note main = sys_read_loop_edits [OF assms this, unfolded loop]
  show ?thesis
  proof (cases "line_edit n [] (char_stream s)")
    case (Some lr)
    obtain line rest where lr: "lr = (line, rest)" by (cases lr)
    obtain s' where s': "SYS_read 0 buffer (int n) s = Inr (int n, s')" "k_ok s'" "char_stream s' = rest"
      "after_read s s'" "length line = n" "\<forall>j < n. kram s' (f j) = line ! j"
      using main Some lr by auto
    have "user_block n buffer s' = map (\<lambda>j. kram s' (f j)) [0..<n]"
      using backed_block backed_after [OF s'(4)] assms(2) by blast
    also have "\<dots> = line" using s'(5,6) by (intro nth_equalityI) simp_all
    finally show ?thesis using Some lr s' by auto
  qed (use main in simp)
qed

text \<open>Without a backspace the line is the next \<open>n\<close> characters.\<close>

lemma line_edit_plain:
  "8 \<notin> set xs \<Longrightarrow> length acc + length xs = n \<Longrightarrow> line_edit n acc (xs @ rest) = Some (acc @ xs, rest)"
proof (induction xs arbitrary: acc)
  case (Cons x xs)
  then show ?case using Cons.IH [of "acc @ [x]"] by (simp add: line_edit.simps [of n acc])
qed (simp add: line_edit.simps)

text \<open>With fewer characters than asked for the call waits.\<close>

lemma line_edit_short: "length acc + length inp < n \<Longrightarrow> line_edit n acc inp = None"
proof (induction inp arbitrary: acc)
  case (Cons c inp)
  then show ?case by (simp add: line_edit.simps [of n acc] Cons.IH)
qed (simp add: line_edit.simps)

section \<open>SYS_write prints a buffer\<close>

lemma sys_write_prints:
  assumes "term_ok c" and "fd = 1 \<or> fd = 2" and "n \<le> length buffer"
  shows "\<exists>c'. SYS_write fd buffer (int n) c = Inr (int n, c') \<and> puts term_putchar (take n buffer) c = Inr c' \<and> term_ok c'"
proof -
  obtain c' where "puts term_putchar (take n buffer) c = Inr c'" "term_ok c'"
    using console.puts_ok [OF assms(1)] by blast
  then show ?thesis using assms(2,3) by (auto simp: SYS_write_def write_loop_term term_write_puts)
qed

end
