(* ===== verification/SysFiles.thy ===== *)
theory SysFiles
  imports SysRead
begin

text \<open>
  The file calls of user programs, from the wrappers of \<^verbatim>\<open>src/stdlib/fs.c\<close> through the
  dispatcher to the file system: a request in registers and user memory that stands for a call
  of the file model is answered as the model says. The stub \<open>syscall\<close> passes its arguments in
  the registers of the C calling convention; an argument that a wrapper does not pass is what
  the register held, a parameter of the definition.
\<close>

section \<open>fs.c of the user library\<close>

text \<open>The result of a system call that returns a value; the file calls always do.\<close>

definition returned :: "(sysret \<times> kstate) res \<Rightarrow> (u64 \<times> kstate) res" where
  "returned r = bindE r (\<lambda>(x, s). case x of Ret v \<Rightarrow> Inr (v, s) | _ \<Rightarrow> Inl No_Return)"

text \<open>\<open>syscall\<close> is declared to return \<open>int\<close> in this file; a \<open>bool\<close> result is that it is not 0.\<close>

definition file_open :: "u64 \<Rightarrow> kstate \<Rightarrow> (int \<times> kstate) res" where
  "file_open file_name s = map_res (\<lambda>(v, s). (int_of_size v, s)) (returned (syscall_handler 12 file_name 0 0 0 s))"

definition file_write :: "int \<Rightarrow> u64 \<Rightarrow> u64 \<Rightarrow> kstate \<Rightarrow> (bool \<times> kstate) res" where
  "file_write fd buf sz s =
     map_res (\<lambda>(v, s). (int_of_size v \<noteq> 0, s)) (returned (syscall_handler 13 (word_of_int fd) buf sz 0 s))"

text \<open>The descriptor is not passed on: the index takes its place, and so on to the size, whose
  place is taken by what register \<open>r8\<close> holds.\<close>

definition file_write_at :: "u64 \<Rightarrow> int \<Rightarrow> u64 \<Rightarrow> u64 \<Rightarrow> u64 \<Rightarrow> kstate \<Rightarrow> (bool \<times> kstate) res" where
  "file_write_at r8 fd index buff sz s =
     map_res (\<lambda>(v, s). (int_of_size v \<noteq> 0, s)) (returned (syscall_handler 14 index buff sz r8 s))"

definition file_append :: "int \<Rightarrow> u64 \<Rightarrow> u64 \<Rightarrow> kstate \<Rightarrow> (bool \<times> kstate) res" where
  "file_append fd buf sz s =
     map_res (\<lambda>(v, s). (int_of_size v \<noteq> 0, s)) (returned (syscall_handler 15 (word_of_int fd) buf sz 0 s))"

definition file_read :: "int \<Rightarrow> kstate \<Rightarrow> kstate res" where
  "file_read fd s = map_res snd (returned (syscall_handler 16 (word_of_int fd) 0 0 0 s))"

definition file_delete :: "int \<Rightarrow> kstate \<Rightarrow> kstate res" where
  "file_delete fd s = map_res snd (returned (syscall_handler 17 (word_of_int fd) 0 0 0 s))"

text \<open>\<open>file_rename\<close> has a result type and no \<open>return\<close>: its value must not be used.\<close>

definition file_rename :: "u64 \<Rightarrow> u64 \<Rightarrow> kstate \<Rightarrow> kstate res" where
  "file_rename oldpath newpath s = map_res snd (returned (syscall_handler 18 oldpath newpath 0 0 s))"

section \<open>Requests and replies\<close>

text \<open>The call that a system-call number with its arguments stands for in a state.\<close>

fun request :: "fcall \<Rightarrow> u64 \<Rightarrow> u64 \<Rightarrow> u64 \<Rightarrow> u64 \<Rightarrow> u64 \<Rightarrow> kstate \<Rightarrow> bool" where
  "request (C_Open n) nr a0 a1 a2 a3 s \<longleftrightarrow> nr = 12 \<and> user_string a0 s = n @ [0]"
| "request (C_Write_At fd i b) nr a0 a1 a2 a3 s \<longleftrightarrow> int_of_size a0 = fd \<and> length b < 2 ^ 64 \<and>
     (nr = 13 \<and> i = 0 \<and> a2 = of_nat (length b) \<and> user_block (length b) a1 s = b \<or>
      nr = 14 \<and> i = a1 \<and> a3 = of_nat (length b) \<and> user_block (length b) a2 s = b)"
| "request (C_Append fd b) nr a0 a1 a2 a3 s \<longleftrightarrow> nr = 15 \<and> int_of_size a0 = fd \<and> length b < 2 ^ 64
     \<and> a2 = of_nat (length b) \<and> user_block (length b) a1 s = b"
| "request (C_Read fd) nr a0 a1 a2 a3 s \<longleftrightarrow> nr = 16 \<and> int_of_size a0 = fd"
| "request (C_Delete fd) nr a0 a1 a2 a3 s \<longleftrightarrow> nr = 17 \<and> int_of_size a0 = fd"
| "request (C_Rename old new) nr a0 a1 a2 a3 s \<longleftrightarrow> nr = 18 \<and> user_string a0 s = old @ [0] \<and> user_string a1 s = new @ [0]"

text \<open>The register value for a result; reading, deleting and renaming return 123.\<close>

fun reply :: "fcall \<Rightarrow> fresult \<Rightarrow> u64" where
  "reply (C_Open n) (R_Fd fd) = word_of_int fd"
| "reply (C_Write_At fd i b) (R_Bool r) = (if r then 1 else 0)"
| "reply (C_Append fd b) (R_Bool r) = (if r then 1 else 0)"
| "reply c r = 123"

lemma fs_syscall:
  assumes "fs_step c (kfs s) = Inr (r, t)" and "request c nr a0 a1 a2 a3 s"
  shows "syscall_handler nr a0 a1 a2 a3 s = Inr (Ret (reply c r), s\<lparr>kfs := t\<rparr>)"
proof -
  have len: "unat (of_nat (length b) :: u64) = length b" if "length b < 2 ^ 64" for b :: "u8 list"
    using that by (intro unat_of_nat_small) simp
  show ?thesis
    using assms len
    by (cases c)
      (auto simp: syscall_handler_def ret_int_def ret_bool_def ret_break_def on_fs_def SYS_fs_open_def
        SYS_fs_write_def SYS_fs_write_at_def SYS_fs_append_def SYS_fs_read_def SYS_fs_delete_def SYS_fs_rename_def fs_write_def)
qed

lemma fs_syscall_follows:
  assumes "fm_rel m (kfs s)" and "fds_backed (kfs s)" and "fm_step c m = Some (r, out, m')"
    and "request c nr a0 a1 a2 a3 s"
  shows "\<exists>t. syscall_handler nr a0 a1 a2 a3 s = Inr (Ret (reply c r), s\<lparr>kfs := t\<rparr>) \<and> fm_rel m' t
    \<and> fds_backed t \<and> puts term_putchar out (kcon s) = Inr (con (vm (fds t))) \<and> same_memory (kvm s) (vm (fds t))"
proof -
  have "fm_run [c] m = Some ([r], out, m')" using assms(3) by simp
  from fs_run_follows [OF assms(1,2) this] obtain t where t: "fs_run [c] (kfs s) = Inr ([r], t)" "fm_rel m' t"
    "fds_backed t" "puts term_putchar out (kcon s) = Inr (con (vm (fds t)))" "same_memory (kvm s) (vm (fds t))" by blast
  then have "fs_step c (kfs s) = Inr (r, t)" by auto
  then show ?thesis using fs_syscall assms(4) t by blast
qed

section \<open>The lost descriptor\<close>

text \<open>The address of the buffer is taken for the index: no file is that long.\<close>

lemma file_write_at_fails:
  assumes "fs_ok L ch fl t (kfs s)" and "511872 < unat buff"
  shows "file_write_at r8 fd index buff sz s = Inr (False, s)"
proof -
  have "fs_write_at g buff b n (kfs s) = Inr (False, kfs s)" for g b n
  proof (cases "t g")
    case None
    then show ?thesis using fs_write_at_closed [OF assms(1)] by blast
  next
    case (Some k)
    have "unat (file_size (entries (kfs s) ! k)) < unat buff"
      using size_small(1) [OF assms(1) open_entry [OF assms(1) Some]] assms(2) by linarith
    then show ?thesis using fs_write_at_gap [OF assms(1) Some] by blast
  qed
  then show ?thesis
    by (simp add: file_write_at_def returned_def syscall_handler_def ret_bool_def on_fs_def SYS_fs_write_at_def int_of_size_def)
qed

end
