(* ===== verification/Unmapping.thy ===== *)
theory Unmapping
  imports Mappings
begin

text \<open>
  What \<open>unmap_lower_half\<close> of \<^verbatim>\<open>src/kernel/memory.c\<close> does: on an address space whose lower half is a
  tree of tables it gives exactly the pages of those tables back to the free list, each once, and
  leaves a lower half in which nothing is mapped.

  \<open>below2\<close>, \<open>below3\<close> and \<open>below4\<close> list the pages that the three nested loops free, in their order,
  as the state before the loops has them.
\<close>

section \<open>The tables of an address space\<close>

definition slot :: "mem_state \<Rightarrow> u64 \<Rightarrow> nat \<Rightarrow> u64" where
  "slot s t i = cells s (t + hhdm_addr s + 8 * of_nat i)"

definition links :: "u64 \<Rightarrow> bool" where
  "links e \<longleftrightarrow> pte_present e \<and> \<not> pte_page_size e"

primrec below2 :: "nat list \<Rightarrow> mem_state \<Rightarrow> u64 \<Rightarrow> u64 list" where
  "below2 [] s t = []"
| "below2 (i # is) s t =
    (let e = slot s t i in (if links e then [pte_target e] else []) @ below2 is s t)"

primrec below3 :: "nat list \<Rightarrow> mem_state \<Rightarrow> u64 \<Rightarrow> u64 list" where
  "below3 [] s t = []"
| "below3 (i # is) s t =
    (let e = slot s t i in
     (if links e then below2 [0..<512] s (pte_target e) @ [pte_target e] else []) @ below3 is s t)"

primrec below4 :: "nat list \<Rightarrow> mem_state \<Rightarrow> u64 \<Rightarrow> u64 list" where
  "below4 [] s t = []"
| "below4 (i # is) s t =
    (let e = slot s t i in
     (if pte_present e then below3 [0..<512] s (pte_target e) @ [pte_target e] else []) @ below4 is s t)"

lemma cells_slot: "hhdm_addr s' = hhdm_addr s \<Longrightarrow> cells s' (t + hhdm_addr s + 8 * of_nat i) = slot s' t i"
  by (simp add: slot_def)

lemma slot_in_page: "i < 512 \<Longrightarrow> unat (8 * of_nat i :: u64) < 4096"
proof -
  assume i: "i < 512"
  then have "unat (of_nat i :: u64) = i" by (intro unat_of_nat_small) simp
  then show ?thesis using i by (simp add: unat_word_ariths)
qed

lemma slot_inj:
  fixes t h :: u64
  assumes "i < 512" and "j < 512"
  shows "t + h + 8 * of_nat i = t + h + 8 * of_nat j \<longleftrightarrow> i = (j :: nat)"
proof -
  have "unat (8 * of_nat k :: u64) = 8 * k" if "k < 512" for k
  proof -
    have "unat (of_nat k :: u64) = k" using that by (intro unat_of_nat_small) simp
    then show ?thesis using that by (simp add: unat_word_ariths)
  qed
  from this [OF assms(1)] this [OF assms(2)] have "(8 * of_nat i :: u64) = 8 * of_nat j \<longleftrightarrow> i = j"
    by (metis mult_cancel1 zero_neq_numeral)
  then show ?thesis by simp
qed

section \<open>Releasing pages\<close>

text \<open>From \<open>s\<close> to \<open>s'\<close> the pages \<open>R\<close> have been added to the free list and nothing outside the
  pages \<open>W\<close> has been written.\<close>

definition releases :: "mem_state \<Rightarrow> u64 set \<Rightarrow> u64 set \<Rightarrow> mem_state \<Rightarrow> bool" where
  "releases s W R s' \<longleftrightarrow> hhdm_addr s' = hhdm_addr s \<and> cr3 s' = cr3 s \<and> con s' = con s \<and> R \<subseteq> W
     \<and> (\<forall>q. aligned q \<longrightarrow> q \<notin> W \<longrightarrow> same_page s s' q)
     \<and> (\<forall>xs. fl_inv s xs \<longrightarrow> free_pages s xs \<inter> W = {} \<longrightarrow>
          (\<exists>ys. fl_inv s' ys \<and> free_pages s' ys = free_pages s xs \<union> R))"

lemma releases_refl: "releases s W {} s"
  by (auto simp: releases_def same_page_def)

lemma releases_trans:
  assumes a: "releases s W R t" and b: "releases t V Q u" and d: "R \<inter> V = {}"
  shows "releases s (W \<union> V) (R \<union> Q) u"
proof -
  have "\<exists>zs. fl_inv u zs \<and> free_pages u zs = free_pages s xs \<union> (R \<union> Q)"
    if xs: "fl_inv s xs" "free_pages s xs \<inter> (W \<union> V) = {}" for xs
  proof -
    have "free_pages s xs \<inter> W = {}" using xs(2) by blast
    then obtain ys where ys: "fl_inv t ys" "free_pages t ys = free_pages s xs \<union> R"
      using a xs(1) unfolding releases_def by blast
    then have "free_pages t ys \<inter> V = {}" using xs(2) d by blast
    then obtain zs where "fl_inv u zs" "free_pages u zs = free_pages t ys \<union> Q"
      using b ys(1) unfolding releases_def by blast
    then show ?thesis using ys(2) by (intro exI [of _ zs]) (simp add: Un_assoc)
  qed
  moreover have "same_page s u q" if "aligned q" "q \<notin> W \<union> V" for q
    using a b that same_page_trans [of s t q u] unfolding releases_def by auto
  ultimately show ?thesis using a b unfolding releases_def by auto
qed

lemma releases_free:
  assumes "aligned p" and "p + hhdm_addr s \<noteq> 0"
  shows "releases s {p} {p} (pmem_free p s)"
proof -
  have "same_page s (pmem_free p s) q" if q: "aligned q" "q \<noteq> p" for q
    unfolding same_page_def
  proof (intro allI impI)
    fix d :: u64 assume d: "unat d < 4096"
    have "q + hhdm_addr s + d \<noteq> p + hhdm_addr s + e" if "unat e < 4096" for e
      using ptov_offset_eq [OF q(1) assms(1) d that] q(2) by simp
    from this [of 0] this [of 8] this [of 16]
    show "cells (pmem_free p s) (q + hhdm_addr s + d) = cells s (q + hhdm_addr s + d)"
      by (simp add: pmem_free_def push_node_def Let_def store_def)
  qed
  moreover have "\<exists>ys. fl_inv (pmem_free p s) ys \<and> free_pages (pmem_free p s) ys = free_pages s xs \<union> {p}"
    if "fl_inv s xs" "free_pages s xs \<inter> {p} = {}" for xs
    using that pmem_free_inv [OF that(1) assms] by (intro exI [of _ "(p + hhdm_addr s) # xs"]) (auto simp del: set_simps)
  moreover have "hhdm_addr (pmem_free p s) = hhdm_addr s" "cr3 (pmem_free p s) = cr3 s" "con (pmem_free p s) = con s"
    by (simp_all add: pmem_free_def push_node_def Let_def)
  ultimately show ?thesis by (auto simp: releases_def)
qed

lemma releases_store:
  assumes "aligned t" and "unat d < 4096"
  shows "releases s {t} {} (store (t + hhdm_addr s + d) v s)"
proof -
  let ?s = "store (t + hhdm_addr s + d) v s"
  have same: "same_page s ?s q" if "aligned q" "q \<noteq> t" for q
    unfolding same_page_def using ptov_offset_eq [OF that(1) assms(1) _ assms(2)] that(2)
    by (auto simp: store_def)
  moreover have "fl_inv ?s xs \<and> free_pages ?s xs = free_pages s xs" if xs: "fl_inv s xs" "free_pages s xs \<inter> {t} = {}" for xs
  proof -
    have "same_page s ?s q" if q: "q \<in> free_pages s xs" for q
    proof (rule same)
      show "aligned q" using q xs(1) chunk_pages_aligned
        unfolding fl_inv_def free_pages_def pages_at_def chunk_ok_def by blast
      show "q \<noteq> t" using q xs(2) by blast
    qed
    then show ?thesis using fl_inv_outside [OF xs(1), of ?s] by simp
  qed
  ultimately show ?thesis by (auto simp: releases_def)
qed

lemma releases_hhdm: "releases s W R s' \<Longrightarrow> hhdm_addr s' = hhdm_addr s"
  by (simp add: releases_def)

lemma releases_slot:
  "releases s W R s' \<Longrightarrow> aligned t \<Longrightarrow> t \<notin> W \<Longrightarrow> i < 512 \<Longrightarrow> slot s' t i = slot s t i"
  using slot_in_page by (simp add: releases_def slot_def same_page_def)
section \<open>The lists stay the same while other pages change\<close>

lemma below2_cong: "(\<And>i. i \<in> set is \<Longrightarrow> slot s' t i = slot s t i) \<Longrightarrow> below2 is s' t = below2 is s t"
  by (induction "is") simp_all

lemma below2_same:
  "releases s W R s' \<Longrightarrow> aligned t \<Longrightarrow> t \<notin> W \<Longrightarrow> set is \<subseteq> {..<512} \<Longrightarrow> below2 is s' t = below2 is s t"
  by (rule below2_cong) (auto intro: releases_slot)

lemma aligned_target: "aligned (pte_target e)"
  by (simp add: pte_target_def aligned_push)

lemma below3_cong:
  assumes "releases s W R s'"
  shows "(\<And>i. i \<in> set is \<Longrightarrow> slot s' t i = slot s t i) \<Longrightarrow> set (below3 is s t) \<inter> W = {} \<Longrightarrow>
    below3 is s' t = below3 is s t"
proof (induction "is")
  case (Cons i "is")
  have "below2 [0..<512] s' (pte_target (slot s t i)) = below2 [0..<512] s (pte_target (slot s t i))"
    if "links (slot s t i)"
    using Cons.prems(2) that by (intro below2_same [OF assms aligned_target]) (auto simp: Let_def)
  then show ?case using Cons by (auto simp: Let_def split: if_splits)
qed simp

lemma below3_same:
  "releases s W R s' \<Longrightarrow> aligned t \<Longrightarrow> t \<notin> W \<Longrightarrow> set is \<subseteq> {..<512} \<Longrightarrow> set (below3 is s t) \<inter> W = {} \<Longrightarrow>
   below3 is s' t = below3 is s t"
  by (rule below3_cong) (auto intro: releases_slot)

lemma below4_cong:
  assumes "releases s W R s'"
  shows "(\<And>i. i \<in> set is \<Longrightarrow> slot s' t i = slot s t i) \<Longrightarrow> set (below4 is s t) \<inter> W = {} \<Longrightarrow>
    below4 is s' t = below4 is s t"
proof (induction "is")
  case (Cons i "is")
  have "below3 [0..<512] s' (pte_target (slot s t i)) = below3 [0..<512] s (pte_target (slot s t i))"
    if "pte_present (slot s t i)"
    using Cons.prems(2) that by (intro below3_same [OF assms aligned_target]) (auto simp: Let_def)
  then show ?case using Cons by (auto simp: Let_def split: if_splits)
qed simp

section \<open>The three loops\<close>

text \<open>Pages that can go on the free list: none twice, none at virtual address 0.\<close>

definition listable :: "mem_state \<Rightarrow> u64 list \<Rightarrow> bool" where
  "listable s ps \<longleftrightarrow> distinct ps \<and> (\<forall>p \<in> set ps. p + hhdm_addr s \<noteq> 0)"

lemma listable_hhdm: "hhdm_addr s' = hhdm_addr s \<Longrightarrow> listable s' ps = listable s ps"
  by (simp add: listable_def)

lemma listable_append: "listable s (ps @ qs) \<longleftrightarrow> listable s ps \<and> listable s qs \<and> set ps \<inter> set qs = {}"
  by (auto simp: listable_def)

lemma releases_eq: "releases s W R s' \<Longrightarrow> W = V \<Longrightarrow> R = Q \<Longrightarrow> releases s V Q s'"
  by simp

lemma unmap_l2_releases:
  "set is \<subseteq> {..<512} \<Longrightarrow> aligned t \<Longrightarrow> t \<notin> set (below2 is s t) \<Longrightarrow> listable s (below2 is s t) \<Longrightarrow>
   releases s (set (below2 is s t)) (set (below2 is s t)) (unmap_l2 is (t + hhdm_addr s) s)"
proof (induction "is" arbitrary: s)
  case Nil
  then show ?case by (simp add: releases_refl)
next
  case (Cons i "is")
  let ?e = "slot s t i"
  have idx: "set is \<subseteq> {..<512}" using Cons.prems(1) by simp
  show ?case
  proof (cases "links ?e")
    case False
    then have "unmap_l2 (i # is) (t + hhdm_addr s) s = unmap_l2 is (t + hhdm_addr s) s"
      by (auto simp: slot_def links_def Let_def)
    then show ?thesis using Cons.IH [OF idx Cons.prems(2)] Cons.prems(3,4) False by simp
  next
    case True
    let ?p = "pte_target ?e" and ?rest = "below2 is s t"
    let ?s1 = "pmem_free ?p s"
    have ps: "below2 (i # is) s t = ?p # ?rest" using True by (simp add: Let_def)
    have step: "unmap_l2 (i # is) (t + hhdm_addr s) s = unmap_l2 is (t + hhdm_addr s) ?s1"
      using True by (simp add: slot_def links_def Let_def)
    have ok: "?p + hhdm_addr s \<noteq> 0" "?p \<notin> set ?rest" "listable s ?rest" "t \<noteq> ?p" "t \<notin> set ?rest"
      using Cons.prems(3,4) unfolding ps by (auto simp: listable_def)
    have r1: "releases s {?p} {?p} ?s1" using releases_free [OF aligned_target ok(1)] .
    have h: "hhdm_addr ?s1 = hhdm_addr s" using r1 by (rule releases_hhdm)
    have same: "below2 is ?s1 t = ?rest" using below2_same [OF r1 Cons.prems(2) _ idx] ok(4) by simp
    have "releases ?s1 (set ?rest) (set ?rest) (unmap_l2 is (t + hhdm_addr ?s1) ?s1)"
      using Cons.IH [OF idx Cons.prems(2), of ?s1] ok(3,5) same listable_hhdm [OF h] by simp
    from releases_trans [OF r1 this] ok(2) show ?thesis unfolding step ps by (simp add: h)
  qed
qed

lemma unmap_l3_releases:
  "set is \<subseteq> {..<512} \<Longrightarrow> aligned t \<Longrightarrow> t \<notin> set (below3 is s t) \<Longrightarrow> listable s (below3 is s t) \<Longrightarrow>
   releases s (set (below3 is s t)) (set (below3 is s t)) (unmap_l3 is (t + hhdm_addr s) s)"
proof (induction "is" arbitrary: s)
  case Nil
  then show ?case by (simp add: releases_refl)
next
  case (Cons i "is")
  let ?e = "slot s t i"
  have idx: "set is \<subseteq> {..<512}" "i < 512" using Cons.prems(1) by simp_all
  show ?case
  proof (cases "links ?e")
    case False
    then have "unmap_l3 (i # is) (t + hhdm_addr s) s = unmap_l3 is (t + hhdm_addr s) s"
      by (auto simp: slot_def links_def Let_def)
    then show ?thesis using Cons.IH [OF idx(1) Cons.prems(2)] Cons.prems(3,4) False by simp
  next
    case True
    let ?u = "pte_target ?e" and ?rest = "below3 is s t"
    let ?us = "below2 [0..<512] s ?u"
    let ?s1 = "unmap_l2 [0..<512] (ptov ?u s) s"
    let ?s2 = "pmem_free ?u ?s1"
    have ps: "below3 (i # is) s t = (?us @ [?u]) @ ?rest" using True by (simp add: Let_def)
    have "listable s ((?us @ [?u]) @ ?rest)" using Cons.prems(4) by (simp only: ps)
    then have ok: "listable s ?us" "?u + hhdm_addr s \<noteq> 0" "?u \<notin> set ?us" "listable s ?rest"
      "set (?us @ [?u]) \<inter> set ?rest = {}" by (auto simp: listable_def)
    have t: "t \<notin> set ?us" "t \<noteq> ?u" "t \<notin> set ?rest" using Cons.prems(3) unfolding ps by auto
    have full: "set [0..<512] \<subseteq> {..<512 :: nat}" by auto
    have r1: "releases s (set ?us) (set ?us) ?s1"
      using unmap_l2_releases [OF full aligned_target ok(3,1)] by (simp add: ptov_def)
    then have h1: "hhdm_addr ?s1 = hhdm_addr s" by (rule releases_hhdm)
    have e1: "slot ?s1 t i = ?e" using releases_slot [OF r1 Cons.prems(2) t(1) idx(2)] .
    then have c1: "cells ?s1 (t + hhdm_addr s + 8 * of_nat i) = ?e"
      by (simp only: cells_slot [OF h1] e1)
    have r2: "releases ?s1 {?u} {?u} ?s2" using releases_free [OF aligned_target] ok(2) h1 by simp
    have r12: "releases s (set (?us @ [?u])) (set (?us @ [?u])) ?s2"
      using releases_trans [OF r1 r2] ok(3) by simp
    then have h2: "hhdm_addr ?s2 = hhdm_addr s" by (rule releases_hhdm)
    have step: "unmap_l3 (i # is) (t + hhdm_addr s) s = unmap_l3 is (t + hhdm_addr ?s2) ?s2"
      using True c1 h2 by (simp add: slot_def links_def Let_def)
    have same: "below3 is ?s2 t = ?rest"
      using below3_same [OF r12 Cons.prems(2) _ idx(1)] t ok(5) by auto
    have "releases ?s2 (set ?rest) (set ?rest) (unmap_l3 is (t + hhdm_addr ?s2) ?s2)"
      using Cons.IH [OF idx(1) Cons.prems(2), of ?s2] ok(4) t(3) same listable_hhdm [OF h2] by simp
    from releases_trans [OF r12 this ok(5)] show ?thesis unfolding step ps by (simp only: set_append)
  qed
qed
text \<open>The outer loop also clears the present bits of the root's entries.\<close>

definition cleared :: "u64 \<Rightarrow> u64" where
  "cleared e = put_bit 0 False e"

lemma cleared_bits: "\<not> pte_present (cleared e)" "pte_target (cleared e) = pte_target e"
proof -
  show "\<not> pte_present (cleared e)" by (simp add: cleared_def pte_present_def bit_put_bit)
  have "drop_bit 12 (cleared e) = drop_bit 12 e"
    by (rule bit_word_eqI) (auto simp: cleared_def bit_put_bit bit_drop_bit_eq dest: bit_imp_le_length)
  then show "pte_target (cleared e) = pte_target e" by (simp add: pte_target_def pte_address_def)
qed

lemma unmap_l4_releases:
  "set is \<subseteq> {..<512} \<Longrightarrow> distinct is \<Longrightarrow> aligned t \<Longrightarrow> t \<notin> set (below4 is s t) \<Longrightarrow> listable s (below4 is s t) \<Longrightarrow>
   releases s (insert t (set (below4 is s t))) (set (below4 is s t)) (unmap_l4 is (t + hhdm_addr s) s)
   \<and> (\<forall>j < 512. slot (unmap_l4 is (t + hhdm_addr s) s) t j =
        (if j \<in> set is \<and> pte_present (slot s t j) then cleared (slot s t j) else slot s t j))"
proof (induction "is" arbitrary: s)
  case Nil
  then show ?case by (simp add: releases_refl)
next
  case (Cons i "is")
  let ?e = "slot s t i"
  have idx: "set is \<subseteq> {..<512}" "i < 512" "i \<notin> set is" "distinct is" using Cons.prems(1,2) by simp_all
  show ?case
  proof (cases "pte_present ?e")
    case False
    then have "unmap_l4 (i # is) (t + hhdm_addr s) s = unmap_l4 is (t + hhdm_addr s) s"
      by (simp add: slot_def Let_def)
    then show ?thesis using Cons.IH [OF idx(1,4) Cons.prems(3)] Cons.prems(4,5) False by auto
  next
    case True
    let ?u = "pte_target ?e" and ?rest = "below4 is s t"
    let ?us = "below3 [0..<512] s ?u"
    let ?s0 = "store (t + hhdm_addr s + 8 * of_nat i) (cleared ?e) s"
    let ?s1 = "unmap_l3 [0..<512] (ptov ?u ?s0) ?s0"
    let ?s2 = "pmem_free ?u ?s1"
    have ps: "below4 (i # is) s t = (?us @ [?u]) @ ?rest" using True by (simp add: Let_def)
    have "listable s ((?us @ [?u]) @ ?rest)" using Cons.prems(5) by (simp only: ps)
    then have ok: "listable s ?us" "?u + hhdm_addr s \<noteq> 0" "?u \<notin> set ?us" "listable s ?rest"
      "set (?us @ [?u]) \<inter> set ?rest = {}" by (auto simp: listable_def)
    have t: "t \<notin> set ?us" "t \<noteq> ?u" "t \<notin> set ?rest" using Cons.prems(4) unfolding ps by auto
    have full: "set [0..<512] \<subseteq> {..<512 :: nat}" by auto
    have r0: "releases s {t} {} ?s0" using releases_store [OF Cons.prems(3) slot_in_page [OF idx(2)]] .
    have slot0: "slot ?s0 t j = (if j = i then cleared ?e else slot s t j)" if "j < 512" for j
      using slot_inj [OF that idx(2), of t "hhdm_addr s"] by (simp add: slot_def store_def)
    have us0: "below3 [0..<512] ?s0 ?u = ?us"
      using below3_same [OF r0 aligned_target _ full] t by simp
    have r1: "releases ?s0 (set ?us) (set ?us) ?s1"
      using unmap_l3_releases [OF full aligned_target, of ?e ?s0] ok(1,3) us0 by (simp add: ptov_def listable_def)
    have r01: "releases s (insert t (set ?us)) (set ?us) ?s1" using releases_trans [OF r0 r1] by simp
    then have h1: "hhdm_addr ?s1 = hhdm_addr s" by (rule releases_hhdm)
    have slot1: "slot ?s1 t j = slot ?s0 t j" if "j < 512" for j
      using releases_slot [OF r1 Cons.prems(3) t(1) that] .
    then have e1: "slot ?s1 t i = cleared ?e" using slot0 idx(2) by simp
    then have c1: "cells ?s1 (t + hhdm_addr s + 8 * of_nat i) = cleared ?e"
      by (simp only: cells_slot [OF h1])
    have r2: "releases ?s1 {?u} {?u} ?s2" using releases_free [OF aligned_target] ok(2) h1 by simp
    have r: "releases s (insert t (set (?us @ [?u]))) (set (?us @ [?u])) ?s2"
      by (rule releases_eq [OF releases_trans [OF r01 r2]]) (use ok(3) in auto)
    then have h2: "hhdm_addr ?s2 = hhdm_addr s" by (rule releases_hhdm)
    have slot2: "slot ?s2 t j = (if j = i then cleared ?e else slot s t j)" if "j < 512" for j
      using releases_slot [OF r2 Cons.prems(3) _ that] t(2) slot1 [OF that] slot0 [OF that] by simp
    have c0: "cells ?s0 (t + hhdm_addr s + 8 * of_nat i) = cleared ?e" by (simp add: store_def)
    have step: "unmap_l4 (i # is) (t + hhdm_addr s) s = unmap_l4 is (t + hhdm_addr ?s2) ?s2"
      using True c0 c1 h2 by (simp add: slot_def cleared_def cleared_bits(2) [unfolded cleared_def] Let_def)
    have same: "below4 is ?s2 t = ?rest"
    proof (rule below4_cong [OF r])
      show "slot ?s2 t j = slot s t j" if "j \<in> set is" for j using slot2 [of j] idx(1,3) that by auto
      show "set ?rest \<inter> insert t (set (?us @ [?u])) = {}" using t(3) ok(5) by auto
    qed
    have IH: "releases ?s2 (insert t (set ?rest)) (set ?rest) (unmap_l4 is (t + hhdm_addr ?s2) ?s2)"
      "\<forall>j < 512. slot (unmap_l4 is (t + hhdm_addr ?s2) ?s2) t j =
        (if j \<in> set is \<and> pte_present (slot ?s2 t j) then cleared (slot ?s2 t j) else slot ?s2 t j)"
      using Cons.IH [OF idx(1,4) Cons.prems(3), of ?s2] ok(4) t(3) same listable_hhdm [OF h2] by simp_all
    have "releases s (insert t (set (below4 (i # is) s t))) (set (below4 (i # is) s t)) (unmap_l4 is (t + hhdm_addr ?s2) ?s2)"
      unfolding ps by (rule releases_eq [OF releases_trans [OF r IH(1)]]) (use ok(5) t in auto)
    moreover have "slot (unmap_l4 is (t + hhdm_addr ?s2) ?s2) t j =
        (if j \<in> set (i # is) \<and> pte_present (slot s t j) then cleared (slot s t j) else slot s t j)" if "j < 512" for j
      using IH(2) slot2 [OF that] that idx(3) True by (auto simp: cleared_bits(1))
    ultimately show ?thesis unfolding step by blast
  qed
qed
section \<open>The whole\<close>

definition lower_tables :: "mem_state \<Rightarrow> u64 list" where
  "lower_tables s = below4 [0..<256] s (cr3_root s)"

abbreviation lower_half :: "u64 set" where
  "lower_half \<equiv> {a. unat a < 2 ^ 47}"

text \<open>The lower half is a tree: no table occurs twice, none is the root or free, and none lies at
  virtual address 0 in the direct map.\<close>

definition tree_ok :: "mem_state \<Rightarrow> bool" where
  "tree_ok s \<longleftrightarrow> listable s (lower_tables s) \<and> cr3_root s \<notin> set (lower_tables s)
     \<and> insert (cr3_root s) (set (lower_tables s)) \<inter> mem_avail s = {}"

lemma aligned_root: "aligned (cr3_root s)"
proof -
  have mask: "(0xFFF :: u64) = mask 12" by (simp add: mask_eq_exp_minus_1)
  have "cr3_root s = push_bit 12 (drop_bit 12 (read_cr3 s))" unfolding mask
    by (rule bit_word_eqI) (auto simp: bit_simps)
  then show ?thesis by (metis aligned_push)
qed

lemma phys_target: "phys (pte_target e)"
  unfolding phys_def pte_target_def pte_address_def by (rule bit_word_eqI) (simp add: bit_simps)

lemma lower_tables_phys: "p \<in> set (lower_tables s) \<Longrightarrow> phys p"
proof -
  have two: "p \<in> set (below2 is s t) \<Longrightarrow> phys p" for "is" t
    by (induction "is") (auto simp: Let_def phys_target split: if_splits)
  have three: "p \<in> set (below3 is s t) \<Longrightarrow> phys p" for "is" t
    by (induction "is") (auto simp: Let_def phys_target two split: if_splits)
  have "p \<in> set (below4 is s t) \<Longrightarrow> phys p" for "is" t
    by (induction "is") (auto simp: Let_def phys_target three split: if_splits)
  then show "p \<in> set (lower_tables s) \<Longrightarrow> phys p" by (simp add: lower_tables_def)
qed

lemma lower_index: "a \<in> lower_half \<Longrightarrow> unat (pt_index a 39) < 256"
proof -
  assume "a \<in> lower_half"
  then have "unat (drop_bit 39 a) < 256" by (simp add: drop_bit_eq_div unat_div_distrib less_mult_imp_div_less)
  moreover have "unat (pt_index a 39) \<le> unat (drop_bit 39 a)"
    unfolding pt_index_def by (simp add: word_le_nat_alt [symmetric] word_and_le2)
  ultimately show ?thesis by simp
qed

lemma unmap_lower_half_releases:
  assumes tree: "tree_ok s" and inv: "fl_inv s xs"
  defines "s' \<equiv> unmap_lower_half (cr3_root s) s"
  shows "releases s (insert (cr3_root s) (set (lower_tables s))) (set (lower_tables s)) s'"
    and "\<And>j. j < 512 \<Longrightarrow> slot s' (cr3_root s) j =
        (if j < 256 \<and> pte_present (slot s (cr3_root s) j) then cleared (slot s (cr3_root s) j) else slot s (cr3_root s) j)"
proof -
  let ?t = "cr3_root s" and ?u = "unmap_l4 [0..<256] (cr3_root s + hhdm_addr s) s"
  have "set [0..<256] \<subseteq> {..<512 :: nat}" "distinct [0..<256 :: nat]" by auto
  note main = unmap_l4_releases [OF this aligned_root, of s s, folded lower_tables_def]
  have r: "releases s (insert ?t (set (lower_tables s))) (set (lower_tables s)) ?u"
    and sl: "\<forall>j < 512. slot ?u ?t j = (if j \<in> set [0..<256] \<and> pte_present (slot s ?t j) then cleared (slot s ?t j) else slot s ?t j)"
    using main tree by (simp_all add: tree_ok_def)
  have s': "s' = ?u"
    by (simp add: s'_def unmap_lower_half_def write_cr3_def read_cr3_def ptov_def Let_def)
  show "releases s (insert ?t (set (lower_tables s))) (set (lower_tables s)) s'" using r s' by simp
  show "slot s' ?t j = (if j < 256 \<and> pte_present (slot s ?t j) then cleared (slot s ?t j) else slot s ?t j)"
    if "j < 512" for j using sl that s' by simp
qed

lemma unmap_lower_half_frees:
  assumes tree: "tree_ok s" and inv: "mem_inv s" and ph: "\<forall>p \<in> mem_avail s. phys p"
  defines "s' \<equiv> unmap_lower_half (cr3_root s) s"
  shows "mem_avail s' = mem_avail s \<union> set (lower_tables s)" and "term_ok c \<Longrightarrow> blank_space lower_half (s'\<lparr>con := c\<rparr>)"
    and "a \<in> lower_half \<Longrightarrow> \<not> page_present s' a"
    and "aligned q \<Longrightarrow> q \<noteq> cr3_root s \<Longrightarrow> q \<notin> set (lower_tables s) \<Longrightarrow> same_page s s' q"
    and "256 \<le> j \<Longrightarrow> j < 512 \<Longrightarrow> slot s' (cr3_root s) j = slot s (cr3_root s) j"
    and "cr3 s' = cr3 s" and "con s' = con s" and "hhdm_addr s' = hhdm_addr s"
proof -
  obtain xs where xs: "fl_inv s xs" using inv by (auto simp: mem_inv_def)
  note av = mem_avail_eq [OF xs]
  note rel = unmap_lower_half_releases [OF tree xs, folded s'_def]
  show cr3: "cr3 s' = cr3 s" and con: "con s' = con s" and hh: "hhdm_addr s' = hhdm_addr s"
    using rel(1) by (simp_all add: releases_def)
  show "same_page s s' q" if "aligned q" "q \<noteq> cr3_root s" "q \<notin> set (lower_tables s)"
    using rel(1) that by (simp add: releases_def)
  show "slot s' (cr3_root s) j = slot s (cr3_root s) j" if "256 \<le> j" "j < 512"
    using rel(2) [OF that(2)] that(1) by simp
  have "free_pages s xs \<inter> insert (cr3_root s) (set (lower_tables s)) = {}"
    using tree av by (auto simp: tree_ok_def)
  then obtain ys where ys: "fl_inv s' ys" "free_pages s' ys = free_pages s xs \<union> set (lower_tables s)"
    using rel(1) xs unfolding releases_def by blast
  show avail: "mem_avail s' = mem_avail s \<union> set (lower_tables s)" using mem_avail_eq [OF ys(1)] ys(2) av by simp
  have root: "read_cr3 s' = read_cr3 s" using cr3 by (simp add: read_cr3_def)
  have none: "\<not> pte_present (cells s' (entry_at s' (cr3_root s) a 39))" if a: "a \<in> lower_half" for a
  proof -
    have lt: "unat (pt_index a 39) < 256" using lower_index [OF a] .
    have "entry_at s' (cr3_root s) a 39 = cr3_root s + hhdm_addr s' + 8 * of_nat (unat (pt_index a 39))"
      by (simp add: entry_at_page)
    then have "cells s' (entry_at s' (cr3_root s) a 39) = slot s' (cr3_root s) (unat (pt_index a 39))"
      by (simp only: slot_def)
    then show ?thesis using rel(2) [of "unat (pt_index a 39)"] lt by (auto simp: cleared_bits split: if_splits)
  qed
  show "\<not> page_present s' a" if "a \<in> lower_half"
    using none [OF that] by (simp add: page_present_def leaf_entry_def root Let_def)
  have "lev_ok s' (\<lambda>p. if p = cr3_root s then 4 else 0) (free_pages s' ys) [39, 30, 21] a (cr3_root s')"
    if "a \<in> lower_half" for a
  proof -
    have "cr3_root s \<notin> free_pages s' ys" using ys(2) tree av by (auto simp: tree_ok_def)
    then show ?thesis using none [OF that] aligned_root [of s] by (simp add: root Let_def)
  qed
  moreover have "\<forall>p \<in> free_pages s' ys. phys p \<and> (if p = cr3_root s then 4 else 0) = (0 :: nat)"
    using ys(2) tree av ph lower_tables_phys by (auto simp: tree_ok_def)
  moreover have "lev_ok (s'\<lparr>con := c\<rparr>) lev free shs a t = lev_ok s' lev free shs a t" for c lev free shs a t
    by (rule lev_ok_cells) simp_all
  ultimately have "vm_inv_with lower_half (s'\<lparr>con := c\<rparr>) ys (\<lambda>p. if p = cr3_root s then 4 else 0)" if "term_ok c" for c
    using ys(1) that by (simp add: vm_inv_with_def fl_inv_con read_cr3_def del: lev_ok.simps)
  moreover have "blank_leaves (s'\<lparr>con := c\<rparr>) ys (\<lambda>p. if p = cr3_root s then 4 else 0)" for c
    by (simp add: blank_leaves_def)
  moreover have "owned lower_half (s'\<lparr>con := c\<rparr>) (\<lambda>_. 0)" for c
  proof -
    have "entry_at (s'\<lparr>con := c\<rparr>) t a 39 = entry_at s' t a 39" for t a by (simp add: entry_at_page)
    then show ?thesis using none root by (simp add: owned_def read_cr3_def bits_from_top Let_def)
  qed
  ultimately show "blank_space lower_half (s'\<lparr>con := c\<rparr>)" if "term_ok c"
    unfolding blank_space_def space_ok_def using that by blast
qed

section \<open>The upper half stays\<close>

text \<open>An address of the upper half whose tables below the root are not among the released ones.\<close>

definition apart :: "mem_state \<Rightarrow> u64 \<Rightarrow> bool" where
  "apart s a \<longleftrightarrow> 256 \<le> unat (pt_index a 39)
     \<and> set (tl (path_tables s [39, 30, 21] a (cr3_root s))) \<inter> insert (cr3_root s) (set (lower_tables s)) = {}"

lemma releases_path:
  assumes "releases s W R s'"
  shows "aligned t \<Longrightarrow> set (path_tables s shs a t) \<inter> W = {} \<Longrightarrow> table_path s' shs a t = table_path s shs a t
    \<and> (\<forall>u. table_path s shs a t = Some u \<longrightarrow> cells s' (entry_at s' u a sh) = cells s (entry_at s u a sh))"
proof (induction shs arbitrary: t)
  case Nil
  then have "same_page s s' t" using assms by (auto simp: releases_def)
  then show ?case using same_page_entry releases_hhdm [OF assms] by simp
next
  case (Cons k shs)
  have "t \<notin> W" using Cons.prems(2) by auto
  then have "same_page s s' t" using assms Cons.prems(1) by (auto simp: releases_def)
  then have e: "cells s' (entry_at s' t a k) = cells s (entry_at s t a k)"
    using same_page_entry releases_hhdm [OF assms] by simp
  show ?case
  proof (cases "pte_present (cells s (entry_at s t a k))")
    case True
    then have "set (path_tables s shs a (pte_target (cells s (entry_at s t a k)))) \<inter> W = {}"
      using Cons.prems(2) by (auto simp: Let_def)
    from Cons.IH [OF aligned_target this] show ?thesis using e True by (simp add: Let_def)
  qed (use e in \<open>simp add: Let_def\<close>)
qed

lemma unmap_keeps_apart:
  assumes tree: "tree_ok s" and inv: "mem_inv s" and a: "apart s a"
  shows "page_present (unmap_lower_half (cr3_root s) s) a = page_present s a"
proof -
  let ?t = "cr3_root s" and ?s = "unmap_lower_half (cr3_root s) s" and ?j = "unat (pt_index a 39)"
  obtain xs where xs: "fl_inv s xs" using inv by (auto simp: mem_inv_def)
  note rel = unmap_lower_half_releases [OF tree xs]
  have h: "hhdm_addr ?s = hhdm_addr s" "read_cr3 ?s = read_cr3 s" using rel(1) by (simp_all add: releases_def read_cr3_def)
  have "pt_index a 39 \<le> 0x1FF" unfolding pt_index_def by (rule word_and_le1)
  then have j: "?j < 512" "256 \<le> ?j" using a by (simp_all add: word_le_nat_alt apart_def)
  have at: "cells u (entry_at u ?t a 39) = slot u ?t ?j" for u by (simp add: slot_def entry_at_page)
  have e: "cells ?s (entry_at ?s ?t a 39) = cells s (entry_at s ?t a 39)" unfolding at using rel(2) [OF j(1)] j(2) by simp
  show ?thesis
  proof (cases "pte_present (cells s (entry_at s ?t a 39))")
    case True
    let ?u = "pte_target (cells s (entry_at s ?t a 39))"
    have "set (path_tables s [30, 21] a ?u) \<inter> insert ?t (set (lower_tables s)) = {}"
    proof -
      have "path_tables s [39, 30, 21] a ?t = ?t # path_tables s [30, 21] a ?u"
        using True by (subst path_tables.simps) (simp only: Let_def if_True)
      then show ?thesis using a unfolding apart_def by (simp only: list.sel)
    qed
    note path = releases_path [OF rel(1) aligned_target this, of 12]
    have "table_path r [39, 30, 21] a ?t = table_path r [30, 21] a ?u" if "cells r (entry_at r ?t a 39) = cells s (entry_at s ?t a 39)" for r
      using True by (subst table_path.simps) (simp only: that Let_def if_True)
    from this [OF refl] this [OF e] have tp: "table_path s [39, 30, 21] a ?t = table_path s [30, 21] a ?u"
      "table_path ?s [39, 30, 21] a ?t = table_path s [30, 21] a ?u" using path by (simp_all only:)
    have "leaf_entry ?s a ?t = leaf_entry s a ?t" unfolding leaf_entry_def tp
      using path by (cases "table_path s [30, 21] a ?u") (simp_all del: table_path.simps)
    then show ?thesis using h(2) by (simp only: page_present_def)
  next
    case False
    then show ?thesis using e h(2) by (simp add: page_present_def leaf_entry_def Let_def)
  qed
qed

end
