(* ===== verification/Reclaim.thy ===== *)
theory Reclaim
  imports Unmapping
begin

text \<open>
  The address space that \<open>vm_map\<close> builds is one that \<open>unmap_lower_half\<close> can take apart: the
  invariant of an address space makes its lower half a tree, whose tables are the pages that have
  left the free list. So the memory that programs use comes back when the next one starts.
\<close>

section \<open>Indices and addresses\<close>

lemma unat_pt_index: "unat (pt_index a sh) = unat a div 2 ^ sh mod 512"
proof -
  have "(0x1FF :: u64) = mask 9" by (simp add: mask_eq_exp_minus_1)
  then have "pt_index a sh = take_bit 9 (drop_bit sh a)" by (simp add: pt_index_def take_bit_eq_mask)
  then have "unat (pt_index a sh) = take_bit 9 (drop_bit sh (unat a))"
    by (simp only: unsigned_take_bit_eq unat_drop_bit_eq)
  also have "\<dots> = unat a div 2 ^ sh mod 2 ^ 9" by (simp only: take_bit_eq_mod drop_bit_eq_div)
  also have "(2 :: nat) ^ 9 = 512" by simp
  finally show ?thesis .
qed

lemma unat_bits_from: "unat (bits_from n a) = unat a mod 2 ^ 48 div 2 ^ n"
  by (simp only: bits_from_def unsigned_take_bit_eq unat_drop_bit_eq) (simp only: take_bit_eq_mod drop_bit_eq_div)

definition lower_addr :: "nat \<Rightarrow> nat \<Rightarrow> nat \<Rightarrow> u64" where
  "lower_addr i j k = of_nat ((i * 512 + j) * 512 + k) * 0x200000"

lemma unat_lower_addr:
  assumes "i < 256" and "j < 512" and "k < 512"
  shows "unat (lower_addr i j k) = ((i * 512 + j) * 512 + k) * 2 ^ 21" and "unat (lower_addr i j k) < 2 ^ 47"
proof -
  have n: "(i * 512 + j) * 512 + k < 2 ^ 26" using assms by simp
  then have "unat (of_nat ((i * 512 + j) * 512 + k) :: u64) = (i * 512 + j) * 512 + k" by (intro unat_of_nat_small) simp
  then show u: "unat (lower_addr i j k) = ((i * 512 + j) * 512 + k) * 2 ^ 21"
    unfolding lower_addr_def using n by (subst unat_mult_small) simp_all
  show "unat (lower_addr i j k) < 2 ^ 47" using u n by simp
qed

lemma lower_addr_index:
  assumes "i < 256" and "j < 512" and "k < 512"
  shows "unat (pt_index (lower_addr i j k) 39) = i" and "unat (pt_index (lower_addr i j k) 30) = j" and "unat (pt_index (lower_addr i j k) 21) = k"
    and "unat (bits_from 39 (lower_addr i j k)) = i" and "unat (bits_from 30 (lower_addr i j k)) = i * 512 + j"
    and "unat (bits_from 21 (lower_addr i j k)) = (i * 512 + j) * 512 + k"
proof -
  let ?n = "(i * 512 + j) * 512 + k"
  note u = unat_lower_addr [OF assms]
  have pow: "(2 :: nat) ^ 39 = 2 ^ 21 * (512 * 512)" "(2 :: nat) ^ 30 = 2 ^ 21 * 512" by simp_all
  have low: "?n * 2 ^ 21 mod 2 ^ 48 = ?n * 2 ^ 21" using u by (intro mod_less) simp
  have n: "?n div 512 = i * 512 + j" "(i * 512 + j) div 512 = i" "?n mod 512 = k" "(i * 512 + j) mod 512 = j"
    using assms by (simp_all only: mod_mult_self3 mod_less div_mult_self3 div_less zero_neq_numeral not_False_eq_True add_0_right)
  have d: "?n * 2 ^ 21 div 2 ^ 21 = ?n" "?n * 2 ^ 21 div 2 ^ 30 = i * 512 + j" "?n * 2 ^ 21 div 2 ^ 39 = i"
    unfolding pow div_mult2_eq using n by (simp_all only: nonzero_mult_div_cancel_right power_not_zero zero_neq_numeral not_False_eq_True)
  show "unat (pt_index (lower_addr i j k) 39) = i" "unat (pt_index (lower_addr i j k) 30) = j" "unat (pt_index (lower_addr i j k) 21) = k"
    unfolding unat_pt_index u(1) d using n assms by simp_all
  show "unat (bits_from 39 (lower_addr i j k)) = i" "unat (bits_from 30 (lower_addr i j k)) = i * 512 + j"
    "unat (bits_from 21 (lower_addr i j k)) = ?n"
    unfolding unat_bits_from u(1) low d by (rule refl)+
qed

lemma entry_slot: "entry_at s t a sh = t + hhdm_addr s + 8 * of_nat (unat (pt_index a sh))"
  by (simp add: entry_at_page)

lemma cell_slot: "cells s (entry_at s t a sh) = slot s t (unat (pt_index a sh))"
  by (simp only: slot_def entry_slot)

section \<open>The tables and their places\<close>

lemma down:
  assumes "lev_ok s lev free (sh # shs) a t" and "owns s own (sh # shs) a t" and "unat (pt_index a sh) = i"
    and "pte_present (slot s t i)"
  shows "lev_ok s lev free shs a (pte_target (slot s t i)) \<and> owns s own shs a (pte_target (slot s t i))"
  using assms cell_slot [of s t a sh] by (simp add: Let_def)

lemma place_parts: "u = m * 512 + k \<Longrightarrow> k < 512 \<Longrightarrow> u div 512 = m \<and> u mod 512 = (k :: nat)"
  by (simp only: mod_mult_self3 mod_less div_mult_self3 div_less) simp

lemma distinct_pieces:
  "distinct is \<Longrightarrow> (\<And>i. i \<in> set is \<Longrightarrow> distinct (f i) \<and> (\<forall>p \<in> set (f i). key p = i)) \<Longrightarrow> distinct (concat (map f is))"
proof (induction "is")
  case (Cons i "is")
  have "distinct (concat (map f is))" using Cons.IH Cons.prems by simp
  moreover have "set (f i) \<inter> set (f j) = {}" if "j \<in> set is" for j
  proof -
    have "i \<noteq> j" "\<forall>p \<in> set (f i). key p = i" "\<forall>p \<in> set (f j). key p = j" using Cons.prems that by auto
    then show ?thesis by auto
  qed
  ultimately show ?case using Cons.prems by fastforce
qed simp

lemma concat_all: "(\<And>i p. i < n \<Longrightarrow> p \<in> set (f i) \<Longrightarrow> P p) \<Longrightarrow> \<forall>p \<in> set (concat (map f [0..<n])). P p"
  by auto

lemma below_concat:
  "below2 is s t = concat (map (\<lambda>i. if links (slot s t i) then [pte_target (slot s t i)] else []) is)"
  "below3 is s t = concat (map (\<lambda>i. if links (slot s t i)
      then below2 [0..<512] s (pte_target (slot s t i)) @ [pte_target (slot s t i)] else []) is)"
  "below4 is s t = concat (map (\<lambda>i. if pte_present (slot s t i)
      then below3 [0..<512] s (pte_target (slot s t i)) @ [pte_target (slot s t i)] else []) is)"
  by (induction "is") (simp_all add: Let_def)

text \<open>The level and the owner of a listed table say where it is linked.\<close>

lemma below2_placed:
  assumes t: "\<And>k. k < 512 \<Longrightarrow> lev_ok s lev F [21] (lower_addr i j k) t \<and> owns s own [21] (lower_addr i j k) t"
    and ij: "i < 256" "j < 512"
  shows "distinct (below2 [0..<512] s t) \<and> (\<forall>p \<in> set (below2 [0..<512] s t). lev p = 1 \<and> unat (own p) div 512 = i * 512 + j)"
proof -
  let ?f = "\<lambda>k. if links (slot s t k) then [pte_target (slot s t k)] else []"
  have at: "lev p = 1 \<and> unat (own p) div 512 = i * 512 + j \<and> unat (own p) mod 512 = k" if k: "k < 512" and p: "p \<in> set (?f k)" for k p
  proof -
    have e: "pte_present (slot s t k)" "p = pte_target (slot s t k)" using p by (auto simp: links_def split: if_splits)
    note a = lower_addr_index [OF ij k]
    from down [OF conjunct1 [OF t [OF k]] conjunct2 [OF t [OF k]] a(3) e(1)] have o: "lev p = 1 \<and> unat (own p) = (i * 512 + j) * 512 + k"
      using a(6) e(2) by simp
    then show ?thesis using place_parts [OF _ k] by blast
  qed
  have "distinct (concat (map ?f [0..<512]))"
  proof (rule distinct_pieces [where key = "\<lambda>p. unat (own p) mod 512"])
    show "distinct (?f k) \<and> (\<forall>p \<in> set (?f k). unat (own p) mod 512 = k)" if "k \<in> set [0..<512]" for k
      using at [of k] that by simp
  qed simp
  then show ?thesis using at unfolding below_concat by auto
qed

lemma below3_placed:
  assumes t: "\<And>j k. j < 512 \<Longrightarrow> k < 512 \<Longrightarrow> lev_ok s lev F [30, 21] (lower_addr i j k) t \<and> owns s own [30, 21] (lower_addr i j k) t"
    and i: "i < 256"
  shows "distinct (below3 [0..<512] s t) \<and> (\<forall>p \<in> set (below3 [0..<512] s t).
    lev p = 2 \<and> unat (own p) div 512 = i \<or> lev p = 1 \<and> unat (own p) div 512 div 512 = i)"
proof -
  let ?f = "\<lambda>j. if links (slot s t j) then below2 [0..<512] s (pte_target (slot s t j)) @ [pte_target (slot s t j)] else []"
  let ?key = "\<lambda>p. (if lev p = 2 then unat (own p) else unat (own p) div 512) mod 512"
  have at: "distinct (?f j) \<and> (\<forall>p \<in> set (?f j). (lev p = 2 \<and> unat (own p) div 512 = i \<or> lev p = 1 \<and> unat (own p) div 512 div 512 = i) \<and> ?key p = j)"
    if j: "j < 512" for j
  proof (cases "links (slot s t j)")
    case True
    let ?p = "pte_target (slot s t j)"
    have e: "pte_present (slot s t j)" using True by (simp add: links_def)
    have path: "lev_ok s lev F [21] (lower_addr i j k) ?p \<and> owns s own [21] (lower_addr i j k) ?p" if k: "k < 512" for k
      using down [OF conjunct1 [OF t [OF j k]] conjunct2 [OF t [OF j k]] lower_addr_index(2) [OF i j k] e] .
    have "lev ?p = 2 \<and> unat (own ?p) = i * 512 + j"
      using path [of 0] lower_addr_index(5) [OF i j, of 0] by simp
    then have own: "lev ?p = 2" "unat (own ?p) div 512 = i" "unat (own ?p) mod 512 = j" using place_parts [OF _ j] by blast+
    have "(i * 512 + j) div 512 = i" "(i * 512 + j) mod 512 = j" using place_parts [OF refl j] by blast+
    then show ?thesis using below2_placed [OF path i j] True own by auto
  qed simp
  have "distinct (concat (map ?f [0..<512]))"
  proof (rule distinct_pieces [where key = ?key])
    show "distinct (?f j) \<and> (\<forall>p \<in> set (?f j). ?key p = j)" if "j \<in> set [0..<512]" for j
    proof -
      from that have "j < 512" by simp
      from at [OF this] show ?thesis by blast
    qed
  qed simp
  moreover have "\<forall>p \<in> set (concat (map ?f [0..<512])). lev p = 2 \<and> unat (own p) div 512 = i \<or> lev p = 1 \<and> unat (own p) div 512 div 512 = i"
    using at by (intro concat_all) blast
  ultimately show ?thesis unfolding below_concat(2) by blast
qed

section \<open>A space in order is a tree\<close>

lemma space_lower:
  assumes ok: "space_ok lower_half s xs lev own" and ijk: "i < 256" "j < 512" "k < 512"
    and e: "pte_present (slot s (cr3_root s) i)"
  defines "p \<equiv> pte_target (slot s (cr3_root s) i)"
  shows "lev_ok s lev (free_pages s xs) [30, 21] (lower_addr i j k) p \<and> owns s own [30, 21] (lower_addr i j k) p"
proof -
  have "lower_addr i j k \<in> lower_half" using unat_lower_addr(2) [OF ijk] by simp
  from down [OF space_ok_walk(2,3) [OF ok this] lower_addr_index(1) [OF ijk] e] show ?thesis unfolding p_def .
qed

lemma lower_tables_placed:
  assumes ok: "space_ok lower_half s xs lev own"
  shows "distinct (lower_tables s) \<and> (\<forall>p \<in> set (lower_tables s). lev p = 1 \<or> lev p = 2 \<or> lev p = 3)"
proof -
  let ?t = "cr3_root s"
  let ?f = "\<lambda>i. if pte_present (slot s ?t i) then below3 [0..<512] s (pte_target (slot s ?t i)) @ [pte_target (slot s ?t i)] else []"
  let ?key = "\<lambda>p. if lev p = 3 then unat (own p) else if lev p = 2 then unat (own p) div 512 else unat (own p) div 512 div 512"
  have at: "distinct (?f i) \<and> (\<forall>p \<in> set (?f i). (lev p = 1 \<or> lev p = 2 \<or> lev p = 3) \<and> ?key p = i)" if i: "i < 256" for i
  proof (cases "pte_present (slot s ?t i)")
    case True
    let ?p = "pte_target (slot s ?t i)"
    note path = space_lower [OF ok i _ _ True]
    have "lev ?p = 3 \<and> unat (own ?p) = i" using path [of 0 0] lower_addr_index(4) [OF i, of 0 0] by simp
    then show ?thesis using below3_placed [OF path i] True by auto
  qed simp
  have "distinct (concat (map ?f [0..<256]))"
  proof (rule distinct_pieces [where key = ?key])
    show "distinct (?f i) \<and> (\<forall>p \<in> set (?f i). ?key p = i)" if "i \<in> set [0..<256]" for i
    proof -
      from that have "i < 256" by simp
      from at [OF this] show ?thesis by blast
    qed
  qed simp
  moreover have "\<forall>p \<in> set (concat (map ?f [0..<256])). lev p = 1 \<or> lev p = 2 \<or> lev p = 3" using at by (intro concat_all) blast
  ultimately show ?thesis unfolding lower_tables_def below_concat(3) by blast
qed

text \<open>The listed pages are the tables that addresses of the lower half meet.\<close>

lemma in_below:
  "p \<in> set (below2 [0..<512] s t) \<longleftrightarrow> (\<exists>k < 512. links (slot s t k) \<and> p = pte_target (slot s t k))"
  "p \<in> set (below3 [0..<512] s t) \<longleftrightarrow> (\<exists>j < 512. links (slot s t j)
     \<and> (p = pte_target (slot s t j) \<or> p \<in> set (below2 [0..<512] s (pte_target (slot s t j)))))"
  "p \<in> set (below4 [0..<256] s t) \<longleftrightarrow> (\<exists>i < 256. pte_present (slot s t i)
     \<and> (p = pte_target (slot s t i) \<or> p \<in> set (below3 [0..<512] s (pte_target (slot s t i)))))"
  unfolding below_concat(1) [of "[0..<512]" s t] below_concat(2) [of "[0..<512]" s t] below_concat(3) [of "[0..<256]" s t]
  by (auto split: if_splits)

lemma path_slots:
  "set (path_tables s (sh # shs) a t) = insert t (let e = slot s t (unat (pt_index a sh)) in
     if pte_present e then set (path_tables s shs a (pte_target e)) else {})"
  by (simp add: cell_slot Let_def)

lemma links_present:
  assumes "blank_leaves s xs lev" and "lev_ok s lev (free_pages s xs) (sh # shs) a t" and "length shs \<le> 1" and "k < 512"
  shows "links (slot s t k) = pte_present (slot s t k)"
proof -
  have "aligned t" "t \<notin> free_pages s xs" "lev t = 2 \<or> lev t = 3" using lev_ok_head [OF assms(2)] assms(3) by (cases shs; auto)+
  then have "\<not> pte_page_size (slot s t k)"
    using assms(1) slot_in_page [OF assms(4)] unfolding blank_leaves_def slot_def by blast
  then show ?thesis by (simp add: links_def)
qed

lemma listed_met:
  assumes ok: "space_ok lower_half s xs lev own" and p: "p \<in> set (lower_tables s)"
  shows "\<exists>a \<in> lower_half. p \<in> set (path_tables s levels a (cr3_root s))"
proof -
  obtain i where i: "i < 256" "pte_present (slot s (cr3_root s) i)"
    and p3: "p = pte_target (slot s (cr3_root s) i) \<or> p \<in> set (below3 [0..<512] s (pte_target (slot s (cr3_root s) i)))"
    using p unfolding lower_tables_def in_below(3) by blast
  let ?t3 = "pte_target (slot s (cr3_root s) i)"
  have lower: "lower_addr i j k \<in> lower_half" if "j < 512" "k < 512" for j k using unat_lower_addr(2) [OF i(1) that] by simp
  show ?thesis
  proof (cases "p = ?t3")
    case True
    then have "p \<in> set (path_tables s levels (lower_addr i 0 0) (cr3_root s))"
      using i lower_addr_index(1) [OF i(1), of 0 0] by (simp add: path_slots Let_def del: path_tables.simps(2))
    then show ?thesis using lower [of 0 0] by auto
  next
    case False
    then obtain j where j: "j < 512" "pte_present (slot s ?t3 j)"
      and p2: "p = pte_target (slot s ?t3 j) \<or> p \<in> set (below2 [0..<512] s (pte_target (slot s ?t3 j)))"
      using p3 unfolding in_below(2) links_def by blast
    let ?t2 = "pte_target (slot s ?t3 j)"
    have "\<exists>k < 512. p = ?t2 \<or> pte_present (slot s ?t2 k) \<and> p = pte_target (slot s ?t2 k)"
      using p2 unfolding in_below(1) links_def by (metis zero_less_numeral)
    then obtain k where k: "k < 512" "p = ?t2 \<or> pte_present (slot s ?t2 k) \<and> p = pte_target (slot s ?t2 k)" by blast
    note at = lower_addr_index(1-3) [OF i(1) j(1) k(1)]
    have "p \<in> set (path_tables s levels (lower_addr i j k) (cr3_root s))"
      using i(2) j(2) k(2) at by (auto simp: path_slots Let_def simp del: path_tables.simps(2))
    then show ?thesis using lower [OF j(1) k(1)] by blast
  qed
qed

lemma met_listed:
  assumes ok: "space_ok lower_half s xs lev own" and bl: "blank_leaves s xs lev"
    and a: "a \<in> lower_half" and p: "p \<in> set (path_tables s levels a (cr3_root s))" "p \<noteq> cr3_root s"
  shows "p \<in> set (lower_tables s)"
proof -
  let ?i = "unat (pt_index a 39)" and ?j = "unat (pt_index a 30)" and ?k = "unat (pt_index a 21)"
  have i: "?i < 256" using a by (simp add: unat_pt_index less_mult_imp_div_less)
  have jk: "?j < 512" "?k < 512" by (simp_all add: unat_pt_index)
  let ?e4 = "slot s (cr3_root s) ?i"
  let ?t3 = "pte_target ?e4"
  have e4: "pte_present ?e4" and p3: "p \<in> set (path_tables s [30, 21] a ?t3)"
    using p by (auto simp: path_slots [of s 39] Let_def simp del: path_tables.simps(2) split: if_splits)
  note l3 = down [OF space_ok_walk(2,3) [OF ok a] refl e4]
  let ?e3 = "slot s ?t3 ?j"
  let ?t2 = "pte_target ?e3"
  show ?thesis
  proof (cases "p = ?t3")
    case True
    then show ?thesis unfolding lower_tables_def in_below(3) using i e4 by blast
  next
    case False
    have e3: "pte_present ?e3" and p2: "p \<in> set (path_tables s [21] a ?t2)"
      using p3 False by (auto simp: path_slots [of s 30] Let_def simp del: path_tables.simps(2) split: if_splits)
    note l2 = down [OF conjunct1 [OF l3] conjunct2 [OF l3] refl e3]
    have "links ?e3" using links_present [OF bl conjunct1 [OF l3] _ jk(1)] e3 by simp
    moreover have "p = ?t2 \<or> p \<in> set (below2 [0..<512] s ?t2)"
    proof (cases "p = ?t2")
      case False
      then have e2: "pte_present (slot s ?t2 ?k)" "p = pte_target (slot s ?t2 ?k)"
        using p2 by (auto simp: path_slots [of s 21] Let_def simp del: path_tables.simps(2) split: if_splits)
      have "links (slot s ?t2 ?k)" using links_present [OF bl conjunct1 [OF l2] _ jk(2)] e2(1) by simp
      then show ?thesis unfolding in_below(1) using jk(2) e2(2) by blast
    qed simp
    ultimately have "p \<in> set (below3 [0..<512] s ?t3)" unfolding in_below(2) using jk(1) by blast
    then show ?thesis unfolding lower_tables_def in_below(3) using i e4 by blast
  qed
qed

text \<open>
  \<open>pool\<close>: the pages that are free or will be once the lower half has been cleared. \<open>reclaimable\<close>: the
  lower half is in order and none of these pages lies at virtual address 0 in the direct map.
\<close>

definition pool :: "mem_state \<Rightarrow> u64 set" where
  "pool m = mem_avail m \<union> set (lower_tables m)"

definition reclaimable :: "mem_state \<Rightarrow> bool" where
  "reclaimable m \<longleftrightarrow> blank_space lower_half m \<and> (\<forall>p \<in> pool m. p + hhdm_addr m \<noteq> 0)"

lemma space_avail: "space_ok A s xs lev own \<Longrightarrow> mem_avail s = free_pages s xs"
  using mem_avail_eq by (auto simp: space_ok_def vm_inv_with_def)

lemma blank_tables: "blank_space lower_half m \<Longrightarrow> set (lower_tables m) = tables lower_half m"
proof -
  assume "blank_space lower_half m"
  then obtain xs lev own where s: "space_ok lower_half m xs lev own" "blank_leaves m xs lev" by (auto simp: blank_space_def)
  have "lev (cr3_root m) = 4" using lev_ok_head [OF space_ok_walk(2) [OF s(1), of 0]] by simp
  then have "cr3_root m \<notin> set (lower_tables m)" using lower_tables_placed [OF s(1)] by fastforce
  then show ?thesis using listed_met [OF s(1)] met_listed [OF s] unfolding tables_def by blast
qed

lemma reclaimable_tree:
  assumes "reclaimable m"
  shows "tree_ok m" and "mem_inv m" and "\<forall>p \<in> mem_avail m. phys p" and "term_ok (con m)"
proof -
  obtain xs lev own where s: "space_ok lower_half m xs lev own" "blank_leaves m xs lev"
    using assms by (auto simp: blank_space_def reclaimable_def)
  have inv: "vm_inv_with lower_half m xs lev" using s(1) by (simp add: space_ok_def)
  note av = space_avail [OF s(1)]
  show "mem_inv m" "term_ok (con m)" using inv by (auto simp: vm_inv_with_def mem_inv_def)
  show "\<forall>p \<in> mem_avail m. phys p" using inv unfolding av by (simp add: vm_inv_with_def)
  have root: "lev (cr3_root m) = 4" "cr3_root m \<notin> free_pages m xs"
    using lev_ok_head [OF space_ok_walk(2) [OF s(1), of 0]] by simp_all
  have "p \<notin> free_pages m xs" if p: "p \<in> set (lower_tables m)" for p
  proof -
    obtain a where a: "a \<in> lower_half" "p \<in> set (path_tables m levels a (cr3_root m))" using listed_met [OF s(1) p] by blast
    then show ?thesis using lev_ok_path [OF space_ok_walk(2) [OF s(1) a(1)]] by blast
  qed
  moreover have "cr3_root m \<notin> set (lower_tables m)" using root(1) lower_tables_placed [OF s(1)] by fastforce
  moreover have "listable m (lower_tables m)"
    using assms lower_tables_placed [OF s(1)] by (simp add: listable_def reclaimable_def pool_def)
  ultimately show "tree_ok m" using root(2) av unfolding tree_ok_def by blast
qed

text \<open>
  \<open>upkeep m m'\<close>: if \<open>m\<close> is reclaimable then so is \<open>m'\<close>, with the same pages in all.
\<close>

definition upkeep :: "mem_state \<Rightarrow> mem_state \<Rightarrow> bool" where
  "upkeep m m' \<longleftrightarrow> (reclaimable m \<longrightarrow> reclaimable m' \<and> pool m' = pool m \<and> cr3 m' = cr3 m)"

lemma upkeep_refl [simp]: "upkeep m m"
  by (simp add: upkeep_def)

lemma upkeep_trans: "upkeep m m1 \<Longrightarrow> upkeep m1 m2 \<Longrightarrow> upkeep m m2"
  by (simp add: upkeep_def)

lemma vm_map_upkeep:
  assumes "a \<in> lower_half" and run: "vm_map (cr3_root m) a u w x m = Inr (rc, m')"
  shows "upkeep m m'"
  unfolding upkeep_def
proof
  assume r: "reclaimable m"
  then have blank: "blank_space lower_half m" by (simp add: reclaimable_def)
  note inv = blank_space_inv [OF blank]
  have blank': "blank_space lower_half m'" using vm_map_keeps_blank [OF blank assms] .
  have same: "pool m' = pool m"
    using vm_map_pool [OF inv assms] unfolding pool_def blank_tables [OF blank] blank_tables [OF blank'] .
  obtain xs lev own where s: "space_ok lower_half m xs lev own" using inv by (auto simp: vm_inv_def)
  have "hhdm_addr m' = hhdm_addr m"
    using vm_map_keeps_entries [OF space_ok_walk(1) [OF s assms(1)] run] by (simp add: entries_kept_def)
  moreover have "cr3 m' = cr3 m" using vm_map_maps [OF inv assms(1), of u w x] run by auto
  ultimately show "reclaimable m' \<and> pool m' = pool m \<and> cr3 m' = cr3 m"
    using blank' same r by (simp add: reclaimable_def)
qed

lemma pool_cells:
  assumes "cells m' = cells m" and "hhdm_addr m' = hhdm_addr m" and "cr3 m' = cr3 m" and "mem_avail m' = mem_avail m"
  shows "pool m' = pool m"
proof -
  have sl: "slot m' t i = slot m t i" for t i using assms(1,2) by (simp add: slot_def)
  have two: "below2 is m' t = below2 is m t" for "is" t by (induction "is") (simp_all only: below2.simps sl)
  have three: "below3 is m' t = below3 is m t" for "is" t by (induction "is") (simp_all only: below3.simps sl two)
  have "below4 is m' t = below4 is m t" for "is" t by (induction "is") (simp_all only: below4.simps sl three)
  then show ?thesis using assms by (simp add: pool_def lower_tables_def read_cr3_def)
qed

text \<open>Clearing the lower half makes all pages of the pool free.\<close>

lemma unmap_pool:
  assumes tree: "tree_ok m" "mem_inv m" "\<forall>p \<in> mem_avail m. phys p"
  defines "m' \<equiv> unmap_lower_half (cr3_root m) m"
  shows "pool m' = pool m" and "mem_avail m' = pool m" and "cr3 m' = cr3 m" and "hhdm_addr m' = hhdm_addr m"
proof -
  note frees = unmap_lower_half_frees [OF tree(1-3), folded m'_def]
  show avail: "mem_avail m' = pool m" using frees(1) by (simp only: pool_def)
  show cr3: "cr3 m' = cr3 m" and "hhdm_addr m' = hhdm_addr m" by (rule frees(6,8))+
  obtain xs where xs: "fl_inv m xs" using tree(2) by (auto simp: mem_inv_def)
  have root: "cr3_root m' = cr3_root m" using cr3 by (simp add: read_cr3_def)
  note cleared = unmap_lower_half_releases(2) [OF tree(1) xs, folded m'_def]
  have "\<not> pte_present (slot m' (cr3_root m) i)" if i: "i < 256" for i
  proof -
    have "i < 512" using i by simp
    from cleared [OF this] i have "slot m' (cr3_root m) i
        = (if pte_present (slot m (cr3_root m) i) then cleared (slot m (cr3_root m) i) else slot m (cr3_root m) i)"
      by (simp only: simp_thms)
    then show ?thesis by (cases "pte_present (slot m (cr3_root m) i)") (simp_all only: if_True if_False simp_thms cleared_bits(1))
  qed
  then have "p \<notin> set (lower_tables m')" for p unfolding lower_tables_def root in_below(3) by blast
  then have "set (lower_tables m') = {}" by (metis equals0I)
  then show "pool m' = pool m" using avail by (simp add: pool_def)
qed

lemma unmap_upkeep:
  assumes "reclaimable m"
  shows "upkeep m (unmap_lower_half (cr3_root m) m)" and "mem_avail (unmap_lower_half (cr3_root m) m) = pool m"
proof -
  let ?m = "unmap_lower_half (cr3_root m) m"
  note tree = reclaimable_tree [OF assms]
  note ready = unmap_pool [OF tree(1-3)] and frees = unmap_lower_half_frees [OF tree(1-3)]
  have "?m\<lparr>con := con m\<rparr> = ?m" using frees(7) by simp
  then have blank: "blank_space lower_half ?m" using frees(2) [OF tree(4)] by simp
  have "\<forall>p \<in> pool m. p + hhdm_addr m \<noteq> 0" using assms unfolding reclaimable_def by (rule conjunct2)
  with blank have "reclaimable ?m" unfolding reclaimable_def ready(1,4) by (rule conjI)
  then show "upkeep m ?m" unfolding upkeep_def using ready(1,3) by (intro impI conjI)
  show "mem_avail ?m = pool m" by (rule ready(2))
qed

end
