(* ===== verification/SysMap.thy ===== *)
theory SysMap
  imports Syscall Mappings
begin

text \<open>
  Mapping pages for a user program: the loop of \<open>SYS_mmap\<close> and the user stack
  (\<^verbatim>\<open>src/kernel/interrupts.c\<close>, \<^verbatim>\<open>src/kernel/boot.c\<close>) as two instances of \<open>page_mapper\<close>, and what
  \<open>SYS_mmap\<close> does for lengths that are whole pages and for others.
\<close>

section \<open>Two page mappers\<close>

definition maps_in :: "u64 set \<Rightarrow> u64 \<Rightarrow> mem_state \<Rightarrow> bool" where
  "maps_in A root m \<longleftrightarrow> vm_inv A m \<and> cr3_root m = root"

definition no_pages :: "mem_state \<Rightarrow> bool" where
  "no_pages m \<longleftrightarrow> mem_avail m = {}"

definition stack_page :: "u64 \<Rightarrow> mem_state \<Rightarrow> mem_state res" where
  "stack_page p m = map_res snd (vm_map (cr3_root m) p True True False m)"

lemma vm_inv_term: "vm_inv A m \<Longrightarrow> term_ok (con m)"
  by (auto simp: vm_inv_def space_ok_def vm_inv_with_def)

lemma mem_avail_con [simp]: "mem_avail (m\<lparr>con := c\<rparr>) = mem_avail m"
  by (simp add: mem_avail_def fl_inv_con)

lemma map_or_warn_ok:
  assumes "maps_in A root m" and "a \<in> A"
  shows "\<exists>m'. map_or_warn root a u w x m = Inr m' \<and> maps_in A root m' \<and> (page_present m' a \<or> no_pages m')
    \<and> (\<forall>b \<in> A. page_present m b \<longrightarrow> page_present m' b) \<and> (no_pages m \<longrightarrow> no_pages m')"
proof -
  obtain rc m' where m': "vm_map root a u w x m = Inr (rc, m')" "vm_inv A m'" "cr3 m' = cr3 m"
    "page_present m' a \<or> mem_avail m' = {}" "mem_avail m' \<subseteq> mem_avail m"
    "\<forall>b \<in> A. \<forall>e. leaf_entry m b (cr3_root m) = Some e \<longrightarrow> pte_present e \<longrightarrow> leaf_entry m' b (cr3_root m') = Some e"
    using vm_map_maps [of A m a u w x] assms by (auto simp: maps_in_def)
  have keep: "page_present m' b" if "b \<in> A" "page_present m b" for b
    using m'(6) that by (auto simp: page_present_def split: option.splits)
  obtain c where c: "mprintf (c_lit (''Panic, vm_map didn'' @ [CHR 0x27] @ ''t map the modules'' @ [CHR 0x0A])) [] m'
      = Inr (m'\<lparr>con := c\<rparr>)" "term_ok c"
    using mprintf_plain [OF vm_inv_term [OF m'(2)], of "''Panic, vm_map didn'' @ [CHR 0x27] @ ''t map the modules'' @ [CHR 0x0A]"]
    by (auto simp: bytes_of_def)
  have "vm_inv A (m'\<lparr>con := c\<rparr>)" using m'(2) c(2) by (rule vm_inv_con)
  then show ?thesis using m' c keep assms
    by (cases rc) (auto simp: map_or_warn_def maps_in_def no_pages_def read_cr3_def)
qed

lemma map_or_warn_blank:
  assumes "maps_in A root m" and "blank_space A m" and "a \<in> A" and "map_or_warn root a u w x m = Inr m'"
  shows "blank_space A m'"
proof -
  have root: "cr3_root m = root" using assms(1) by (simp add: maps_in_def)
  obtain rc m1 where m1: "vm_map root a u w x m = Inr (rc, m1)"
    using vm_map_maps [OF blank_space_inv [OF assms(2)] assms(3), of u w x] root by blast
  have b: "blank_space A m1" using vm_map_keeps_blank [OF assms(2,3)] m1 root by blast
  have "term_ok (con m1)" using vm_inv_term [OF blank_space_inv [OF b]] .
  from mprintf_plain [OF this, of "''Panic, vm_map didn'' @ [CHR 0x27] @ ''t map the modules'' @ [CHR 0x0A]"]
  obtain c where "mprintf (c_lit (''Panic, vm_map didn'' @ [CHR 0x27] @ ''t map the modules'' @ [CHR 0x0A])) [] m1
      = Inr (m1\<lparr>con := c\<rparr>)" "term_ok c" by (auto simp: bytes_of_def)
  then show ?thesis using assms(4) m1 b blank_space_con [OF b] by (cases rc) (auto simp: map_or_warn_def)
qed

interpretation mmap: page_mapper "\<lambda>a. map_or_warn root a u w x" "maps_in A root" A page_present no_pages
  for A root u w x
  by unfold_locales (rule map_or_warn_ok)

interpretation stack: page_mapper stack_page "vm_inv A" A page_present no_pages
  for A
proof unfold_locales
  fix m a assume m: "vm_inv A m" "a \<in> A"
  from vm_map_maps [OF this, of True True False] obtain rc m' where m':
    "vm_map (cr3_root m) a True True False m = Inr (rc, m')" "vm_inv A m'"
    "page_present m' a \<or> mem_avail m' = {}" "mem_avail m' \<subseteq> mem_avail m"
    "\<forall>b \<in> A. \<forall>e. leaf_entry m b (cr3_root m) = Some e \<longrightarrow> pte_present e \<longrightarrow> leaf_entry m' b (cr3_root m') = Some e"
    by blast
  then show "\<exists>m'. stack_page a m = Inr m' \<and> vm_inv A m' \<and> (page_present m' a \<or> no_pages m')
      \<and> (\<forall>b \<in> A. page_present m b \<longrightarrow> page_present m' b) \<and> (no_pages m \<longrightarrow> no_pages m')"
    by (auto simp: stack_page_def no_pages_def page_present_def split: option.splits)
qed

section \<open>The loops\<close>

primrec page_list :: "u64 \<Rightarrow> nat \<Rightarrow> u64 list" where
  "page_list a 0 = []"
| "page_list a (Suc n) = a # page_list (a + PAGESIZE) n"

lemma set_page_list: "set (page_list a n) = {a + of_nat i * PAGESIZE |i. i < n}"
proof (induction n arbitrary: a)
  case (Suc n)
  have "x \<in> {a + of_nat i * PAGESIZE |i. i < Suc n} \<longleftrightarrow> x = a \<or> x \<in> {a + PAGESIZE + of_nat i * PAGESIZE |i. i < n}" for x
  proof
    assume "x \<in> {a + of_nat i * PAGESIZE |i. i < Suc n}"
    then obtain i where i: "i < Suc n" "x = a + of_nat i * PAGESIZE" by blast
    show "x = a \<or> x \<in> {a + PAGESIZE + of_nat i * PAGESIZE |i. i < n}"
    proof (cases i)
      case (Suc j)
      then have "j < n" "x = a + PAGESIZE + of_nat j * PAGESIZE" using i by (simp_all add: algebra_simps)
      then show ?thesis by blast
    qed (use i in simp)
  next
    assume "x = a \<or> x \<in> {a + PAGESIZE + of_nat i * PAGESIZE |i. i < n}"
    then consider "x = a" | j where "j < n" "x = a + PAGESIZE + of_nat j * PAGESIZE" by blast
    then show "x \<in> {a + of_nat i * PAGESIZE |i. i < Suc n}"
    proof cases
      case 1
      then show ?thesis by (auto intro!: exI [of _ 0])
    next
      case 2
      then have "x = a + of_nat (Suc j) * PAGESIZE" "Suc j < Suc n" by (simp_all add: algebra_simps)
      then show ?thesis by blast
    qed
  qed
  then show ?case using Suc [of "a + PAGESIZE"] by auto
qed simp

lemma map_stack_each: "map_stack n p m = stack.map_each (page_list p n) m"
proof (induction n arbitrary: p m)
  case (Suc n)
  have "stack_page p m = map_res snd (vm_map (cr3_root m) p True True False m)" by (simp only: stack_page_def)
  then show ?case by (cases "vm_map (cr3_root m) p True True False m") (auto simp: Suc)
qed simp

lemma mmap_loop_each:
  "unat len = 4096 * n \<Longrightarrow> mmap_loop root u w x len a m = Some (mmap.map_each root u w x (page_list a n) m)"
proof (induction n arbitrary: len a m)
  case 0
  then have "len = 0" by (simp add: unat_eq_zero)
  then show ?case by (simp add: mmap_loop.simps)
next
  case (Suc n)
  then have "0 < len" "PAGESIZE \<le> len" by (simp_all add: word_less_nat_alt word_le_nat_alt)
  then have "unat (len - PAGESIZE) = 4096 * n" using Suc.prems by (simp add: unat_sub_small)
  from Suc.IH [OF this] show ?case using \<open>0 < len\<close>
    by (cases "map_or_warn root a u w x m") (simp_all add: mmap_loop.simps [of root u w x len])
qed

text \<open>A length that is not a whole number of pages is never used up.\<close>

lemma mmap_loop_diverges:
  assumes "maps_in A root m" and "\<And>i. a + of_nat i * PAGESIZE \<in> A" and "\<not> aligned len"
  shows "mmap_loop root u w x len a m = None"
proof (rule ccontr)
  assume "mmap_loop root u w x len a m \<noteq> None"
  then obtain r where r: "mmap_loop root u w x len a m = Some r" by auto
  have "maps_in A root m \<longrightarrow> (\<forall>i. a + of_nat i * PAGESIZE \<in> A) \<longrightarrow> aligned len"
  proof (rule mmap_loop.raw_induct [where P = "\<lambda>root u w x len a m r.
      maps_in A root m \<longrightarrow> (\<forall>i. a + of_nat i * PAGESIZE \<in> A) \<longrightarrow> aligned len", OF _ r])
    fix rec root u w x len a m r
    assume IH: "\<And>root u w x len a m r. rec root u w x len a m = Some r \<Longrightarrow>
        maps_in A root m \<longrightarrow> (\<forall>i. a + of_nat i * PAGESIZE \<in> A) \<longrightarrow> aligned len"
      and body: "(if len > 0 then
         (case map_or_warn root a u w x m of Inl e \<Rightarrow> Some (Inl e)
          | Inr m \<Rightarrow> rec root u w x (len - PAGESIZE) (a + PAGESIZE) m) else Some (Inr m)) = Some r"
    show "maps_in A root m \<longrightarrow> (\<forall>i. a + of_nat i * PAGESIZE \<in> A) \<longrightarrow> aligned len"
    proof (intro impI)
      assume m: "maps_in A root m" and A: "\<forall>i. a + of_nat i * PAGESIZE \<in> A"
      show "aligned len"
      proof (cases "len > 0")
        case True
        have a: "a \<in> A" using A [rule_format, of 0] by simp
        obtain m' where m': "map_or_warn root a u w x m = Inr m'" "maps_in A root m'"
          using map_or_warn_ok [OF m a] by blast
        have "\<forall>i. a + PAGESIZE + of_nat i * PAGESIZE \<in> A"
        proof
          fix i show "a + PAGESIZE + of_nat i * PAGESIZE \<in> A"
            using A [rule_format, of "Suc i"] by (simp add: algebra_simps)
        qed
        moreover have "rec root u w x (len - PAGESIZE) (a + PAGESIZE) m' = Some r" using body True m'(1) by simp
        ultimately have "aligned (len - PAGESIZE)" using IH m'(2) by blast
        then show ?thesis using aligned_add [of "len - PAGESIZE" PAGESIZE] by simp
      next
        case False
        then have "len = 0" by (simp add: word_gt_0)
        then show ?thesis by (simp add: aligned_def)
      qed
    qed
  qed
  then show False using assms by blast
qed

section \<open>SYS_mmap without an address\<close>

lemma pages_round: "(x + 4095) div 4096 = (if x mod 4096 \<noteq> 0 then x div 4096 + 1 else x div (4096 :: nat))"
proof -
  have "x + 4095 = x mod 4096 + 4095 + 4096 * (x div 4096)" by simp
  then have "(x + 4095) div 4096 = x div 4096 + (x mod 4096 + 4095) div 4096" by (simp only: div_mult_self2)
  moreover have "x mod 4096 < 4096" by simp
  ultimately show ?thesis by (cases "x mod 4096") (simp_all add: le_div_geq)
qed

lemma mmap_pages_value:
  assumes "unat len < 0x7FFFF000"
  shows "mmap_pages len = Inr (int ((unat len + 4095) div 4096))"
proof -
  have d: "unat (len div PAGESIZE) = unat len div 4096" by (simp add: unat_div_distrib)
  then have "int_of_size (len div PAGESIZE) = int (unat len div 4096)"
    using assms by (subst int_of_size_small) simp_all
  moreover have "len mod PAGESIZE \<noteq> 0 \<longleftrightarrow> unat len mod 4096 \<noteq> 0"
    by (simp add: unat_eq_zero [symmetric] unat_mod_distrib)
  moreover have "(unat len + 4095) div 4096 = (if unat len mod 4096 \<noteq> 0 then unat len div 4096 + 1 else unat len div 4096)"
    by (rule pages_round)
  moreover have "unat len div 4096 < 0x7FFFF" using assms by (simp add: less_mult_imp_div_less)
  ultimately show ?thesis by (simp add: mmap_pages_def Let_def)
qed

lemma set_vm_fields [simp]:
  "kvm (set_vm m s) = m" "mem_start (set_vm m s) = mem_start s" "kram (set_vm m s) = kram s"
  "boot_hdr (set_vm m s) = boot_hdr s"
  by (simp_all add: set_vm_def)

lemma sys_mmap_maps:
  assumes inv: "vm_inv A (kvm s)" and len: "unat len = 4096 * n" "n < 0x7FFFF"
    and A: "\<And>i. i < n \<Longrightarrow> mem_start s + of_nat i * PAGESIZE \<in> A"
  shows "\<exists>m. SYS_mmap 0 len prot s = Inr (mem_start s, set_vm m (s\<lparr>mem_start := mem_start s + len\<rparr>)) \<and> vm_inv A m
    \<and> ((\<forall>i < n. page_present m (mem_start s + of_nat i * PAGESIZE)) \<or> mem_avail m = {})
    \<and> (\<forall>b \<in> A. page_present (kvm s) b \<longrightarrow> page_present m b) \<and> (mem_avail (kvm s) = {} \<longrightarrow> mem_avail m = {})
    \<and> (blank_space A (kvm s) \<longrightarrow> blank_space A m)"
proof -
  let ?root = "cr3_root (kvm s)"
  have maps_in: "maps_in A ?root (kvm s)" using inv by (simp add: maps_in_def)
  moreover have pages_in: "set (page_list (mem_start s) n) \<subseteq> A" using A by (auto simp: set_page_list)
  ultimately obtain m where m: "mmap.map_each ?root (bit prot 0) (bit prot 1) (bit prot 2) (page_list (mem_start s) n) (kvm s) = Inr m"
    "maps_in A ?root m" "(\<forall>a \<in> set (page_list (mem_start s) n). page_present m a) \<or> no_pages m"
    "\<forall>b \<in> A. page_present (kvm s) b \<longrightarrow> page_present m b" "no_pages (kvm s) \<longrightarrow> no_pages m"
    using mmap.map_each_maps [of A ?root "kvm s" "page_list (mem_start s) n" "bit prot 0" "bit prot 1" "bit prot 2"] by blast
  have pages: "mmap_pages len = Inr (int n)"
    using mmap_pages_value [of len] len by simp
  have "word_of_int (int n * 0x1000) = (len :: u64)"
  proof -
    have "(of_nat (unat len) :: u64) = len" by simp
    then have "(of_nat (4096 * n) :: u64) = len" by (simp only: len(1))
    then show ?thesis by (simp add: mult.commute)
  qed
  then have "SYS_mmap 0 len prot s = Inr (mem_start s, set_vm m (s\<lparr>mem_start := mem_start s + len\<rparr>))"
    using pages m(1) mmap_loop_each [OF len(1)] by (simp add: SYS_mmap_def Let_def)
  moreover have "\<forall>i < n. mem_start s + of_nat i * PAGESIZE \<in> set (page_list (mem_start s) n)"
    by (auto simp: set_page_list)
  moreover have "blank_space A (kvm s) \<longrightarrow> blank_space A m"
    using mmap.map_each_keeps [where P = "blank_space A", OF _ maps_in _ pages_in m(1)] map_or_warn_blank by blast
  ultimately show ?thesis using m(2-5) by (auto simp: maps_in_def no_pages_def)
qed

lemma sys_mmap_hangs:
  assumes "vm_inv A (kvm s)" and "\<And>i. mem_start s + of_nat i * PAGESIZE \<in> A"
    and "unat len < 0x7FFFF000" and "\<not> 4096 dvd unat len"
  shows "SYS_mmap 0 len prot s = Inl No_Return"
proof -
  have "maps_in A (cr3_root (kvm s)) (kvm s)" using assms(1) by (simp add: maps_in_def)
  then have "mmap_loop (cr3_root (kvm s)) u w x len (mem_start s) (kvm s) = None" for u w x
    using mmap_loop_diverges assms(2,4) by (simp add: aligned_def)
  then show ?thesis using mmap_pages_value [OF assms(3)] by (simp add: SYS_mmap_def Let_def)
qed
section \<open>All the pages are one\<close>

text \<open>In an address space whose last-level tables hold no address, a page that is present is the
  physical page 0.\<close>

lemma blank_frame:
  assumes "blank_space A m" and "a \<in> A" and "aligned a" and "page_present m a" and "j < 4096"
  shows "frame_of m (a + of_nat j) = Some (of_nat j)"
proof -
  obtain e where e: "leaf_entry m a (cr3_root m) = Some e" "pte_present e"
    using assms(4) by (auto simp: page_present_def split: option.splits)
  have "a AND mask 12 = 0"
    by (rule bit_word_eqI) (use aligned_low_bits [OF assms(3)] in \<open>auto simp: bit_simps\<close>)
  then have low: "a AND 0xFFF = 0" by (simp add: mask_eq_exp_minus_1)
  have "leaf_entry m (a AND NOT 0xFFF) (cr3_root m) = Some e" using e(1) leaf_entry_page by metis
  then have "frame_of m (a + of_nat j) = Some (pte_target e + (a AND 0xFFF) + of_nat j)"
    using e(2) assms(5) low by (intro frame_of_page) simp_all
  then show ?thesis using blank_target [OF assms(1,2) e(1)] low by simp
qed

lemma same_frame_store_load:
  "frame_of (kvm s) a = Some p \<Longrightarrow> frame_of (kvm s) b = Some p \<Longrightarrow>
   \<exists>s'. user_store a x s = Inr s' \<and> user_load b s' = Inr x"
  by (simp add: user_store_def user_load_def)

lemma sys_mmap_aliases:
  assumes blank: "blank_space A (kvm s)" and len: "unat len = 4096 * n" "n < 0x7FFFF"
    and A: "\<And>i. i < n \<Longrightarrow> mem_start s + of_nat i * PAGESIZE \<in> A" and al: "aligned (mem_start s)"
  shows "\<exists>s'. SYS_mmap 0 len prot s = Inr (mem_start s, s') \<and> blank_space A (kvm s')
    \<and> (mem_avail (kvm s') = {} \<or> (\<forall>i < n. \<forall>j < 4096. frame_of (kvm s') (mem_start s + of_nat i * PAGESIZE + of_nat j) = Some (of_nat j)))"
proof -
  from sys_mmap_maps [OF blank_space_inv [OF blank] len A, of prot] blank obtain m where m:
    "SYS_mmap 0 len prot s = Inr (mem_start s, set_vm m (s\<lparr>mem_start := mem_start s + len\<rparr>))" "blank_space A m"
    "(\<forall>i < n. page_present m (mem_start s + of_nat i * PAGESIZE)) \<or> mem_avail m = {}" by blast
  have "aligned (mem_start s + of_nat i * PAGESIZE)" for i
  proof (induction i)
    case (Suc i)
    then have "aligned (mem_start s + of_nat i * PAGESIZE + PAGESIZE)" by (rule aligned_add) simp
    then show ?case by (simp add: algebra_simps)
  qed (use al in simp)
  then show ?thesis using m blank_frame [OF m(2) A] by auto
qed

end
