(* ===== verification/Running.thy ===== *)
theory Running
  imports Unmapping SysMap
begin

text \<open>
  Running a program: \<open>SYS_exec\<close> of \<^verbatim>\<open>src/kernel/interrupts.c\<close> from the name in user memory to the
  call of the entry point, over \<open>unmap_lower_half\<close> and the loader. \<open>place\<close> is what loading one
  segment does to physical memory in an address space whose pages are all physical page 0.
\<close>

section \<open>Segments\<close>

definition loads :: "program_header \<Rightarrow> bool" where
  "loads ph \<longleftrightarrow> p_type ph = 1 \<and> p_memsz ph \<noteq> 0"

abbreviation seg_page :: "program_header \<Rightarrow> u64" where
  "seg_page ph \<equiv> p_vaddr ph AND NOT 0xFFF"

text \<open>A segment within one page of \<open>A\<close> and within the image.\<close>

definition seg_ok :: "u64 set \<Rightarrow> u8 list \<Rightarrow> program_header \<Rightarrow> bool" where
  "seg_ok A img ph \<longleftrightarrow> seg_page ph \<in> A \<and> unat (p_vaddr ph AND 0xFFF) + unat (p_memsz ph) \<le> 4096
     \<and> unat (p_offset ph) + unat (p_memsz ph) \<le> length img"

definition place :: "u8 list \<Rightarrow> program_header \<Rightarrow> (u64 \<Rightarrow> u8) \<Rightarrow> u64 \<Rightarrow> u8" where
  "place img ph = fold (\<lambda>j r. r((p_vaddr ph AND 0xFFF) + of_nat j := img ! (unat (p_offset ph) + j)))
     [0..<unat (p_memsz ph)]"

lemma of_nat_page_inj:
  assumes "unat (f :: u64) + n \<le> 4096" and "i < n" and "j < n" and "f + of_nat i = f + of_nat j"
  shows "i = j"
proof -
  have "unat (of_nat k :: u64) = k" if "k < n" for k by (rule unat_of_nat_small) (use assms(1) that in simp)
  then show ?thesis using assms(2-4) by (metis add_left_cancel)
qed

lemma place_eq:
  assumes "unat (p_vaddr ph AND 0xFFF) + unat (p_memsz ph) \<le> 4096"
    and "\<forall>j < unat (p_memsz ph). r ((p_vaddr ph AND 0xFFF) + of_nat j) = img ! (unat (p_offset ph) + j)"
    and "\<forall>b. (\<forall>j < unat (p_memsz ph). b \<noteq> (p_vaddr ph AND 0xFFF) + of_nat j) \<longrightarrow> r b = r0 b"
  shows "place img ph r0 = r"
proof -
  let ?f = "p_vaddr ph AND 0xFFF" and ?o = "unat (p_offset ph)"
  let ?w = "\<lambda>n. fold (\<lambda>j r. r(?f + of_nat j := img ! (?o + j))) [0..<n] r0"
  have "unat ?f + n \<le> 4096 \<Longrightarrow> (\<forall>j < n. ?w n (?f + of_nat j) = img ! (?o + j))
      \<and> (\<forall>b. (\<forall>j < n. b \<noteq> ?f + of_nat j) \<longrightarrow> ?w n b = r0 b)" for n
  proof (induction n)
    case (Suc n)
    have "unat ?f + n \<le> 4096" using Suc.prems by linarith
    from Suc.IH [OF this] have IH: "\<forall>j < n. ?w n (?f + of_nat j) = img ! (?o + j)"
      "\<forall>b. (\<forall>j < n. b \<noteq> ?f + of_nat j) \<longrightarrow> ?w n b = r0 b" by blast+
    have "?f + of_nat j = ?f + of_nat n \<longleftrightarrow> j = n" if "j < Suc n" for j
      using of_nat_page_inj [OF Suc.prems that lessI] by blast
    then have "?w (Suc n) (?f + of_nat j) = img ! (?o + j)" if "j < Suc n" for j
      using IH(1) that by (cases "j = n") auto
    moreover have "?w (Suc n) b = r0 b" if "\<forall>j < Suc n. b \<noteq> ?f + of_nat j" for b
      using IH(2) that by simp
    ultimately show ?case by blast
  qed simp
  from this [OF assms(1)] have w: "\<forall>j < unat (p_memsz ph). place img ph r0 (?f + of_nat j) = img ! (?o + j)"
    "\<forall>b. (\<forall>j < unat (p_memsz ph). b \<noteq> ?f + of_nat j) \<longrightarrow> place img ph r0 b = r0 b"
    unfolding place_def by blast+
  show ?thesis
  proof
    fix b show "place img ph r0 b = r b"
    proof (cases "\<forall>j < unat (p_memsz ph). b \<noteq> ?f + of_nat j")
      case True
      then show ?thesis using w(2) assms(3) by metis
    next
      case False
      then obtain j where "j < unat (p_memsz ph)" "b = ?f + of_nat j" by blast
      then show ?thesis using w(1) assms(2) by metis
    qed
  qed
qed

lemma blank_unmapped: "blank_space A m \<Longrightarrow> a \<in> A \<Longrightarrow> unmapped_target m a = 0"
  using blank_target by (auto simp: unmapped_target_def split: option.split)

lemma load_segment_blank:
  assumes blank: "blank_space A (lvm s)" and ph: "loads ph" "seg_ok A img ph"
    and absent: "\<not> page_present (lvm s) (seg_page ph)"
    and P: "P \<subseteq> mem_avail (lvm s)" "finite P" "3 \<le> card P"
  shows "\<exists>m. load_segment img ph s = Inr (s\<lparr>lvm := m, ram := place img ph (ram s)\<rparr>) \<and> maps_page A (seg_page ph) (lvm s) m"
proof -
  have ok: "seg_page ph \<in> A" "unat (p_vaddr ph AND 0xFFF) + unat (p_memsz ph) \<le> 4096"
    "unat (p_offset ph) + unat (p_memsz ph) \<le> length img" using ph(2) by (simp_all add: seg_ok_def)
  have load: "p_type ph = 1" "p_memsz ph \<noteq> 0" using ph(1) by (simp_all add: loads_def)
  from load_segment_page [OF blank_space_inv [OF blank] ok(1) load ok(2,3) absent P]
  obtain m r where m: "load_segment img ph s = Inr (s\<lparr>lvm := m, ram := r\<rparr>)" "maps_page A (seg_page ph) (lvm s) m"
    "\<forall>j < unat (p_memsz ph). r ((p_vaddr ph AND 0xFFF) + of_nat j) = img ! (unat (p_offset ph) + j)"
    "\<forall>b. (\<forall>j < unat (p_memsz ph). b \<noteq> (p_vaddr ph AND 0xFFF) + of_nat j) \<longrightarrow> r b = ram s b"
    unfolding blank_unmapped [OF blank ok(1)] add_0 by blast
  from place_eq [OF ok(2) m(3,4)] m(1,2) show ?thesis by blast
qed

section \<open>A whole program\<close>

text \<open>At most \<open>n\<close> pages have been taken from the free list.\<close>

definition uses_pages :: "nat \<Rightarrow> u64 set \<Rightarrow> u64 set \<Rightarrow> bool" where
  "uses_pages n M M' \<longleftrightarrow> (\<exists>Q. finite Q \<and> card Q \<le> n \<and> M' = M - Q)"

lemma uses_pages_refl [simp]: "uses_pages n M M"
  unfolding uses_pages_def by (intro exI [of _ "{}"]) simp

lemma uses_pages_trans:
  assumes "uses_pages n M M1" and "uses_pages k M1 M2" and "n + k \<le> l"
  shows "uses_pages l M M2"
proof -
  obtain Q R where "finite Q" "card Q \<le> n" "M1 = M - Q" "finite R" "card R \<le> k" "M2 = M1 - R"
    using assms(1,2) by (auto simp: uses_pages_def)
  then have "finite (Q \<union> R)" "card (Q \<union> R) \<le> l" "M2 = M - (Q \<union> R)"
    using card_Un_le [of Q R] assms(3) by auto
  then show ?thesis unfolding uses_pages_def by blast
qed

lemma uses_pages_left:
  assumes "uses_pages n M M'" and "P \<subseteq> M" and "finite P" and "n + k \<le> card P"
  shows "\<exists>P'. P' \<subseteq> M' \<and> finite P' \<and> k \<le> card P'"
proof -
  obtain Q where Q: "finite Q" "card Q \<le> n" "M' = M - Q" using assms(1) by (auto simp: uses_pages_def)
  have "card P \<le> card ((P - Q) \<union> Q)" by (rule card_mono) (use assms(3) Q(1) in auto)
  also have "\<dots> \<le> card (P - Q) + card Q" by (rule card_Un_le)
  finally have "k \<le> card (P - Q)" using assms(4) Q(2) by simp
  then show ?thesis using assms(2,3) Q(3) by (intro exI [of _ "P - Q"]) auto
qed

lemma maps_page_uses: "maps_page A a m m' \<Longrightarrow> uses_pages 3 (mem_avail m) (mem_avail m')"
  by (auto simp: maps_page_def uses_pages_def)

text \<open>The segments are placed one after the other; exactly their pages become present.\<close>

abbreviation seg_pages :: "program_header list \<Rightarrow> u64 set" where
  "seg_pages phs \<equiv> (\<lambda>ph. page_no (seg_page ph)) ` set (filter loads phs)"

lemma load_segments_blank:
  "blank_space A (lvm s) \<Longrightarrow> (\<And>i. i < length phs \<Longrightarrow> read_program_header img (pos + 56 * of_nat i) = Inr (phs ! i)) \<Longrightarrow>
   \<forall>ph \<in> set (filter loads phs). seg_ok A img ph \<and> \<not> page_present (lvm s) (seg_page ph) \<Longrightarrow>
   distinct (map (\<lambda>ph. page_no (seg_page ph)) (filter loads phs)) \<Longrightarrow>
   P \<subseteq> mem_avail (lvm s) \<Longrightarrow> finite P \<Longrightarrow> 3 * length (filter loads phs) \<le> card P \<Longrightarrow>
   \<exists>m. load_segments (length phs) pos img s = Inr (s\<lparr>lvm := m, ram := fold (place img) (filter loads phs) (ram s)\<rparr>)
     \<and> blank_space A m \<and> con m = con (lvm s) \<and> cr3 m = cr3 (lvm s)
     \<and> uses_pages (3 * length (filter loads phs)) (mem_avail (lvm s)) (mem_avail m)
     \<and> (\<forall>b \<in> A. page_present m b \<longleftrightarrow> page_present (lvm s) b \<or> page_no b \<in> seg_pages phs)"
proof (induction phs arbitrary: pos s P)
  case Nil
  then show ?case by (intro exI [of _ "lvm s"]) simp
next
  case (Cons ph phs)
  have hd: "read_program_header img pos = Inr ph" using Cons.prems(2) [of 0] by simp
  have tl: "read_program_header img (pos + 56 + 56 * of_nat i) = Inr (phs ! i)" if "i < length phs" for i
    using Cons.prems(2) [of "Suc i"] that by (simp add: algebra_simps)
  show ?case
  proof (cases "loads ph")
    case False
    then have "load_segment img ph s = Inr s" by (auto simp: load_segment_def loads_def)
    moreover obtain m where "load_segments (length phs) (pos + 56) img s
        = Inr (s\<lparr>lvm := m, ram := fold (place img) (filter loads phs) (ram s)\<rparr>)"
      "blank_space A m" "con m = con (lvm s)" "cr3 m = cr3 (lvm s)"
      "uses_pages (3 * length (filter loads phs)) (mem_avail (lvm s)) (mem_avail m)"
      "\<forall>b \<in> A. page_present m b \<longleftrightarrow> page_present (lvm s) b \<or> page_no b \<in> seg_pages phs"
      using Cons.IH [OF Cons.prems(1) tl _ _ Cons.prems(5,6)] Cons.prems(3,4,7) False by auto
    ultimately show ?thesis using hd False by auto
  next
    case True
    have ok: "seg_ok A img ph" "\<not> page_present (lvm s) (seg_page ph)" using Cons.prems(3) True by simp_all
    have "3 \<le> card P" using Cons.prems(7) True by simp
    from load_segment_blank [OF Cons.prems(1) True ok Cons.prems(5,6) this] obtain m where
      m: "load_segment img ph s = Inr (s\<lparr>lvm := m, ram := place img ph (ram s)\<rparr>)" "maps_page A (seg_page ph) (lvm s) m" by blast
    note uses = maps_page_uses [OF m(2)]
    have blank: "blank_space A m" using m(2) Cons.prems(1) by (simp add: maps_page_def)
    have pres: "\<forall>b \<in> A. page_present m b \<longleftrightarrow> page_present (lvm s) b \<or> page_no b = page_no (seg_page ph)"
      using m(2) by (simp add: maps_page_def)
    let ?s = "s\<lparr>lvm := m, ram := place img ph (ram s)\<rparr>"
    have rest: "seg_ok A img q \<and> \<not> page_present (lvm ?s) (seg_page q)" if q: "q \<in> set (filter loads phs)" for q
    proof -
      have "q \<in> set (filter loads (ph # phs))" using q by simp
      then have old: "seg_ok A img q" "\<not> page_present (lvm s) (seg_page q)" using Cons.prems(3) by blast+
      have "filter loads (ph # phs) = ph # filter loads phs" using True by simp
      from Cons.prems(4) [unfolded this list.map distinct.simps set_map]
      have "page_no (seg_page ph) \<noteq> page_no (seg_page q)" using imageI [OF q, of "\<lambda>ph. page_no (seg_page ph)"] by metis
      moreover have "seg_page q \<in> A" using old(1) by (simp only: seg_ok_def)
      ultimately have "\<not> page_present m (seg_page q)" using pres old(2) by metis
      then show ?thesis using old(1) by simp
    qed
    have dist: "distinct (map (\<lambda>ph. page_no (seg_page ph)) (filter loads phs))" using Cons.prems(4) True by simp
    have "3 + 3 * length (filter loads phs) \<le> card P" using Cons.prems(7) True by simp
    from uses_pages_left [OF uses Cons.prems(5,6) this] obtain P' where
      P': "P' \<subseteq> mem_avail (lvm ?s)" "finite P'" "3 * length (filter loads phs) \<le> card P'" by auto
    have blank': "blank_space A (lvm ?s)" using blank by simp
    from Cons.IH [OF blank' tl ballI [OF rest] dist P'] obtain m2 where
      m2: "load_segments (length phs) (pos + 56) img ?s = Inr (?s\<lparr>lvm := m2, ram := fold (place img) (filter loads phs) (ram ?s)\<rparr>)"
      "blank_space A m2" "con m2 = con m" "cr3 m2 = cr3 m"
      "uses_pages (3 * length (filter loads phs)) (mem_avail m) (mem_avail m2)" "\<forall>b \<in> A. page_present m2 b \<longleftrightarrow> page_present m b \<or> page_no b \<in> seg_pages phs"
      by auto
    moreover have "con m = con (lvm s)" "cr3 m = cr3 (lvm s)" using m(2) by (simp_all add: maps_page_def)
    moreover have "uses_pages (3 * length (filter loads (ph # phs))) (mem_avail (lvm s)) (mem_avail m2)"
      by (rule uses_pages_trans [OF uses m2(5)]) (simp add: True)
    ultimately show ?thesis using hd m(1) True pres by (intro exI [of _ m2]) auto
  qed
qed

text \<open>The first module of a name is loaded.\<close>

lemma load_named_found:
  "terminated str \<Longrightarrow> \<forall>m \<in> set ms. terminated (mod_string m) \<Longrightarrow> find (\<lambda>m. cstr (mod_string m) = cstr str) ms = Some md \<Longrightarrow>
   read_elf_header (mod_image md) = Inr eh \<Longrightarrow>
   load_named ms str s = map_res (\<lambda>s. (e_entry eh, s)) (load_segments (e_phnum eh) (e_phoff eh) (mod_image md) s)"
proof (induction ms)
  case (Cons m ms)
  obtain r where r: "strcmp (mod_string m) str = Inr r" using strcmp_returns [of "mod_string m" str] Cons.prems(1,2) by auto
  have "r = 0 \<longleftrightarrow> cstr (mod_string m) = cstr str"
    using strcmp_zero_iff [of "mod_string m" str] r Cons.prems(1,2) by auto
  then show ?case using Cons r by (auto split: if_splits)
qed simp

section \<open>SYS_exec\<close>

lemma reset_memory_simps [simp]:
  "kvm (reset_memory s) = unmap_lower_half (cr3_root (kvm s)) (kvm s)" "kram (reset_memory s) = kram s"
  "boot_hdr (reset_memory s) = boot_hdr s" "mem_start (reset_memory s) = MMAP_MEM_START"
  by (simp_all add: reset_memory_def set_vm_def)

text \<open>Loading the first module of a name where its pages are not mapped.\<close>

lemma load_blank:
  assumes blank: "blank_space lower_half (kvm s)" and d: "terminated d" "cstr d = name"
    and hdr: "find_tag hdr MODULES_ID = Some (Modules_Tag ms)" "\<forall>m \<in> set ms. terminated (mod_string m)"
      "find (\<lambda>m. cstr (mod_string m) = name) ms = Some md"
    and elf: "read_elf_header (mod_image md) = Inr eh" "length phs = e_phnum eh"
      "\<forall>i < length phs. read_program_header (mod_image md) (e_phoff eh + 56 * of_nat i) = Inr (phs ! i)"
    and segs: "\<forall>ph \<in> set (filter loads phs). seg_ok lower_half (mod_image md) ph"
      "distinct (map (\<lambda>ph. page_no (seg_page ph)) (filter loads phs))"
    and absent: "\<forall>b \<in> lower_half. page_no b \<in> seg_pages phs \<longrightarrow> \<not> page_present (kvm s) b"
    and P: "P \<subseteq> mem_avail (kvm s)" "finite P" "3 * length (filter loads phs) \<le> card P"
  shows "\<exists>m. loading (load_module hdr d) s
      = Inr (e_entry eh, set_vm m (s\<lparr>kram := fold (place (mod_image md)) (filter loads phs) (kram s)\<rparr>))
    \<and> blank_space lower_half m \<and> con m = kcon s
    \<and> uses_pages (3 * length (filter loads phs)) (mem_avail (kvm s)) (mem_avail m)
    \<and> (\<forall>b \<in> lower_half. page_present m b \<longleftrightarrow> page_present (kvm s) b \<or> page_no b \<in> seg_pages phs)"
proof -
  let ?ld = "\<lparr>lvm = kvm s, ram = kram s\<rparr>"
  have blank': "blank_space lower_half (lvm ?ld)" and P': "P \<subseteq> mem_avail (lvm ?ld)" using blank P(1) by simp_all
  have ok: "seg_ok lower_half (mod_image md) ph \<and> \<not> page_present (lvm ?ld) (seg_page ph)" if "ph \<in> set (filter loads phs)" for ph
  proof -
    have "seg_ok lower_half (mod_image md) ph" using segs(1) that by blast
    moreover from this have "seg_page ph \<in> lower_half" by (simp only: seg_ok_def)
    moreover have "page_no (seg_page ph) \<in> seg_pages phs" using that by (rule imageI)
    ultimately show ?thesis using absent by simp
  qed
  from load_segments_blank [OF blank' elf(3) [rule_format] ballI [OF ok] segs(2) P' P(2,3)] obtain m where
    m: "load_segments (length phs) (e_phoff eh) (mod_image md) ?ld
        = Inr (?ld\<lparr>lvm := m, ram := fold (place (mod_image md)) (filter loads phs) (ram ?ld)\<rparr>)"
      "blank_space lower_half m" "con m = con (lvm ?ld)"
      "uses_pages (3 * length (filter loads phs)) (mem_avail (lvm ?ld)) (mem_avail m)"
      "\<forall>b \<in> lower_half. page_present m b \<longleftrightarrow> page_present (lvm ?ld) b \<or> page_no b \<in> seg_pages phs" by blast
  have "load_named ms d ?ld = map_res (\<lambda>s. (e_entry eh, s)) (load_segments (e_phnum eh) (e_phoff eh) (mod_image md) ?ld)"
    by (rule load_named_found [OF d(1) hdr(2) _ elf(1)]) (simp add: d(2) hdr(3))
  then have "loading (load_module hdr d) s
      = Inr (e_entry eh, set_vm m (s\<lparr>kram := fold (place (mod_image md)) (filter loads phs) (kram s)\<rparr>))"
    using m(1) hdr(1) elf(2) by (simp add: load_module_def loading_def)
  then show ?thesis using m(2-) by (intro exI [of _ m]) simp
qed

text \<open>Clearing the lower half first.\<close>

lemma reload:
  assumes tree: "tree_ok (kvm s)" and inv: "mem_inv (kvm s)" "\<forall>p \<in> mem_avail (kvm s). phys p" "term_ok (kcon s)"
    and d: "terminated d" "cstr d = name"
    and mod: "find_tag (boot_hdr s) MODULES_ID = Some (Modules_Tag ms)" "\<forall>m \<in> set ms. terminated (mod_string m)"
      "find (\<lambda>m. cstr (mod_string m) = name) ms = Some md"
      "read_elf_header (mod_image md) = Inr eh" "length phs = e_phnum eh"
      "\<forall>i < length phs. read_program_header (mod_image md) (e_phoff eh + 56 * of_nat i) = Inr (phs ! i)"
      "\<forall>ph \<in> set (filter loads phs). seg_ok lower_half (mod_image md) ph"
      "distinct (map (\<lambda>ph. page_no (seg_page ph)) (filter loads phs))"
    and P: "P \<subseteq> mem_avail (kvm s) \<union> set (lower_tables (kvm s))" "finite P" "3 * length (filter loads phs) \<le> card P"
  shows "\<exists>s'. loading (load_module (boot_hdr s) d) (reset_memory s) = Inr (e_entry eh, s') \<and> mem_start s' = MMAP_MEM_START
    \<and> blank_space lower_half (kvm s') \<and> (\<forall>b \<in> lower_half. page_present (kvm s') b \<longleftrightarrow> page_no b \<in> seg_pages phs)
    \<and> kram s' = fold (place (mod_image md)) (filter loads phs) (kram s) \<and> kcon s' = kcon s
    \<and> uses_pages (3 * length (filter loads phs)) (mem_avail (kvm s) \<union> set (lower_tables (kvm s))) (mem_avail (kvm s'))"
proof -
  let ?s = "reset_memory s"
  note free = unmap_lower_half_frees [OF tree inv(1,2)]
  have same: "m\<lparr>con := c\<rparr> = m" if "con m = c" for m :: mem_state and c using that by auto
  have blank: "blank_space lower_half (kvm ?s)" using free(2) [OF inv(3)] same [OF free(7)] by simp
  have none: "\<not> page_present (kvm ?s) b" if "b \<in> lower_half" for b using free(3) [OF that] by simp
  then have absent: "\<forall>b \<in> lower_half. page_no b \<in> seg_pages phs \<longrightarrow> \<not> page_present (kvm ?s) b" by blast
  have avail: "mem_avail (kvm ?s) = mem_avail (kvm s) \<union> set (lower_tables (kvm s))" using free(1) by simp
  have P': "P \<subseteq> mem_avail (kvm ?s)" using P(1) avail by simp
  from load_blank [OF blank d mod absent P' P(2,3)] obtain m where m:
    "loading (load_module (boot_hdr s) d) ?s
      = Inr (e_entry eh, set_vm m (?s\<lparr>kram := fold (place (mod_image md)) (filter loads phs) (kram ?s)\<rparr>))"
    "blank_space lower_half m" "con m = kcon ?s"
    "uses_pages (3 * length (filter loads phs)) (mem_avail (kvm ?s)) (mem_avail m)"
    "\<forall>b \<in> lower_half. page_present m b \<longleftrightarrow> page_present (kvm ?s) b \<or> page_no b \<in> seg_pages phs" by blast
  have "con m = kcon s" using m(3) free(7) by simp
  moreover have "\<forall>b \<in> lower_half. page_present m b \<longleftrightarrow> page_no b \<in> seg_pages phs" using m(5) none by blast
  ultimately show ?thesis using m(1,2,4) unfolding avail by (simp add: set_vm_def)
qed

lemma exec_loads:
  assumes "tree_ok (kvm s)" and "mem_inv (kvm s)" and "\<forall>p \<in> mem_avail (kvm s). phys p" and "term_ok (kcon s)"
    and name: "user_string module s = name @ [0]" "0 \<notin> set name" "length name < 100"
    and "find_tag (boot_hdr s) MODULES_ID = Some (Modules_Tag ms)" and "\<forall>m \<in> set ms. terminated (mod_string m)"
    and "find (\<lambda>m. cstr (mod_string m) = name) ms = Some md"
    and "read_elf_header (mod_image md) = Inr eh" and "length phs = e_phnum eh"
    and "\<forall>i < length phs. read_program_header (mod_image md) (e_phoff eh + 56 * of_nat i) = Inr (phs ! i)"
    and "\<forall>ph \<in> set (filter loads phs). seg_ok lower_half (mod_image md) ph"
    and "distinct (map (\<lambda>ph. page_no (seg_page ph)) (filter loads phs))"
    and "P \<subseteq> mem_avail (kvm s) \<union> set (lower_tables (kvm s))" and "finite P" and "3 * length (filter loads phs) \<le> card P"
  shows "\<exists>s'. SYS_exec module s = Inr (Call (e_entry eh), s') \<and> mem_start s' = MMAP_MEM_START
    \<and> blank_space lower_half (kvm s') \<and> (\<forall>b \<in> lower_half. page_present (kvm s') b \<longleftrightarrow> page_no b \<in> seg_pages phs)
    \<and> kram s' = fold (place (mod_image md)) (filter loads phs) (kram s) \<and> kcon s' = kcon s"
proof -
  let ?l = "replicate 100 0 :: u8 list"
  have str: "terminated (name @ [0])" "cstr (name @ [0]) = name" using name(2) cstr_of_literal [of name "[]"] by simp_all
  have "length (cstr (name @ [0])) < length ?l" using str(2) name(3) by (simp only: length_replicate)
  from strcpy_fits [OF str(1) this] obtain d where d0: "strcpy ?l (name @ [0]) = Inr d" by blast
  have d: "strcpy ?l (user_string module s) = Inr d" "cstr d = name" "terminated d"
    using d0 strcpy_result [OF d0 str(1)] str(2) name(1) by simp_all
  have "boot_hdr (reset_memory s) = boot_hdr s" by simp
  then show ?thesis using reload [OF assms(1-4) d(3,2) assms(8-)] d(1)
    by (auto simp: SYS_exec_def Let_def)
qed

section \<open>SYS_exit\<close>

lemma stack_pages: "set (page_list USER_STACK 8) \<subseteq> lower_half"
proof -
  have "(8 :: nat) = Suc (Suc (Suc (Suc (Suc (Suc (Suc (Suc 0)))))))" by simp
  then show ?thesis by (simp only: page_list.simps) simp
qed

text \<open>Pages that are not mapped are mapped one after the other, if three free pages are left for each.\<close>

lemma map_stack_blank:
  "blank_space A m \<Longrightarrow> set (page_list p n) \<subseteq> A \<Longrightarrow> distinct (map page_no (page_list p n)) \<Longrightarrow>
   \<forall>b \<in> set (page_list p n). \<not> page_present m b \<Longrightarrow> P \<subseteq> mem_avail m \<Longrightarrow> finite P \<Longrightarrow> 3 * n \<le> card P \<Longrightarrow>
   \<exists>m'. map_stack n p m = Inr m' \<and> blank_space A m' \<and> con m' = con m \<and> cr3 m' = cr3 m
     \<and> uses_pages (3 * n) (mem_avail m) (mem_avail m')
     \<and> (\<forall>b \<in> A. page_present m' b \<longleftrightarrow> page_present m b \<or> page_no b \<in> page_no ` set (page_list p n))"
proof (induction n arbitrary: p m P)
  case (Suc n)
  note inv = blank_space_inv [OF Suc.prems(1)]
  have p: "p \<in> A" "\<not> page_present m p" "set (page_list (p + PAGESIZE) n) \<subseteq> A"
    "distinct (map page_no (page_list (p + PAGESIZE) n))" "page_no p \<notin> page_no ` set (page_list (p + PAGESIZE) n)"
    using Suc.prems(2-4) by simp_all
  have "3 \<le> card P" using Suc.prems(7) by simp
  then obtain m1 where m1: "vm_map (cr3_root m) p True True False m = Inr (True, m1)"
    using vm_map_succeeds [OF inv p(1,2) Suc.prems(5,6), of True True False] by blast
  note page = vm_map_maps_page [OF inv p(1) m1]
  have 1: "blank_space A m1" "con m1 = con m" "cr3 m1 = cr3 m"
    "\<forall>b \<in> A. page_present m1 b \<longleftrightarrow> page_present m b \<or> page_no b = page_no p"
    using page Suc.prems(1) by (simp_all add: maps_page_def)
  have fresh: "\<forall>b \<in> set (page_list (p + PAGESIZE) n). \<not> page_present m1 b"
  proof
    fix b assume b: "b \<in> set (page_list (p + PAGESIZE) n)"
    then have "page_no b \<noteq> page_no p" using p(5) by (metis image_eqI)
    moreover have "\<not> page_present m b" using b Suc.prems(4) by simp
    moreover have "b \<in> A" using b p(3) by blast
    ultimately show "\<not> page_present m1 b" using 1(4) by blast
  qed
  have "3 + 3 * n \<le> card P" using Suc.prems(7) by simp
  from uses_pages_left [OF maps_page_uses [OF page] Suc.prems(5,6) this] obtain P' where
    P': "P' \<subseteq> mem_avail m1" "finite P'" "3 * n \<le> card P'" by blast
  from Suc.IH [OF 1(1) p(3,4) fresh P'] obtain m' where m': "map_stack n (p + PAGESIZE) m1 = Inr m'"
    "blank_space A m'" "con m' = con m1" "cr3 m' = cr3 m1" "uses_pages (3 * n) (mem_avail m1) (mem_avail m')"
    "\<forall>b \<in> A. page_present m' b \<longleftrightarrow> page_present m1 b \<or> page_no b \<in> page_no ` set (page_list (p + PAGESIZE) n)" by blast
  have "uses_pages (3 * Suc n) (mem_avail m) (mem_avail m')"
    by (rule uses_pages_trans [OF maps_page_uses [OF page] m'(5)]) simp
  then show ?case using m1 m'(1-4,6) 1 by auto
qed simp

text \<open>The pages of the user stack.\<close>

abbreviation stack_nos :: "u64 set" where
  "stack_nos \<equiv> page_no ` set (page_list USER_STACK 8)"

lemma stack_list: "page_list USER_STACK 8 = [0x70000000000, 0x70000001000, 0x70000002000, 0x70000003000,
    0x70000004000, 0x70000005000, 0x70000006000, 0x70000007000]"
proof -
  have "(8 :: nat) = Suc (Suc (Suc (Suc (Suc (Suc (Suc (Suc 0)))))))" by simp
  then show ?thesis by (simp only: page_list.simps) simp
qed

lemma stack_distinct: "distinct (map page_no (page_list USER_STACK 8))"
  unfolding stack_list by (simp add: page_no_def bits_from_def drop_bit_eq_div take_bit_eq_mod)

lemma map_stack_exact:
  assumes "blank_space lower_half m" and "\<forall>b \<in> lower_half. page_no b \<in> stack_nos \<longrightarrow> \<not> page_present m b"
    and "P \<subseteq> mem_avail m" and "finite P" and "24 \<le> card P"
  shows "\<exists>m'. map_stack 8 USER_STACK m = Inr m' \<and> blank_space lower_half m' \<and> con m' = con m \<and> cr3 m' = cr3 m
     \<and> uses_pages 24 (mem_avail m) (mem_avail m')
     \<and> (\<forall>b \<in> lower_half. page_present m' b \<longleftrightarrow> page_present m b \<or> page_no b \<in> stack_nos)"
proof -
  have "\<forall>b \<in> set (page_list USER_STACK 8). \<not> page_present m b" using assms(2) stack_pages by blast
  moreover have "3 * 8 \<le> card P" "(3 * 8 :: nat) = 24" using assms(5) by simp_all
  ultimately show ?thesis using map_stack_blank [OF assms(1) stack_pages stack_distinct _ assms(3,4)] by metis
qed

text \<open>After a program has ended, \<open>init\<close> is loaded again and user mode entered with a new stack.\<close>

lemma exit_loads:
  assumes "tree_ok (kvm s)" and "mem_inv (kvm s)" and "\<forall>p \<in> mem_avail (kvm s). phys p" and "term_ok (kcon s)"
    and "find_tag (boot_hdr s) MODULES_ID = Some (Modules_Tag ms)" and "\<forall>m \<in> set ms. terminated (mod_string m)"
    and "find (\<lambda>m. cstr (mod_string m) = bytes_of ''init'') ms = Some md"
    and "read_elf_header (mod_image md) = Inr eh" and "length phs = e_phnum eh"
    and "\<forall>i < length phs. read_program_header (mod_image md) (e_phoff eh + 56 * of_nat i) = Inr (phs ! i)"
    and "\<forall>ph \<in> set (filter loads phs). seg_ok lower_half (mod_image md) ph"
    and "distinct (map (\<lambda>ph. page_no (seg_page ph)) (filter loads phs))"
    and "P \<subseteq> mem_avail (kvm s) \<union> set (lower_tables (kvm s))" and "finite P" and "24 + 3 * length (filter loads phs) \<le> card P"
    and "seg_pages phs \<inter> stack_nos = {}"
  shows "\<exists>s'. SYS_exit s = Inr (Usermode (USER_DATA_SELECTOR OR 3) (USER_STACK + 8 * 0x1000 - 8) (USER_CODE_SELECTOR OR 3) (e_entry eh), s')
    \<and> mem_start s' = MMAP_MEM_START \<and> blank_space lower_half (kvm s')
    \<and> (\<forall>b \<in> lower_half. page_present (kvm s') b \<longleftrightarrow> page_no b \<in> seg_pages phs \<union> stack_nos)
    \<and> kram s' = fold (place (mod_image md)) (filter loads phs) (kram s) \<and> kcon s' = kcon s"
proof -
  have str: "terminated (c_lit ''init'')" "cstr (c_lit ''init'') = bytes_of ''init''" by (simp_all add: c_lit_def bytes_of_def)
  let ?n = "3 * length (filter loads phs)"
  have room: "?n \<le> card P" "?n + 24 \<le> card P" using assms(15) by linarith+
  obtain t where t: "loading (load_module (boot_hdr s) (c_lit ''init'')) (reset_memory s) = Inr (e_entry eh, t)"
    "mem_start t = MMAP_MEM_START" "blank_space lower_half (kvm t)"
    "\<forall>b \<in> lower_half. page_present (kvm t) b \<longleftrightarrow> page_no b \<in> seg_pages phs"
    "kram t = fold (place (mod_image md)) (filter loads phs) (kram s)" "kcon t = kcon s"
    "uses_pages ?n (mem_avail (kvm s) \<union> set (lower_tables (kvm s))) (mem_avail (kvm t))"
    using reload [OF assms(1-4) str assms(5-14) room(1)] by blast
  obtain P' where P': "P' \<subseteq> mem_avail (kvm t)" "finite P'" "24 \<le> card P'"
    using uses_pages_left [OF t(7) assms(13,14) room(2)] by blast
  have "\<forall>b \<in> lower_half. page_no b \<in> stack_nos \<longrightarrow> \<not> page_present (kvm t) b" using t(4) assms(16) by blast
  from map_stack_exact [OF t(3) this P'] obtain m where m: "map_stack 8 USER_STACK (kvm t) = Inr m"
    "blank_space lower_half m" "con m = kcon t"
    "\<forall>b \<in> lower_half. page_present m b \<longleftrightarrow> page_present (kvm t) b \<or> page_no b \<in> stack_nos" by blast
  have "SYS_exit s = Inr (Usermode (USER_DATA_SELECTOR OR 3) (USER_STACK + 8 * 0x1000 - 8) (USER_CODE_SELECTOR OR 3) (e_entry eh), set_vm m t)"
    using t(1) m(1) by (simp add: SYS_exit_def Let_def)
  moreover have "\<forall>b \<in> lower_half. page_present m b \<longleftrightarrow> page_no b \<in> seg_pages phs \<union> stack_nos" using m(4) t(4) by blast
  moreover have "kvm (set_vm m t) = m" "mem_start (set_vm m t) = mem_start t" "kram (set_vm m t) = kram t" by (simp_all add: set_vm_def)
  ultimately show ?thesis using t(2,5,6) m(2,3) by metis
qed

end
