(* ===== verification/Upkeep.thy ===== *)
theory Upkeep
  imports Reclaim Running
begin

text \<open>
  The invariant of memory across a system call: whatever the number and the arguments, a call that
  returns keeps the lower half in order and loses no page (\<open>upkeep\<close>), as long as the pages it maps
  lie in the lower half.
\<close>

section \<open>Printing\<close>

lemma kprintf_term: "term_ok c \<Longrightarrow> kprintf fmt args c = Inr c' \<Longrightarrow> term_ok c'"
proof -
  assume c: "term_ok c" and run: "kprintf fmt args c = Inr c'"
  then obtain out where "puts term_putchar out c = Inr c'" using kprintf_prints [OF c, of fmt args] by auto
  then show ?thesis using console.puts_ok [OF c, of out] by auto
qed

lemma con_upkeep:
  assumes "term_ok (con m) \<Longrightarrow> term_ok c"
  shows "upkeep m (m\<lparr>con := c\<rparr>)"
  unfolding upkeep_def
proof
  assume r: "reclaimable m"
  then have blank: "blank_space lower_half m" by (simp add: reclaimable_def)
  have "blank_space lower_half (m\<lparr>con := c\<rparr>)" using blank_space_con [OF blank] assms reclaimable_tree(4) [OF r] by blast
  moreover have "pool (m\<lparr>con := c\<rparr>) = pool m" by (rule pool_cells) simp_all
  ultimately show "reclaimable (m\<lparr>con := c\<rparr>) \<and> pool (m\<lparr>con := c\<rparr>) = pool m \<and> cr3 (m\<lparr>con := c\<rparr>) = cr3 m"
    using r by (simp add: reclaimable_def)
qed

lemma mprintf_upkeep: "mprintf fmt args m = Inr m' \<Longrightarrow> upkeep m m'"
  using kprintf_term by (auto simp: mprintf_def intro: con_upkeep)

section \<open>Mapping\<close>

lemma tlb_upkeep: "upkeep m (invalidate_tlb b m)"
proof -
  let ?m = "invalidate_tlb b m"
  have f: "cells ?m = cells m" "hhdm_addr ?m = hhdm_addr m" "cr3 ?m = cr3 m" "freelist ?m = freelist m" "con ?m = con m"
    by (simp_all add: invalidate_tlb_def)
  have av: "mem_avail ?m = mem_avail m" by (simp add: mem_avail_def fl_inv_tlb)
  have "blank_space lower_half ?m" if "reclaimable m"
    using that vm_inv_cells(2) [of ?m m] f reclaimable_tree(4) [OF that] by (simp add: reclaimable_def)
  then show ?thesis using pool_cells [OF f(1-3) av] f by (simp add: upkeep_def reclaimable_def)
qed

lemma vm_protect_upkeep: "vm_protect root a u w x m = (rc, m') \<Longrightarrow> upkeep m m'"
  using tlb_upkeep by (auto simp: vm_protect_def vm_protect_copy_def Let_def split: option.splits if_splits)

lemma map_or_warn_upkeep:
  assumes "a \<in> lower_half" and "map_or_warn (cr3_root m) a u w x m = Inr m'"
  shows "upkeep m m'"
proof -
  obtain rc m1 where m1: "vm_map (cr3_root m) a u w x m = Inr (rc, m1)" "rc \<and> m' = m1
      \<or> mprintf (c_lit (''Panic, vm_map didn'' @ [CHR 0x27] @ ''t map the modules'' @ [CHR 0x0A])) [] m1 = Inr m'"
    using assms(2) by (auto simp: map_or_warn_def split: if_splits)
  have "upkeep m m1" by (rule vm_map_upkeep [OF assms(1) m1(1)])
  moreover have "upkeep m1 m'" using m1(2) mprintf_upkeep by auto
  ultimately show ?thesis by (rule upkeep_trans)
qed

text \<open>The loop of \<open>SYS_mmap\<close> returns for whole pages only.\<close>

lemma mmap_loop_upkeep:
  assumes run: "mmap_loop root u w x len a m = Some (Inr m')"
  shows "aligned len" and "root = cr3_root m \<Longrightarrow> unat a + unat len \<le> 2 ^ 47 \<Longrightarrow> upkeep m m'"
proof -
  let ?P = "\<lambda>root u w x len a m r. \<forall>m'. r = Inr m' \<longrightarrow> aligned len
      \<and> (root = cr3_root m \<longrightarrow> unat a + unat len \<le> 2 ^ 47 \<longrightarrow> upkeep m m')"
  obtain v where v: "v = (Inr m' :: mem_state res)" by simp
  have run': "mmap_loop root u w x len a m = Some v" using run v by simp
  have "?P root u w x len a m v"
  proof (rule mmap_loop.raw_induct [where P = ?P, OF _ run'])
    fix rec root u w x len a m r
    assume IH: "\<And>root u w x len a m r. rec root u w x len a m = Some r \<Longrightarrow> ?P root u w x len a m r"
      and body: "(if len > 0 then
         (case map_or_warn root a u w x m of Inl e \<Rightarrow> Some (Inl e)
          | Inr m \<Rightarrow> rec root u w x (len - PAGESIZE) (a + PAGESIZE) m) else Some (Inr m)) = Some r"
    show "?P root u w x len a m r"
    proof (intro allI impI)
      fix m' assume r: "r = Inr m'"
      show "aligned len \<and> (root = cr3_root m \<longrightarrow> unat a + unat len \<le> 2 ^ 47 \<longrightarrow> upkeep m m')"
      proof (cases "len > 0")
        case True
        then obtain m1 where m1: "map_or_warn root a u w x m = Inr m1"
          "rec root u w x (len - PAGESIZE) (a + PAGESIZE) m1 = Some r"
          using body r by (cases "map_or_warn root a u w x m") auto
        note rest = IH [OF m1(2), rule_format, OF r]
        then have al: "aligned len" using aligned_add [of "len - PAGESIZE" PAGESIZE] by simp
        have "upkeep m m'" if root: "root = cr3_root m" and le: "unat a + unat len \<le> 2 ^ 47"
        proof -
          have len: "4096 \<le> unat len" using al True by (auto simp: aligned_def word_less_nat_alt dvd_def)
          have "unat a < 2 ^ 47" using len le by linarith
          then have low: "a \<in> lower_half" by simp
          have up: "upkeep m m1" using map_or_warn_upkeep [OF low] m1(1) root by simp
          have "unat (len - PAGESIZE) = unat len - 4096" using len by (subst unat_sub_small) (simp_all add: word_le_nat_alt)
          moreover have "unat (a + PAGESIZE) = unat a + 4096" using len le by (subst unat_add_small) simp_all
          ultimately have le': "unat (a + PAGESIZE) + unat (len - PAGESIZE) \<le> 2 ^ 47" using len le by linarith
          show ?thesis
          proof (cases "reclaimable m")
            case True
            then have "root = cr3_root m1" using up root by (simp add: upkeep_def read_cr3_def)
            then have "upkeep m1 m'" using rest le' by blast
            then show ?thesis by (rule upkeep_trans [OF up])
          qed (simp add: upkeep_def)
        qed
        then show ?thesis using al by blast
      next
        case False
        then have "len = 0" by (simp add: word_gt_0)
        then show ?thesis using body r by (simp add: aligned_def)
      qed
    qed
  qed
  then show "aligned len" "root = cr3_root m \<Longrightarrow> unat a + unat len \<le> 2 ^ 47 \<Longrightarrow> upkeep m m'" using v by blast+
qed
section \<open>Loading a program\<close>

lemma copy_image_vm: "copy_image i n d src s = Inr s' \<Longrightarrow> lvm s' = lvm s"
  by (induction i n d src s rule: copy_image.induct)
    (auto simp: store_byte_def split: option.splits if_splits)

lemma lprintf_upkeep: "lprintf fmt args s = Inr s' \<Longrightarrow> upkeep (lvm s) (lvm s')"
  using mprintf_upkeep by (auto simp: lprintf_def)

lemma load_segment_upkeep:
  assumes low: "loads ph \<Longrightarrow> seg_page ph \<in> lower_half" and run: "load_segment img ph s = Inr s'"
  shows "upkeep (lvm s) (lvm s')"
proof (cases "loads ph")
  case False
  then show ?thesis using run by (auto simp: load_segment_def loads_def)
next
  case True
  let ?root = "cr3_root (lvm s)"
  obtain rc m where m: "vm_map ?root (seg_page ph) True True True (lvm s) = Inr (rc, m)"
    using run True by (auto simp: load_segment_def loads_def Let_def)
  have rc: rc
    using run True m by (cases rc) (auto simp: load_segment_def loads_def Let_def)
  obtain s1 m' b where s1: "copy_image 0 (unat (p_memsz ph)) (p_vaddr ph) (drop (unat (p_offset ph)) img) (s\<lparr>lvm := m\<rparr>) = Inr s1"
    "vm_protect ?root (seg_page ph) True (bit (p_flags ph) 1) (bit (p_flags ph) 0) (lvm s1) = (b, m')" "s' = s1\<lparr>lvm := m'\<rparr>"
    using run True m rc by (auto simp: load_segment_def loads_def Let_def split: prod.splits)
  have "upkeep (lvm s) m" by (rule vm_map_upkeep [OF low [OF True] m])
  moreover have "lvm s1 = m" using copy_image_vm [OF s1(1)] by simp
  ultimately show ?thesis using vm_protect_upkeep [OF s1(2)] s1(3) upkeep_trans by auto
qed

text \<open>The pages of the segments lie in the lower half: for an image, and for all modules.\<close>

definition segs_low :: "u8 list \<Rightarrow> u64 \<Rightarrow> nat \<Rightarrow> bool" where
  "segs_low img pos n \<longleftrightarrow> (\<forall>i < n. \<forall>ph. read_program_header img (pos + 56 * of_nat i) = Inr ph
     \<longrightarrow> loads ph \<longrightarrow> seg_page ph \<in> lower_half)"

definition modules_low :: "boot_module list \<Rightarrow> bool" where
  "modules_low ms \<longleftrightarrow> (\<forall>md \<in> set ms. \<forall>eh. read_elf_header (mod_image md) = Inr eh
     \<longrightarrow> segs_low (mod_image md) (e_phoff eh) (e_phnum eh))"

lemma load_segments_upkeep:
  "segs_low img pos n \<Longrightarrow> load_segments n pos img s = Inr s' \<Longrightarrow> upkeep (lvm s) (lvm s')"
proof (induction n arbitrary: pos s)
  case (Suc n)
  obtain ph s1 where ph: "read_program_header img pos = Inr ph" "load_segment img ph s = Inr s1"
    "load_segments n (pos + 56) img s1 = Inr s'" using Suc.prems(2) by auto
  have "segs_low img (pos + 56) n"
    unfolding segs_low_def
  proof (intro allI impI)
    fix i ph assume i: "i < n" "read_program_header img (pos + 56 + 56 * of_nat i) = Inr ph" "loads ph"
    then have "read_program_header img (pos + 56 * of_nat (Suc i)) = Inr ph" by (simp add: algebra_simps)
    then show "seg_page ph \<in> lower_half" using Suc.prems(1) i(1,3) unfolding segs_low_def by (metis Suc_less_eq)
  qed
  then have rest: "upkeep (lvm s1) (lvm s')" using Suc.IH ph(3) by blast
  have "read_program_header img (pos + 56 * of_nat 0) = Inr ph" using ph(1) by simp
  then have "loads ph \<Longrightarrow> seg_page ph \<in> lower_half" using Suc.prems(1) unfolding segs_low_def by blast
  then have "upkeep (lvm s) (lvm s1)" using load_segment_upkeep ph(2) by blast
  then show ?case using rest by (rule upkeep_trans)
qed simp

lemma load_named_upkeep:
  "modules_low ms \<Longrightarrow> load_named ms str s = Inr (f, s') \<Longrightarrow> upkeep (lvm s) (lvm s')"
proof (induction ms)
  case (Cons md ms)
  obtain r where r: "strcmp (mod_string md) str = Inr r" using Cons.prems(2) by auto
  show ?case
  proof (cases "r = 0")
    case False
    then show ?thesis using Cons r by (auto simp: modules_low_def)
  next
    case True
    then obtain eh where "read_elf_header (mod_image md) = Inr eh"
      "load_segments (e_phnum eh) (e_phoff eh) (mod_image md) s = Inr s'" using Cons.prems(2) r by auto
    then show ?thesis using Cons.prems(1) load_segments_upkeep by (auto simp: modules_low_def)
  qed
qed simp

lemma load_module_upkeep:
  assumes "\<And>ms. find_tag hdr MODULES_ID = Some (Modules_Tag ms) \<Longrightarrow> modules_low ms"
    and "loading (load_module hdr str) s = Inr (f, s')"
  shows "upkeep (kvm s) (kvm s')"
  using assms load_named_upkeep
  by (fastforce simp: loading_def load_module_def split: option.splits stivale_tag.splits)

section \<open>The system calls\<close>

lemma reset_upkeep: "upkeep (kvm s) (kvm (reset_memory s))"
  using unmap_upkeep(1) by (cases "reclaimable (kvm s)") (simp_all add: upkeep_def)

abbreviation programs_low :: "kstate \<Rightarrow> bool" where
  "programs_low s \<equiv> (\<forall>ms. find_tag (boot_hdr s) MODULES_ID = Some (Modules_Tag ms) \<longrightarrow> modules_low ms)"

lemma exec_upkeep:
  assumes "programs_low s" and "SYS_exec module s = Inr (r, s')"
  shows "upkeep (kvm s) (kvm s')"
proof -
  obtain d f where d: "loading (load_module (boot_hdr s) d) (reset_memory s) = Inr (f, s')"
    using assms(2) by (auto simp: SYS_exec_def Let_def)
  have "upkeep (kvm (reset_memory s)) (kvm s')" by (rule load_module_upkeep [OF _ d]) (use assms(1) in blast)
  then show ?thesis by (rule upkeep_trans [OF reset_upkeep])
qed

lemma map_stack_upkeep: "set (page_list p n) \<subseteq> lower_half \<Longrightarrow> map_stack n p m = Inr m' \<Longrightarrow> upkeep m m'"
proof (induction n arbitrary: p m)
  case (Suc n)
  then obtain rc m1 where m1: "vm_map (cr3_root m) p True True False m = Inr (rc, m1)" "map_stack n (p + 0x1000) m1 = Inr m'"
    by auto
  have low: "p \<in> lower_half" "set (page_list (p + 0x1000) n) \<subseteq> lower_half" using Suc.prems(1) by simp_all
  show ?case using vm_map_upkeep [OF low(1) m1(1)] Suc.IH [OF low(2) m1(2)] by (rule upkeep_trans)
qed simp

lemma exit_upkeep:
  assumes "programs_low s" and "SYS_exit s = Inr (r, s')"
  shows "upkeep (kvm s) (kvm s')"
proof -
  obtain f t m where t: "loading (load_module (boot_hdr s) (c_lit ''init'')) (reset_memory s) = Inr (f, t)"
    "map_stack 8 USER_STACK (kvm t) = Inr m" "s' = set_vm m t"
    using assms(2) by (auto simp: SYS_exit_def Let_def)
  have "upkeep (kvm (reset_memory s)) (kvm t)" by (rule load_module_upkeep [OF _ t(1)]) (use assms(1) in blast)
  then have "upkeep (kvm s) (kvm t)" by (rule upkeep_trans [OF reset_upkeep])
  then show ?thesis using map_stack_upkeep [OF stack_pages t(2)] t(3) upkeep_trans by simp
qed

text \<open>The pages that \<open>SYS_mmap\<close> maps lie in the lower half.\<close>

definition mmap_low :: "u64 \<Rightarrow> u64 \<Rightarrow> kstate \<Rightarrow> bool" where
  "mmap_low addr len s \<longleftrightarrow>
    (if addr = 0 then unat (mem_start s) + unat len \<le> 2 ^ 47
     else let page = addr AND NOT 0xFFF; first = (if page = addr then PAGESIZE else PAGESIZE - (addr - page)) in
       page \<in> lower_half \<and> unat (page + PAGESIZE) + unat (len - first) \<le> 2 ^ 47)"

lemma mmap_upkeep:
  assumes low: "mmap_low addr len s" and run: "SYS_mmap addr len prot s = Inr (r, s')"
  shows "upkeep (kvm s) (kvm s')"
proof -
  let ?root = "cr3_root (kvm s)"
  have loop: "upkeep m m'" if "run_loop (mmap_loop root u w x l a m) = Inr m'" "root = cr3_root m" "unat a + unat l \<le> 2 ^ 47"
    for root u w x l a m m'
    using that mmap_loop_upkeep(2) [of root u w x l a m m'] by (auto simp: run_loop_def split: option.splits)
  show ?thesis
  proof (cases "addr = 0")
    case True
    then obtain m where m: "run_loop (mmap_loop ?root (bit prot 0) (bit prot 1) (bit prot 2) len (mem_start s) (kvm s)) = Inr m"
      "kvm s' = m"
      using run by (auto simp: SYS_mmap_def Let_def set_vm_def)
    have "unat (mem_start s) + unat len \<le> 2 ^ 47" using low True by (simp add: mmap_low_def)
    from loop [OF m(1) refl this] show ?thesis unfolding m(2) .
  next
    case False
    obtain page where page: "addr AND NOT 0xFFF = page" by blast
    let ?first = "if page = addr then PAGESIZE else PAGESIZE - (addr - page)"
    obtain m1 m2 where m: "map_or_warn ?root page True True True (kvm s) = Inr m1"
      "run_loop (mmap_loop ?root (bit prot 0) (bit prot 1) (bit prot 2) (len - ?first) (page + PAGESIZE) m1) = Inr m2" "kvm s' = m2"
      using run [unfolded SYS_mmap_def Let_def page] False by (auto simp: set_vm_def)
    have l: "page \<in> lower_half" "unat (page + PAGESIZE) + unat (len - ?first) \<le> 2 ^ 47"
      using low [unfolded mmap_low_def Let_def page] False by simp_all
    have up: "upkeep (kvm s) m1" by (rule map_or_warn_upkeep [OF l(1) m(1)])
    show ?thesis
    proof (cases "reclaimable (kvm s)")
      case True
      then have "?root = cr3_root m1" using up by (simp add: upkeep_def read_cr3_def)
      then have "upkeep m1 m2" using loop [OF m(2) _ l(2)] by blast
      then show ?thesis using up m(3) upkeep_trans by simp
    qed (simp add: upkeep_def)
  qed
qed

text \<open>Reading keys and writing text change nothing but the terminal.\<close>

lemma handler_term: "keyboard_handler (c, k) = Inr (c', k') \<Longrightarrow> term_ok c \<Longrightarrow> term_ok c'"
  using kprintf_term by (auto simp: keyboard_handler_def Let_def split: if_splits)

lemma kgetc_term: "kgetc ks (c, k) = Inr (x, ks', c', k') \<Longrightarrow> term_ok c \<Longrightarrow> term_ok c'"
proof (induction ks arbitrary: c k)
  case Nil
  then show ?case by (auto simp: kgetc.simps split: option.splits)
next
  case (Cons code ks)
  show ?case
  proof (cases "buffer_get k")
    case (Some r)
    then show ?thesis using Cons.prems by (auto simp: kgetc.simps split: prod.splits)
  next
    case None
    then obtain c1 k1 where h: "keyboard_handler (key_event code c, k) = Inr (c1, k1)" "kgetc ks (c1, k1) = Inr (x, ks', c', k')"
      using Cons.prems(1) by (auto simp: kgetc.simps)
    then show ?thesis using Cons.IH [OF h(2)] handler_term [OF h(1)] Cons.prems(2) by simp
  qed
qed

lemma set_con_upkeep: "(term_ok (kcon s) \<Longrightarrow> term_ok c) \<Longrightarrow> upkeep (kvm s) (kvm (set_con c s))"
  by (simp add: set_con_def set_vm_def con_upkeep)

lemma next_key_upkeep: "next_key s = Inr (x, s') \<Longrightarrow> upkeep (kvm s) (kvm s')"
  using kgetc_term by (auto simp: next_key_def set_con_def set_vm_def intro!: con_upkeep)

lemma user_store_vm: "user_store a b s = Inr s' \<Longrightarrow> kvm s' = kvm s"
  by (auto simp: user_store_def split: option.splits)

lemma read_upkeep: "sys_read_loop i len buffer s = Inr (r, s') \<Longrightarrow> upkeep (kvm s) (kvm s')"
proof (induction i len buffer s rule: sys_read_loop.induct)
  case (1 i len buffer s)
  show ?case
  proof (cases "i < len")
    case False
    then show ?thesis using 1(4) by (simp add: sys_read_loop.simps)
  next
    case True
    then obtain c s1 where s1: "next_key s = Inr (c, s1)" using 1(4) by (auto simp: sys_read_loop.simps [of i])
    note up = next_key_upkeep [OF s1]
    consider "c = 8" "i > 0" | "c \<noteq> 8" | "c = 8" "\<not> i > 0" by blast
    then have "upkeep (kvm s1) (kvm s')"
    proof cases
      case 1
      then show ?thesis using "1.IH"(1) [OF True s1 refl] "1.prems" s1 True by (simp add: sys_read_loop.simps [of i])
    next
      case 2
      then obtain s2 where s2: "user_store (buffer + word_of_int i) c s1 = Inr s2" "sys_read_loop (i + 1) len buffer s2 = Inr (r, s')"
        using "1.prems" s1 True by (auto simp: sys_read_loop.simps [of i])
      then show ?thesis using "1.IH"(2) [OF True s1 refl _ 2 s2(1)] 2 user_store_vm [OF s2(1)] by simp
    next
      case 3
      then show ?thesis using "1.IH"(3) [OF True s1 refl] "1.prems" s1 True by (simp add: sys_read_loop.simps [of i])
    qed
    then show ?thesis by (rule upkeep_trans [OF up])
  qed
qed

lemma write_term: "write_loop n buf c = Inr c' \<Longrightarrow> term_ok c \<Longrightarrow> term_ok c'"
  by (induction n buf c rule: write_loop.induct) (auto dest: kprintf_term)

section \<open>The file calls\<close>

lemma store_block_vm: "store_block p b s = Inr s' \<Longrightarrow> fds s' = fds s"
  by (auto simp: store_block_def split: option.splits if_splits)

lemma alloc_blocks_vm: "alloc_blocks n c s = Inr (b, s') \<Longrightarrow> fds s' = fds s"
proof (induction n arbitrary: c s)
  case (Suc n)
  show ?case
  proof (cases "free_list s = 0")
    case False
    then obtain s2 where s2: "fds s2 = fds s" "alloc_blocks n (free_list s) s2 = Inr (b, s')"
      using Suc.prems by (auto simp: Let_def split: if_splits dest!: store_block_vm)
    then show ?thesis using Suc.IH [OF s2(2)] by simp
  qed (use Suc.prems in simp)
qed simp

lemma write_bytes_vm: "write_bytes n buff c wp s = Inr s' \<Longrightarrow> fds s' = fds s"
proof (induction n arbitrary: buff c wp s)
  case (Suc n)
  have "\<exists>s1 buff' c' wp'. fds s1 = fds s \<and> write_bytes n buff' c' wp' s1 = Inr s'"
    using Suc.prems by (auto simp: write_bytes.simps split: list.splits if_splits dest!: store_block_vm) blast+
  then show ?case using Suc.IH by metis
qed (simp add: write_bytes.simps)

lemma fs_write_at_vm: "fs_write_at fd i buf sz s = Inr (b, s') \<Longrightarrow> fds s' = fds s"
  by (auto simp: fs_write_at_def fs_grow_def set_entry_def Let_def dest!: write_bytes_vm alloc_blocks_vm split: option.splits if_splits)

lemma fs_append_vm: "fs_append fd buf sz s = Inr (b, s') \<Longrightarrow> fds s' = fds s"
  by (auto simp: fs_append_def dest!: fs_write_at_vm split: option.splits)

lemma fs_rename_vm: "fs_rename old new s = Inr (b, s') \<Longrightarrow> fds s' = fds s"
  by (auto simp: fs_rename_def set_entry_def split: option.splits)

abbreviation fvm :: "fs_state \<Rightarrow> mem_state" where "fvm t \<equiv> vm (fds t)"

lemma fs_print_upkeep: "fs_print fmt args t = Inr t' \<Longrightarrow> upkeep (fvm t) (fvm t')"
  using mprintf_upkeep by (auto simp: fs_print_def)

lemma read_data_upkeep: "read_data cs t = Inr t' \<Longrightarrow> upkeep (fvm t) (fvm t')"
proof (induction cs arbitrary: t)
  case (Cons c cs)
  then obtain t1 where t1: "fs_print (c_lit ''%c'') [Word_Arg (ucast c)] t = Inr t1" "read_data cs t1 = Inr t'" by auto
  show ?case using fs_print_upkeep [OF t1(1)] Cons.IH [OF t1(2)] by (rule upkeep_trans)
qed simp

lemma read_loop_upkeep: "read_loop c n t = Some r \<Longrightarrow> \<forall>t'. r = Inr t' \<longrightarrow> upkeep (fvm t) (fvm t')"
proof (rule read_loop.raw_induct [where P = "\<lambda>c n t r. \<forall>t'. r = Inr t' \<longrightarrow> upkeep (fvm t) (fvm t')"], goal_cases)
  case (1 rec c n t r)
  show ?case
  proof (intro allI impI)
    fix t' assume r: "r = Inr t'"
    obtain b where b: "load_block c t = Inr b" using 1(3) r by (cases "load_block c t") auto
    obtain t1 where t1: "read_data (take (unat (fs_min BLOCK_DATA_SIZE n)) (blk_data b)) t = Inr t1"
      using 1(3) r b by (cases "read_data (take (unat (fs_min BLOCK_DATA_SIZE n)) (blk_data b)) t") auto
    have "t1 = t' \<or> rec (block_ref t1 (blk_index b)) (n - BLOCK_DATA_SIZE) t1 = Some r"
      using 1(3) r b t1 by (auto split: if_splits)
    then have "upkeep (fvm t1) (fvm t')" using 1(2) r by auto
    then show "upkeep (fvm t) (fvm t')" by (rule upkeep_trans [OF read_data_upkeep [OF t1]])
  qed
qed

lemma fs_read_upkeep: "fs_read fd t = Inr t' \<Longrightarrow> upkeep (fvm t) (fvm t')"
  using read_loop_upkeep fs_print_upkeep
  by (auto simp: fs_read_def run_loop_def split: option.splits)

lemma delete_loop_vm: "delete_loop c t = Some r \<Longrightarrow> \<forall>t'. r = Inr t' \<longrightarrow> fds t' = fds t"
proof (rule delete_loop.raw_induct [where P = "\<lambda>c t r. \<forall>t'. r = Inr t' \<longrightarrow> fds t' = fds t"], goal_cases)
  case (1 rec c t r)
  show ?case
  proof (intro allI impI)
    fix t' assume r: "r = Inr t'"
    obtain b where b: "load_block c t = Inr b" using 1(3) r by (cases "load_block c t") auto
    show "fds t' = fds t"
    proof (cases "blk_index b = BLOCK_INDEX_END")
      case True
      then show ?thesis using 1(3) r b by simp
    next
      case False
      obtain t1 where t1: "store_block c (set_blk_next (free_list t) b) t = Inr t1"
        using 1(3) r b False by (cases "store_block c (set_blk_next (free_list t) b) t") auto
      obtain b' where b': "load_block c (t1\<lparr>free_list := c\<rparr>) = Inr b'"
        using 1(3) r b False t1 by (cases "load_block c (t1\<lparr>free_list := c\<rparr>)") auto
      have "rec (block_ref t1 (blk_index b')) (t1\<lparr>free_list := c\<rparr>) = Some r" using 1(3) b False t1 b' by simp
      then have "fds t' = fds (t1\<lparr>free_list := c\<rparr>)" using 1(2) r by blast
      then show ?thesis using store_block_vm [OF t1] by simp
    qed
  qed
qed

lemma remove_fd_loop_vm: "remove_fd_loop fd prev cur d = Some r \<Longrightarrow> \<forall>d'. r = Inr d' \<longrightarrow> vm d' = vm d"
proof (rule remove_fd_loop.raw_induct [where P = "\<lambda>fd prev cur d r. \<forall>d'. r = Inr d' \<longrightarrow> vm d' = vm d"], goal_cases)
  case (1 rec fd prev cur d r)
  show ?case
  proof (intro allI impI)
    fix d' assume r: "r = Inr d'"
    show "vm d' = vm d"
    proof (cases "cur = 0")
      case True
      then show ?thesis using 1(3) r by simp
    next
      case False
      obtain n where n: "fd_heap d cur = Some n" using 1(3) r False by (cases "fd_heap d cur") auto
      show ?thesis
      proof (cases "fdn_fd n = fd")
        case True
        then show ?thesis using 1(3) r False n by (auto split: option.splits if_splits)
      next
        case ne: False
        then have "rec fd cur (fdn_next n) d = Some r" using 1(3) False n by simp
        then show ?thesis using 1(2) r by blast
      qed
    qed
  qed
qed

lemma fs_delete_upkeep: "fs_delete fd t = Inr t' \<Longrightarrow> upkeep (fvm t) (fvm t')"
proof -
  assume run: "fs_delete fd t = Inr t'"
  show ?thesis
  proof (cases "find_fd fd (fds t)")
    case (Inr k)
    show ?thesis
    proof (cases k)
      case None
      then show ?thesis using run Inr fs_print_upkeep by (auto simp: fs_delete_def)
    next
      case (Some i)
      obtain entry where e: "get_entry i t = Inr entry" using run Inr Some by (auto simp: fs_delete_def)
      obtain t1 where t1: "run_loop (delete_loop (block_ref t (start_index entry)) t) = Inr t1"
        using run Inr Some e by (auto simp: fs_delete_def)
      let ?s = "\<lambda>n. set_entry i \<lparr>fe_name = n, start_index = 0, file_size = 0\<rparr> t1"
      have "bindE (strcpy (fe_name entry) (c_lit '''')) (\<lambda>n. map_res (\<lambda>d. (?s n)\<lparr>fds := d\<rparr>) (remove_fd fd (fds (?s n)))) = Inr t'"
        using run Inr Some e t1 by (simp only: fs_delete_def bindE_simps option.case Let_def)
      then obtain n where "map_res (\<lambda>d. (?s n)\<lparr>fds := d\<rparr>) (remove_fd fd (fds (?s n))) = Inr t'" by (rule bindE_InrE)
      then obtain d where d: "remove_fd fd (fds (?s n)) = Inr d" "t' = (?s n)\<lparr>fds := d\<rparr>" unfolding map_res_eq_Inr by blast
      obtain r where "delete_loop (block_ref t (start_index entry)) t = Some r" "r = Inr t1"
        using t1 by (cases "delete_loop (block_ref t (start_index entry)) t") simp_all
      then have same: "fds t1 = fds t" using delete_loop_vm by blast
      obtain r where "remove_fd_loop fd 0 (fd_list (fds (?s n))) (fds (?s n)) = Some r" "r = Inr d"
        using d(1) by (cases "remove_fd_loop fd 0 (fd_list (fds (?s n))) (fds (?s n))") (simp_all add: remove_fd_def)
      then have "vm d = vm (fds (?s n))" using remove_fd_loop_vm by blast
      then show ?thesis using d(2) same by (simp add: set_entry_def)
    qed
  qed (use run in \<open>simp add: fs_delete_def\<close>)
qed

text \<open>Opening a file maps a page of the upper half, unless that is mapped already.\<close>

lemma create_fd_upkeep:
  assumes present: "page_present (vm d) (next_alloc d)" and run: "create_fd e d = Inr (fd, d')"
  shows "upkeep (vm d) (vm d')"
proof (cases "term_ok (con (vm d))")
  case True
  from touch_page_present [OF present this] obtain c where c: "touch_page (next_alloc d) (vm d) = Inr ((vm d)\<lparr>con := c\<rparr>)" "term_ok c"
    by blast
  then have "vm d' = (vm d)\<lparr>con := c\<rparr>" using run by (auto simp: create_fd_def Let_def split: if_splits)
  then show ?thesis using con_upkeep c(2) by simp
next
  case False
  then show ?thesis using reclaimable_tree(4) by (auto simp: upkeep_def)
qed

lemma fs_open_upkeep:
  assumes "page_present (fvm t) (next_alloc (fds t))" and "fs_open n t = Inr (r, t')"
  shows "upkeep (fvm t) (fvm t')"
proof -
  have "fds t' = fds t \<or> (\<exists>i fd. create_fd i (fds t) = Inr (fd, fds t'))"
    using assms(2)
    by (auto simp: fs_open_def fs_create_fd_def Let_def set_entry_def split: option.splits if_splits dest!: store_block_vm)
  then show ?thesis using create_fd_upkeep assms(1) by auto
qed

section \<open>Every system call\<close>

text \<open>What the call may map: pages of the lower half, and for a new descriptor a page that is
  mapped already.\<close>

definition call_low :: "u64 \<Rightarrow> u64 \<Rightarrow> u64 \<Rightarrow> kstate \<Rightarrow> bool" where
  "call_low nr arg0 arg1 s \<longleftrightarrow> (nr = 9 \<longrightarrow> mmap_low arg0 arg1 s) \<and> (nr = 5 \<or> nr = 6 \<longrightarrow> programs_low s)
     \<and> (nr = 12 \<longrightarrow> page_present (kvm s) (next_alloc (fds (kfs s))))"

lemma syscall_upkeep:
  assumes low: "call_low nr arg0 arg1 s" and run: "syscall_handler nr arg0 arg1 arg2 arg3 s = Inr (r, s')"
  shows "upkeep (kvm s) (kvm s')"
proof -
  note run = run [unfolded syscall_handler_def]
  note low = low [unfolded call_low_def]
  consider "nr = 0" | "nr = 1" | "nr = 9" | "nr = 5" | "nr = 6" | "nr = 12" | "nr = 13" | "nr = 14" | "nr = 15"
    | "nr = 16" | "nr = 17" | "nr = 18" | "nr \<notin> {0, 1, 5, 6, 9, 12, 13, 14, 15, 16, 17, 18}" by blast
  then show ?thesis
  proof cases
    case 1
    then show ?thesis using run by (auto simp: ret_int_def SYS_read_def dest: read_upkeep split: if_splits)
  next
    case 2
    then obtain c where "s' = set_con c s" "term_ok (kcon s) \<longrightarrow> term_ok c"
      using run write_term by (fastforce simp: ret_int_def SYS_write_def split: if_splits)
    then show ?thesis using set_con_upkeep by blast
  next
    case 3
    then show ?thesis using run low by (auto dest: mmap_upkeep)
  next
    case 4
    then show ?thesis using run low by (auto dest: exec_upkeep)
  next
    case 5
    then show ?thesis using run low by (auto dest: exit_upkeep)
  next
    case 6
    then show ?thesis using run low by (auto simp: ret_int_def SYS_fs_open_def on_fs_def dest: fs_open_upkeep)
  next
    case 7
    then show ?thesis using run by (auto simp: ret_bool_def SYS_fs_write_def fs_write_def on_fs_def dest!: fs_write_at_vm)
  next
    case 8
    then show ?thesis using run by (auto simp: ret_bool_def SYS_fs_write_at_def on_fs_def dest!: fs_write_at_vm)
  next
    case 9
    then show ?thesis using run by (auto simp: ret_bool_def SYS_fs_append_def on_fs_def dest!: fs_append_vm)
  next
    case 10
    then show ?thesis using run by (auto simp: ret_break_def SYS_fs_read_def dest!: fs_read_upkeep)
  next
    case 11
    then show ?thesis using run by (auto simp: ret_break_def SYS_fs_delete_def dest!: fs_delete_upkeep)
  next
    case 12
    then show ?thesis using run by (auto simp: ret_break_def SYS_fs_rename_def on_fs_def dest!: fs_rename_vm)
  next
    case 13
    then show ?thesis using run by (simp add: ret_break_def)
  qed
qed

section \<open>Programs at work\<close>

text \<open>
  What can happen to the kernel while programs run: system calls, one after the other, and between
  them the stores of the program to its memory and the keys that are pressed.
\<close>

inductive lives :: "kstate \<Rightarrow> kstate \<Rightarrow> bool" where
  start: "lives s s"
| work: "lives s t \<Longrightarrow> lives s (t\<lparr>kram := r, keys := ks\<rparr>)"
| call: "lives s t \<Longrightarrow> call_low nr arg0 arg1 t \<Longrightarrow> syscall_handler nr arg0 arg1 arg2 arg3 t = Inr (x, u) \<Longrightarrow> lives s u"

lemma lives_upkeep: "lives s s' \<Longrightarrow> upkeep (kvm s) (kvm s')"
proof (induction rule: lives.induct)
  case (call s t nr arg0 arg1 arg2 arg3 x u)
  show ?case using call.IH syscall_upkeep [OF call.hyps(2,3)] by (rule upkeep_trans)
qed simp_all

lemma lives_pool:
  assumes "reclaimable (kvm s)" and "lives s s'"
  shows "reclaimable (kvm s')" and "pool (kvm s') = pool (kvm s)"
    and "mem_avail (kvm (reset_memory s')) = pool (kvm s)"
proof -
  show r: "reclaimable (kvm s')" and p: "pool (kvm s') = pool (kvm s)"
    using lives_upkeep [OF assms(2)] assms(1) by (simp_all add: upkeep_def)
  show "mem_avail (kvm (reset_memory s')) = pool (kvm s)" using unmap_upkeep(2) [OF r] p by simp
qed

text \<open>The boot information stays the same.\<close>

lemma read_hdr: "sys_read_loop i len buffer s = Inr (r, s') \<Longrightarrow> boot_hdr s' = boot_hdr s"
proof (induction i len buffer s rule: sys_read_loop.induct)
  case (1 i len buffer s)
  show ?case
  proof (cases "i < len")
    case False
    then show ?thesis using 1(4) by (simp add: sys_read_loop.simps)
  next
    case True
    then obtain c s1 where s1: "next_key s = Inr (c, s1)" using 1(4) by (auto simp: sys_read_loop.simps [of i])
    have same: "boot_hdr s1 = boot_hdr s" using s1 by (auto simp: next_key_def set_con_def set_vm_def)
    consider "c = 8" "i > 0" | "c \<noteq> 8" | "c = 8" "\<not> i > 0" by blast
    then have "boot_hdr s' = boot_hdr s1"
    proof cases
      case 1
      then show ?thesis using "1.IH"(1) [OF True s1 refl] "1.prems" s1 True by (simp add: sys_read_loop.simps [of i])
    next
      case 2
      then obtain s2 where s2: "user_store (buffer + word_of_int i) c s1 = Inr s2" "sys_read_loop (i + 1) len buffer s2 = Inr (r, s')"
        using "1.prems" s1 True by (auto simp: sys_read_loop.simps [of i])
      have "boot_hdr s2 = boot_hdr s1" using s2(1) by (auto simp: user_store_def split: option.splits)
      then show ?thesis using "1.IH"(2) [OF True s1 refl _ 2 s2(1)] s2(2) 2 by simp
    next
      case 3
      then show ?thesis using "1.IH"(3) [OF True s1 refl] "1.prems" s1 True by (simp add: sys_read_loop.simps [of i])
    qed
    then show ?thesis using same by simp
  qed
qed

lemma loading_hdr: "loading f s = Inr (x, s') \<Longrightarrow> boot_hdr s' = boot_hdr s"
  by (auto simp: loading_def set_vm_def)

lemma syscall_hdr: "syscall_handler nr arg0 arg1 arg2 arg3 s = Inr (x, s') \<Longrightarrow> boot_hdr s' = boot_hdr s"
proof -
  assume run: "syscall_handler nr arg0 arg1 arg2 arg3 s = Inr (x, s')"
  note run = run [unfolded syscall_handler_def]
  have exec: "SYS_exec arg0 s = Inr (x, s') \<Longrightarrow> boot_hdr s' = boot_hdr s"
    using loading_hdr by (fastforce simp: SYS_exec_def Let_def)
  have exit: "SYS_exit s = Inr (x, s') \<Longrightarrow> boot_hdr s' = boot_hdr s"
    using loading_hdr by (fastforce simp: SYS_exit_def Let_def)
  have mmap: "SYS_mmap arg0 arg1 p s = Inr (a, s') \<Longrightarrow> boot_hdr s' = boot_hdr s" for p a
    by (auto simp: SYS_mmap_def Let_def set_vm_def split: if_splits)
  consider "nr = 0" | "nr = 1" | "nr = 9" | "nr = 5" | "nr = 6" | "nr \<in> {12, 13, 14, 15, 16, 17, 18}"
    | "nr \<notin> {0, 1, 5, 6, 9, 12, 13, 14, 15, 16, 17, 18}" by blast
  then show ?thesis
  proof cases
    case 1
    then show ?thesis using run by (auto simp: ret_int_def SYS_read_def dest: read_hdr split: if_splits)
  next
    case 2
    then show ?thesis using run by (auto simp: ret_int_def set_con_def set_vm_def)
  next
    case 3
    then show ?thesis using run by (auto dest: mmap)
  next
    case 4
    then show ?thesis using run exec by simp
  next
    case 5
    then show ?thesis using run exit by simp
  next
    case 6
    then consider "nr = 12" | "nr = 13" | "nr = 14" | "nr = 15" | "nr = 16" | "nr = 17" | "nr = 18" by blast
    then show ?thesis
      by cases (use run in \<open>simp add: ret_int_def ret_bool_def ret_break_def on_fs_def SYS_fs_open_def SYS_fs_write_def
        SYS_fs_write_at_def SYS_fs_append_def SYS_fs_read_def SYS_fs_delete_def SYS_fs_rename_def, fastforce\<close>)+
  next
    case 7
    then show ?thesis using run by (simp add: ret_break_def)
  qed
qed

lemma lives_hdr: "lives s s' \<Longrightarrow> boot_hdr s' = boot_hdr s"
  by (induction rule: lives.induct) (simp_all add: syscall_hdr)

text \<open>So \<open>init\<close> can be started again whatever programs have done.\<close>

lemma exit_again:
  assumes "reclaimable (kvm s)" and "lives s s'"
    and mods: "find_tag (boot_hdr s) MODULES_ID = Some (Modules_Tag ms)" "\<forall>m \<in> set ms. terminated (mod_string m)"
      "find (\<lambda>m. cstr (mod_string m) = bytes_of ''init'') ms = Some md"
    and elf: "read_elf_header (mod_image md) = Inr eh" "length phs = e_phnum eh"
      "\<forall>i < length phs. read_program_header (mod_image md) (e_phoff eh + 56 * of_nat i) = Inr (phs ! i)"
      "\<forall>ph \<in> set (filter loads phs). seg_ok lower_half (mod_image md) ph"
      "distinct (map (\<lambda>ph. page_no (seg_page ph)) (filter loads phs))"
    and P: "P \<subseteq> pool (kvm s)" "finite P" "24 + 3 * length (filter loads phs) \<le> card P"
    and "seg_pages phs \<inter> stack_nos = {}"
  shows "\<exists>t. SYS_exit s' = Inr (Usermode (USER_DATA_SELECTOR OR 3) (USER_STACK + 8 * 0x1000 - 8) (USER_CODE_SELECTOR OR 3) (e_entry eh), t)
    \<and> (\<forall>b \<in> lower_half. page_present (kvm t) b \<longleftrightarrow> page_no b \<in> seg_pages phs \<union> stack_nos)"
proof -
  note live = lives_pool [OF assms(1,2)]
  note tree = reclaimable_tree [OF live(1)]
  have mods': "find_tag (boot_hdr s') MODULES_ID = Some (Modules_Tag ms)" using mods(1) lives_hdr [OF assms(2)] by simp
  have P': "P \<subseteq> mem_avail (kvm s') \<union> set (lower_tables (kvm s'))" using P(1) live(2) unfolding pool_def by simp
  from exit_loads [OF tree mods' mods(2,3) elf P' P(2,3) assms(14)] show ?thesis by blast
qed


end
