(* ===== verification/Boot.thy ===== *)
theory Boot
  imports SysFiles Upkeep
begin

text \<open>
  Starting the kernel, \<^verbatim>\<open>src/kernel/boot.c\<close>: the order of the set-up steps in \<open>_start\<close>, and
  \<open>fs_demo\<close>, the demonstration of the file system. A demonstration step is a function of the
  file-system state; \<open>does\<close> says what a step returns and prints against the file model, and a
  sequence of steps is proved step by step. \<open>start_kernel_loads\<close> follows \<open>_start\<close> up to the loader.
\<close>

section \<open>The demonstration\<close>

definition and_then :: "('s \<Rightarrow> ('a \<times> 's) res) \<Rightarrow> ('a \<Rightarrow> 's \<Rightarrow> ('b \<times> 's) res) \<Rightarrow> 's \<Rightarrow> ('b \<times> 's) res" where
  "and_then f g s = bindE (f s) (\<lambda>(x, s). g x s)"

definition demo_kprintf :: "string \<Rightarrow> fs_state \<Rightarrow> (unit \<times> fs_state) res" where
  "demo_kprintf msg s = map_res (Pair ()) (fs_print (c_lit msg) [] s)"

text \<open>The two complaints are printed by \<open>printf\<close> of the user library.\<close>

definition demo_printf :: "string \<Rightarrow> fs_state \<Rightarrow> (unit \<times> fs_state) res" where
  "demo_printf msg s = map_res (\<lambda>c. ((), printed c s)) (printf (c_lit msg) [] (con (vm (fds s))))"

definition demo_write :: "int \<Rightarrow> string \<Rightarrow> fs_state \<Rightarrow> (unit \<times> fs_state) res" where
  "demo_write fd str = and_then (fs_write fd (c_lit str) 5)
     (\<lambda>ok. if \<not> ok then demo_printf (''write failed!'' @ [CHR 0x0A]) else (\<lambda>s. Inr ((), s)))"

definition demo_read :: "int \<Rightarrow> fs_state \<Rightarrow> (unit \<times> fs_state) res" where
  "demo_read fd s = map_res (Pair ()) (fs_read fd s)"

abbreviation "nl \<equiv> CHR 0x0A"

definition fs_demo :: "fs_state \<Rightarrow> (unit \<times> fs_state) res" where
  "fs_demo =
     and_then (demo_kprintf (''Open f1.txt'' @ [nl])) (\<lambda>_.
     and_then (fs_open (c_lit ''f1.txt'')) (\<lambda>fd1.
     and_then (demo_kprintf (''Open f2.txt'' @ [nl])) (\<lambda>_.
     and_then (fs_open (c_lit ''f2.txt'')) (\<lambda>fd2.
     and_then (demo_kprintf ([nl] @ ''write '' @ [CHR 0x27] @ ''hello'' @ [CHR 0x27] @ '' to f1.txt'' @ [nl])) (\<lambda>_.
     and_then (demo_write fd1 ''hello'') (\<lambda>_.
     and_then (demo_kprintf ([nl] @ ''write '' @ [CHR 0x27] @ ''nihao'' @ [CHR 0x27] @ '' to f2.txt'' @ [nl])) (\<lambda>_.
     and_then (demo_write fd2 ''nihao'') (\<lambda>_.
     and_then (demo_kprintf ([nl] @ ''Currently Stored in f1.txt: '' @ [nl])) (\<lambda>_.
     and_then (demo_read fd1) (\<lambda>_.
     and_then (demo_kprintf ([nl, nl] @ ''Currently Stored in f2.txt: '' @ [nl])) (\<lambda>_.
     and_then (demo_read fd2) (\<lambda>_.
     and_then (demo_kprintf ([nl, nl] @ ''append '' @ [CHR 0x27] @ '' world'' @ [CHR 0x27] @ '' to f1.txt'' @ [nl])) (\<lambda>_.
     and_then (fs_append fd1 (c_lit ('' world'' @ [nl])) 7) (\<lambda>_.
     and_then (demo_kprintf ([nl] @ ''set first two letters to '' @ [CHR 0x27] @ ''a '' @ [CHR 0x27] @ '' in f2.txt'' @ [nl])) (\<lambda>_.
     and_then (fs_write_at fd2 0 (c_lit ''a '') 2) (\<lambda>_.
     and_then (demo_kprintf ([nl] @ ''Currently Stored in f1.txt: '' @ [nl])) (\<lambda>_.
     and_then (demo_read fd1) (\<lambda>_.
     and_then (demo_kprintf ([nl, nl] @ ''Currently Stored in f2.txt: '' @ [nl])) (\<lambda>_.
     demo_read fd2)))))))))))))))))))"

section \<open>Steps against the file model\<close>

text \<open>A step of a program returns a value, prints bytes and takes one model to another; \<open>kept\<close> is
  what it leaves as it was.\<close>

locale transcript =
  fixes rel :: "'m \<Rightarrow> 's \<Rightarrow> bool" and terminal :: "'s \<Rightarrow> term_state" and kept :: "'s \<Rightarrow> 's \<Rightarrow> bool"
  assumes kept_refl: "kept s s" and kept_trans: "kept s t \<Longrightarrow> kept t u \<Longrightarrow> kept s u"
begin

definition does :: "'m \<Rightarrow> ('s \<Rightarrow> ('a \<times> 's) res) \<Rightarrow> 'a \<Rightarrow> u8 list \<Rightarrow> 'm \<Rightarrow> bool" where
  "does m f x out m' \<longleftrightarrow> (\<forall>s. rel m s \<longrightarrow> (\<exists>s'. f s = Inr (x, s') \<and> rel m' s'
     \<and> puts term_putchar out (terminal s) = Inr (terminal s') \<and> kept s s'))"

lemma does_then:
  assumes f: "does m f x out m1" and g: "does m1 (g x) y out' m2"
  shows "does m (and_then f g) y (out @ out') m2"
  unfolding does_def
proof (intro allI impI)
  fix s assume "rel m s"
  then obtain t where t: "f s = Inr (x, t)" "rel m1 t" "puts term_putchar out (terminal s) = Inr (terminal t)" "kept s t"
    using f unfolding does_def by blast
  then obtain u where "g x t = Inr (y, u)" "rel m2 u" "puts term_putchar out' (terminal t) = Inr (terminal u)" "kept t u"
    using g unfolding does_def by blast
  then show "\<exists>s'. and_then f g s = Inr (y, s') \<and> rel m2 s'
     \<and> puts term_putchar (out @ out') (terminal s) = Inr (terminal s') \<and> kept s s'"
    using t kept_trans [OF t(4)] by (intro exI [of _ u]) (simp add: and_then_def puts_append_fun)
qed

lemma does_return: "does m (\<lambda>s. Inr (x, s)) x [] m"
  using kept_refl by (simp add: does_def)

end

interpretation demo: transcript "\<lambda>m s. fm_rel m s \<and> fds_backed s" "\<lambda>s. con (vm (fds s))"
    "\<lambda>s s'. same_memory (vm (fds s)) (vm (fds s'))"
  by unfold_locales (auto intro: same_memory_trans)

text \<open>Only the bytes that the size covers are read from a buffer.\<close>

lemma write_bytes_more: "n \<le> length buff \<Longrightarrow> write_bytes n (buff @ extra) cur wp s = write_bytes n buff cur wp s"
proof (induction n arbitrary: buff cur wp s)
  case (Suc n)
  then obtain c buff' where "buff = c # buff'" by (cases buff) auto
  then show ?case using Suc by (auto simp: write_bytes.simps intro!: bindE_cong split: prod.split)
qed (simp add: write_bytes.simps)

lemma fs_write_at_more: "unat sz \<le> length buff \<Longrightarrow> fs_write_at fd i (buff @ extra) sz s = fs_write_at fd i buff sz s"
  unfolding fs_write_at_def by (simp only: write_bytes_more)

lemma does_kprintf:
  assumes "0 \<notin> set (bytes_of msg)" and "37 \<notin> set (bytes_of msg)"
  shows "demo.does m (demo_kprintf msg) () (bytes_of msg) m"
  unfolding demo.does_def
proof (intro allI impI, elim conjE)
  fix s assume s: "fm_rel m s" "fds_backed s"
  then have ok: "term_ok (con (vm (fds s)))" by (auto simp: fm_rel_def fs_ok_def handles_ok_def)
  obtain c where c: "puts term_putchar (bytes_of msg) (con (vm (fds s))) = Inr c" "term_ok c"
    using console.puts_ok [OF ok] by blast
  have "demo_kprintf msg s = Inr ((), printed c s)"
    using c kprintf_prints [OF ok] kfmt_plain [OF assms, of "[]"]
    by (simp add: demo_kprintf_def fs_print_def mprintf_def c_lit_def printed_def)
  then show "\<exists>s'. demo_kprintf msg s = Inr ((), s') \<and> (fm_rel m s' \<and> fds_backed s')
      \<and> puts term_putchar (bytes_of msg) (con (vm (fds s))) = Inr (con (vm (fds s'))) \<and> same_memory (vm (fds s)) (vm (fds s'))"
    using c s rel_printed by auto
qed

lemma does_call:
  assumes "fm_step c m = Some (r, out, m')" and "\<And>s s'. fs_step c s = Inr (r, s') \<Longrightarrow> f s = Inr (x, s')"
  shows "demo.does m f x out m'"
  unfolding demo.does_def using fs_step_refines [OF _ _ assms(1)] assms(2) unfolding step_ok_def by blast

lemma does_open: "fm_step (C_Open n) m = Some (R_Fd fd, out, m') \<Longrightarrow> demo.does m (fs_open (n @ [0])) fd out m'"
  by (erule does_call) auto

lemma does_read: "fm_step (C_Read fd) m = Some (R_Unit, out, m') \<Longrightarrow> demo.does m (demo_read fd) () out m'"
  by (erule does_call) (auto simp: demo_read_def)

lemma does_write_at:
  "fm_step (C_Write_At fd i b) m = Some (R_Bool r, out, m') \<Longrightarrow> length b < 2 ^ 64 \<Longrightarrow>
   demo.does m (fs_write_at fd i (b @ extra) (of_nat (length b))) r out m'"
  by (erule does_call) (auto simp: fs_write_at_more unat_of_nat_small)

lemma does_append:
  "fm_step (C_Append fd b) m = Some (R_Bool r, out, m') \<Longrightarrow> length b < 2 ^ 64 \<Longrightarrow>
   demo.does m (fs_append fd (b @ extra) (of_nat (length b))) r out m'"
proof (erule does_call)
  fix s s' assume len: "length b < 2 ^ 64" and run: "fs_step (C_Append fd b) s = Inr (R_Bool r, s')"
  have "fs_append fd (b @ extra) (of_nat (length b)) s = fs_append fd b (of_nat (length b)) s"
    unfolding fs_append_def using len
    by (intro bindE_cong) (auto intro!: bindE_cong simp: fs_write_at_more unat_of_nat_small split: option.split)
  then show "fs_append fd (b @ extra) (of_nat (length b)) s = Inr (r, s')" using run by auto
qed

lemma does_write:
  assumes "fm_step (C_Write_At fd 0 (bytes_of str)) m = Some (R_Bool True, out, m')" and "length str = 5"
  shows "demo.does m (demo_write fd str) () out m'"
proof -
  have "demo.does m (fs_write fd (c_lit str) 5) True out m'"
    using does_write_at [OF assms(1), of "[0]"] assms(2) by (simp add: fs_write_def [abs_def] c_lit_def bytes_of_def)
  from demo.does_then [OF this, of _ "()" "[]" m'] show ?thesis by (simp add: demo_write_def demo.does_return)
qed

section \<open>What the demonstration prints\<close>

text \<open>The file model after the demonstration and its output, with the message that each \<open>fs_open\<close>
  prints because the page of its descriptor is mapped already.\<close>


definition demo_out :: "u8 list" where
  "demo_out = bytes_of (''Open f1.txt'' @ [nl]) @ mapped_msg @ bytes_of (''Open f2.txt'' @ [nl]) @ mapped_msg
     @ bytes_of ([nl] @ ''write '' @ [CHR 0x27] @ ''hello'' @ [CHR 0x27] @ '' to f1.txt'' @ [nl])
     @ bytes_of ([nl] @ ''write '' @ [CHR 0x27] @ ''nihao'' @ [CHR 0x27] @ '' to f2.txt'' @ [nl])
     @ bytes_of ([nl] @ ''Currently Stored in f1.txt: '' @ [nl]) @ bytes_of ''hello''
     @ bytes_of ([nl, nl] @ ''Currently Stored in f2.txt: '' @ [nl]) @ bytes_of ''nihao''
     @ bytes_of ([nl, nl] @ ''append '' @ [CHR 0x27] @ '' world'' @ [CHR 0x27] @ '' to f1.txt'' @ [nl])
     @ bytes_of ([nl] @ ''set first two letters to '' @ [CHR 0x27] @ ''a '' @ [CHR 0x27] @ '' in f2.txt'' @ [nl])
     @ bytes_of ([nl] @ ''Currently Stored in f1.txt: '' @ [nl]) @ bytes_of (''hello world'' @ [nl])
     @ bytes_of ([nl, nl] @ ''Currently Stored in f2.txt: '' @ [nl]) @ bytes_of ''a hao''"

text \<open>The models between the steps: two files with the given bytes, open as 0 and 1.\<close>

definition demo_model :: "string \<Rightarrow> string \<Rightarrow> fmodel" where
  "demo_model c1 c2 = \<lparr>fm_files = [Some (bytes_of ''f1.txt'', bytes_of c1), Some (bytes_of ''f2.txt'', bytes_of c2)],
     fm_open = [(1, 1), (0, 0)], fm_next = 2, fm_free = 127\<rparr>"

definition demo_first :: fmodel where
  "demo_first = \<lparr>fm_files = [Some (bytes_of ''f1.txt'', [])], fm_open = [(0, 0)], fm_next = 1, fm_free = 128\<rparr>"

lemma demo_calls:
  "fm_step (C_Open (bytes_of ''f1.txt'')) fm_empty = Some (R_Fd 0, mapped_msg, demo_first)"
  "fm_step (C_Open (bytes_of ''f2.txt'')) demo_first = Some (R_Fd 1, mapped_msg, demo_model '''' '''')"
  "fm_step (C_Write_At 0 0 (bytes_of ''hello'')) (demo_model '''' '''') = Some (R_Bool True, [], demo_model ''hello'' '''')"
  "fm_step (C_Write_At 1 0 (bytes_of ''nihao'')) (demo_model ''hello'' '''') = Some (R_Bool True, [], demo_model ''hello'' ''nihao'')"
  "fm_step (C_Append 0 (bytes_of ('' world'' @ [nl]))) (demo_model ''hello'' ''nihao'')
     = Some (R_Bool True, [], demo_model (''hello world'' @ [nl]) ''nihao'')"
  "fm_step (C_Write_At 1 0 (bytes_of ''a '')) (demo_model (''hello world'' @ [nl]) ''nihao'')
     = Some (R_Bool True, [], demo_model (''hello world'' @ [nl]) ''a hao'')"
  "fm_step (C_Read 0) (demo_model c1 c2) = Some (R_Unit, bytes_of c1, demo_model c1 c2)"
  "fm_step (C_Read 1) (demo_model c1 c2) = Some (R_Unit, bytes_of c2, demo_model c1 c2)"
  by (simp_all add: fm_empty_def demo_first_def demo_model_def fm_lookup_def fm_bind_def name_ok_def fm_write_def
      splice_at_def n_blocks_def bytes_of_def)

lemma demo_does: "demo.does fm_empty fs_demo () demo_out (demo_model (''hello world'' @ [nl]) ''a hao'')"
proof -
  note opens = does_open [OF demo_calls(1)] does_open [OF demo_calls(2)]
  note opens' = opens [folded c_lit_def]
  have app: "demo.does (demo_model ''hello'' ''nihao'') (fs_append 0 (c_lit ('' world'' @ [nl])) 7) True []
      (demo_model (''hello world'' @ [nl]) ''nihao'')"
    using does_append [OF demo_calls(5), of "[0]"] by (simp add: c_lit_def bytes_of_def)
  have set: "demo.does (demo_model (''hello world'' @ [nl]) ''nihao'') (fs_write_at 1 0 (c_lit ''a '') 2) True []
      (demo_model (''hello world'' @ [nl]) ''a hao'')"
    using does_write_at [OF demo_calls(6), of "[0]"] by (simp add: c_lit_def bytes_of_def)
  have writes: "demo.does (demo_model '''' '''') (demo_write 0 ''hello'') () [] (demo_model ''hello'' '''')"
    "demo.does (demo_model ''hello'' '''') (demo_write 1 ''nihao'') () [] (demo_model ''hello'' ''nihao'')"
    by (rule does_write [OF demo_calls(3)], simp, rule does_write [OF demo_calls(4)], simp)
  note steps = opens' app set writes does_read [OF demo_calls(7)] does_read [OF demo_calls(8)]
  have "demo.does fm_empty fs_demo ()
     (bytes_of (''Open f1.txt'' @ [nl]) @ mapped_msg @ bytes_of (''Open f2.txt'' @ [nl]) @ mapped_msg
     @ bytes_of ([nl] @ ''write '' @ [CHR 0x27] @ ''hello'' @ [CHR 0x27] @ '' to f1.txt'' @ [nl]) @ []
     @ bytes_of ([nl] @ ''write '' @ [CHR 0x27] @ ''nihao'' @ [CHR 0x27] @ '' to f2.txt'' @ [nl]) @ []
     @ bytes_of ([nl] @ ''Currently Stored in f1.txt: '' @ [nl]) @ bytes_of ''hello''
     @ bytes_of ([nl, nl] @ ''Currently Stored in f2.txt: '' @ [nl]) @ bytes_of ''nihao''
     @ bytes_of ([nl, nl] @ ''append '' @ [CHR 0x27] @ '' world'' @ [CHR 0x27] @ '' to f1.txt'' @ [nl]) @ []
     @ bytes_of ([nl] @ ''set first two letters to '' @ [CHR 0x27] @ ''a '' @ [CHR 0x27] @ '' in f2.txt'' @ [nl]) @ []
     @ bytes_of ([nl] @ ''Currently Stored in f1.txt: '' @ [nl]) @ bytes_of (''hello world'' @ [nl])
     @ bytes_of ([nl, nl] @ ''Currently Stored in f2.txt: '' @ [nl]) @ bytes_of ''a hao'')
     (demo_model (''hello world'' @ [nl]) ''a hao'')"
    unfolding fs_demo_def
    by ((rule demo.does_then, ((rule does_kprintf; simp add: bytes_of_def) | rule steps))+, rule steps)
  then show ?thesis by (simp only: demo_out_def append_Nil append_assoc)
qed

section \<open>The start of the kernel\<close>

record machine =
  kernel :: kstate
  mgdt :: gdt_state
  midt :: "idt_entry list \<times> (u16 \<times> u64)"

text \<open>Where the linker has put the tables, the interrupt stack and the handlers.\<close>

record layout =
  at_gdt :: u64
  at_tss :: u64
  at_interrupt_stack :: u64
  at_idt :: u64
  at_handler :: "handler \<Rightarrow> u64"

text \<open>The loop over the pages of the user stack; the result of \<open>vm_map\<close> is not looked at.\<close>

fun boot_stack :: "u64 \<Rightarrow> nat \<Rightarrow> u64 \<Rightarrow> mem_state \<Rightarrow> mem_state res" where
  "boot_stack root 0 p m = Inr m"
| "boot_stack root (Suc n) p m =
     bindE (vm_map root p True True False m) (\<lambda>(rc, m). boot_stack root n (p + 0x1000) m)"

definition pics_ready :: "kstate \<Rightarrow> kstate" where
  "pics_ready s = set_con ((kcon s)\<lparr>tports := pic_unmask_irq 1 (pic_init (tports (kcon s)))\<rparr>) s"

definition start_kernel :: "layout \<Rightarrow> stivale_tag list \<Rightarrow> machine \<Rightarrow> (sysret \<times> machine) res" where
  "start_kernel lay hdr mc =
    bindE (gdt_setup (at_gdt lay) (at_tss lay) (at_interrupt_stack lay) (mgdt mc)) (\<lambda>g.
    let mc = mc\<lparr>mgdt := g, midt := idt_setup (at_handler lay) (at_idt lay)\<rparr>;
        s = pics_ready (kernel mc) in
    bindE (freelist_init hdr (kvm s)) (\<lambda>m.
    let s = set_vm m (s\<lparr>boot_hdr := hdr\<rparr>);
        root = cr3_root (kvm s);
        s = set_vm (unmap_lower_half root (kvm s)) s in
    bindE (term_init (ptov 0xB8000 (kvm s)) (kcon s)) (\<lambda>c.
    let s = set_con c s in
    bindE (fs_init (kfs s)) (\<lambda>t.
    let s = s\<lparr>kfs := t\<rparr> in
    bindE (boot_stack root 8 USER_STACK (kvm s)) (\<lambda>m.
    let s = set_vm m s in
    bindE (loading (load_module hdr (c_lit ''init'')) s) (\<lambda>(header_entry, s).
    Inr (Usermode (USER_DATA_SELECTOR OR 3) (USER_STACK + 8 * 0x1000 - 8) (USER_CODE_SELECTOR OR 3) header_entry,
      mc\<lparr>kernel := s\<rparr>)))))))"
section \<open>Up to the first program\<close>

definition boot_page :: "u64 \<Rightarrow> u64 \<Rightarrow> mem_state \<Rightarrow> mem_state res" where
  "boot_page root p m = map_res snd (vm_map root p True True False m)"

interpretation boot: page_mapper "boot_page root" "maps_in A root" A page_present no_pages
  for A root
proof unfold_locales
  fix m a assume m: "maps_in A root m" "a \<in> A"
  then have "vm_inv A m" "cr3_root m = root" by (simp_all add: maps_in_def)
  from vm_map_maps [OF this(1) m(2), of True True False] this(2) obtain rc m' where m':
    "vm_map root a True True False m = Inr (rc, m')" "vm_inv A m'" "cr3 m' = cr3 m"
    "page_present m' a \<or> mem_avail m' = {}" "mem_avail m' \<subseteq> mem_avail m"
    "\<forall>b \<in> A. \<forall>e. leaf_entry m b root = Some e \<longrightarrow> pte_present e \<longrightarrow> leaf_entry m' b (cr3_root m') = Some e"
    by blast
  then show "\<exists>m'. boot_page root a m = Inr m' \<and> maps_in A root m' \<and> (page_present m' a \<or> no_pages m')
      \<and> (\<forall>b \<in> A. page_present m b \<longrightarrow> page_present m' b) \<and> (no_pages m \<longrightarrow> no_pages m')"
    using \<open>cr3_root m = root\<close>
    by (auto simp: boot_page_def maps_in_def no_pages_def page_present_def read_cr3_def split: option.splits)
qed

lemma boot_page_blank:
  "maps_in A root m \<Longrightarrow> blank_space A m \<Longrightarrow> a \<in> A \<Longrightarrow> boot_page root a m = Inr m' \<Longrightarrow> blank_space A m'"
  using vm_map_keeps_blank [of A m a True True False] by (auto simp: maps_in_def boot_page_def)

lemma boot_stack_each: "boot_stack root n p m = boot.map_each root (page_list p n) m"
proof (induction n arbitrary: p m)
  case (Suc n)
  have "boot_page root p m = map_res snd (vm_map root p True True False m)" by (simp only: boot_page_def)
  then show ?case by (cases "vm_map root p True True False m") (auto simp: Suc)
qed simp

lemma freelist_add_con: "con (freelist_add es s) = con s"
  by (induction es s rule: freelist_add.induct) simp_all

lemma freelist_init_con: "freelist_init hdr s = Inr m \<Longrightarrow> con m = con s"
  by (auto simp: freelist_init_def freelist_add_con split: option.splits stivale_tag.splits)

text \<open>A file system of which nothing but the memory and the terminal has been set up.\<close>

definition unmounted :: "fs_state \<Rightarrow> bool" where
  "unmounted s \<longleftrightarrow> next_fd (fds s) = 0 \<and> (\<exists>v. init_state (s\<lparr>fds := (fds s)\<lparr>vm := v\<rparr>\<rparr>))"

lemma unmounted_init:
  "unmounted s \<Longrightarrow> term_ok (con v) \<Longrightarrow> init_state (s\<lparr>fds := (fds s)\<lparr>vm := v\<rparr>\<rparr>)"
  by (auto simp: unmounted_def init_state_def fd_holds_def fd_list_ok_def)

definition region_apart :: "mem_state \<Rightarrow> bool" where
  "region_apart m \<longleftrightarrow> (\<forall>i < Suc MAX_BLOCK_SIZE. apart m (START_ADDR + of_nat i * 0x1000))"

lemma region_kept:
  "tree_ok m \<Longrightarrow> mem_inv m \<Longrightarrow> region_apart m \<Longrightarrow> region_present m \<Longrightarrow>
   region_present ((unmap_lower_half (cr3_root m) m)\<lparr>con := c\<rparr>)"
  using unmap_keeps_apart by (simp add: region_apart_def region_present_def)

text \<open>Every step up to the user stack returns.\<close>

abbreviation entered :: "machine \<Rightarrow> u64 \<times> kstate \<Rightarrow> sysret \<times> machine" where
  "entered mc \<equiv> (\<lambda>(entry, s).
     (Usermode (USER_DATA_SELECTOR OR 3) (USER_STACK + 8 * 0x1000 - 8) (USER_CODE_SELECTOR OR 3) entry, mc\<lparr>kernel := s\<rparr>))"

lemma start_kernel_mounts:
  assumes g: "gdt_size (mgdt mc) \<le> 0x58"
    and fl: "freelist_init hdr (kvm (pics_ready (kernel mc))) = Inr m"
    and mem: "mem_inv m" "\<forall>p \<in> mem_avail m. phys p" "tree_ok m" "region_present m" "region_apart m"
    and scr: "length (term_buf (kcon (kernel mc))) = 2000" and fs: "unmounted (kfs (kernel mc))"
  shows "\<exists>s mc'. start_kernel lay hdr mc = bindE (boot_stack (cr3_root (kvm s)) 8 USER_STACK (kvm s))
        (\<lambda>m. map_res (entered mc') (loading (load_module hdr (c_lit ''init'')) (set_vm m s)))
    \<and> fm_rel fm_empty (kfs s) \<and> blank_space lower_half (kvm s) \<and> (\<forall>b \<in> lower_half. \<not> page_present (kvm s) b)
    \<and> mem_avail (kvm s) = mem_avail m \<union> set (lower_tables m)
    \<and> kkbd s = kkbd (kernel mc) \<and> boot_hdr s = hdr \<and> kram s = kram (kernel mc)
    \<and> (\<exists>c. term_ok c \<and> kvm s = (unmap_lower_half (cr3_root m) m)\<lparr>con := c\<rparr>)"
proof -
  note frees = unmap_lower_half_frees [OF mem(3,1,2)]
  obtain g' where g': "gdt_setup (at_gdt lay) (at_tss lay) (at_interrupt_stack lay) (mgdt mc) = Inr g'"
    using gdt_setup_bytes [OF g] by blast
  let ?s1 = "set_vm m ((pics_ready (kernel mc))\<lparr>boot_hdr := hdr\<rparr>)"
  let ?root = "cr3_root m" and ?u = "unmap_lower_half (cr3_root m) m"
  have con: "con m = (kcon (kernel mc))\<lparr>tports := pic_unmask_irq 1 (pic_init (tports (kcon (kernel mc))))\<rparr>"
    using freelist_init_con [OF fl] by (simp add: pics_ready_def)
  have "length (term_buf (con ?u)) = VGA_WIDTH * VGA_HEIGHT" using frees(7) con scr by simp
  then obtain c where c: "term_init (ptov 0xB8000 ?u) (con ?u) = Inr c" "term_ok c" using term_init_ok by blast
  let ?v = "?u\<lparr>con := c\<rparr>"
  let ?f = "(kfs (kernel mc))\<lparr>fds := (fds (kfs (kernel mc)))\<lparr>vm := ?v\<rparr>\<rparr>"
  have "init_state ?f" using unmounted_init [OF fs, of ?v] c(2) by simp
  moreover have "region_present (vm (fds ?f))" using region_kept [OF mem(3,1,5,4)] by simp
  moreover have "next_fd (fds ?f) = 0" using fs by (simp add: unmounted_def)
  ultimately obtain t c2 where t: "fs_init ?f = Inr t" "fm_rel fm_empty t" "vm (fds t) = (vm (fds ?f))\<lparr>con := c2\<rparr>"
    using fs_init_mounts by blast
  have vt: "vm (fds t) = ?u\<lparr>con := c2\<rparr>" using t(3) by simp
  have "term_ok (con (vm (fds t)))" using t(2) by (auto simp: fm_rel_def fs_ok_def handles_ok_def)
  then have c2: "term_ok c2" using vt by simp
  then have blank: "blank_space lower_half (vm (fds t))" using frees(2) vt by simp
  have root: "cr3_root (vm (fds t)) = ?root" using frees(6) vt by (simp add: read_cr3_def)
  have none: "\<forall>b \<in> lower_half. \<not> page_present (vm (fds t)) b" unfolding vt using frees(3) by simp
  have avail: "mem_avail (vm (fds t)) = mem_avail m \<union> set (lower_tables m)" unfolding vt using frees(1) by simp
  let ?mc = "mc\<lparr>mgdt := g', midt := idt_setup (at_handler lay) (at_idt lay)\<rparr>"
  let ?s = "(set_con c (set_vm ?u ?s1))\<lparr>kfs := t\<rparr>"
  have f: "kfs (set_con c (set_vm u (set_vm m ((pics_ready k)\<lparr>boot_hdr := h\<rparr>))))
      = (kfs k)\<lparr>fds := (fds (kfs k))\<lparr>vm := u\<lparr>con := c\<rparr>\<rparr>\<rparr>" for u h k
    by (simp add: set_con_def set_vm_def pics_ready_def)
  have fold_res: "bindE r (\<lambda>(e, s). Inr (Usermode d sp cs e, mc\<lparr>kernel := s\<rparr>))
      = map_res (\<lambda>(e, s). (Usermode d sp cs e, mc\<lparr>kernel := s\<rparr>)) r" for r :: "(u64 \<times> kstate) res" and d sp cs and mc :: machine
    by (cases r) auto
  have "start_kernel lay hdr mc = bindE (boot_stack (cr3_root (kvm ?s)) 8 USER_STACK (kvm ?s))
        (\<lambda>m. map_res (entered ?mc) (loading (load_module hdr (c_lit ''init'')) (set_vm m ?s)))"
    using g' fl c(1) t(1) root by (simp add: start_kernel_def Let_def f fold_res)
  moreover have "kkbd ?s = kkbd (kernel mc)" "boot_hdr ?s = hdr" "kram ?s = kram (kernel mc)"
    by (simp_all add: set_vm_def set_con_def pics_ready_def)
  moreover have "kvm ?s = vm (fds t)" "kfs ?s = t" by simp_all
  moreover have "\<exists>c. term_ok c \<and> vm (fds t) = ?u\<lparr>con := c\<rparr>" using c2 vt by blast
  ultimately show ?thesis using t(2) blank none avail by metis
qed

text \<open>Every step up to the loader returns; the state in which \<open>init\<close> is loaded has an empty file
  system, a lower half in order and a mapped user stack.\<close>

lemma start_kernel_loads:
  assumes "gdt_size (mgdt mc) \<le> 0x58" and "freelist_init hdr (kvm (pics_ready (kernel mc))) = Inr m"
    and "mem_inv m" and "\<forall>p \<in> mem_avail m. phys p" and "tree_ok m" and "region_present m" and "region_apart m"
    and "length (term_buf (kcon (kernel mc))) = 2000" and "unmounted (kfs (kernel mc))"
  shows "\<exists>s mc'. start_kernel lay hdr mc = map_res (entered mc') (loading (load_module hdr (c_lit ''init'')) s)
    \<and> fm_rel fm_empty (kfs s) \<and> blank_space lower_half (kvm s)
    \<and> ((\<forall>i < 8. page_present (kvm s) (USER_STACK + of_nat i * 0x1000)) \<or> mem_avail (kvm s) = {})
    \<and> kkbd s = kkbd (kernel mc) \<and> boot_hdr s = hdr"
proof -
  obtain t mc' where t: "start_kernel lay hdr mc = bindE (boot_stack (cr3_root (kvm t)) 8 USER_STACK (kvm t))
        (\<lambda>m. map_res (entered mc') (loading (load_module hdr (c_lit ''init'')) (set_vm m t)))"
    "fm_rel fm_empty (kfs t)" "blank_space lower_half (kvm t)" "kkbd t = kkbd (kernel mc)" "boot_hdr t = hdr"
    using start_kernel_mounts [OF assms, of lay] by blast
  have maps: "maps_in lower_half (cr3_root (kvm t)) (kvm t)" using blank_space_inv [OF t(3)] by (simp add: maps_in_def)
  from boot.map_each_maps [OF maps stack_pages] obtain m2 where m2:
    "boot_stack (cr3_root (kvm t)) 8 USER_STACK (kvm t) = Inr m2"
    "(\<forall>a \<in> set (page_list USER_STACK 8). page_present m2 a) \<or> no_pages m2"
    unfolding boot_stack_each by blast
  have bl: "blank_space lower_half m2"
    using boot.map_each_keeps [where P = "blank_space lower_half", OF _ maps t(3) stack_pages]
      boot_page_blank m2(1) unfolding boot_stack_each by blast
  let ?s = "set_vm m2 t"
  have "start_kernel lay hdr mc = map_res (entered mc') (loading (load_module hdr (c_lit ''init'')) ?s)"
    using t(1) m2(1) by simp
  moreover have "fm_rel fm_empty (kfs ?s)"
    using rel_vm [OF t(2) vm_inv_term [OF blank_space_inv [OF bl]]] by (simp add: set_vm_def)
  moreover have "USER_STACK + of_nat i * 0x1000 \<in> set (page_list USER_STACK 8)" if "i < 8" for i
    unfolding set_page_list using that by blast
  then have "(\<forall>i < 8. page_present (kvm ?s) (USER_STACK + of_nat i * 0x1000)) \<or> mem_avail (kvm ?s) = {}"
    using m2(2) by (auto simp: no_pages_def simp del: page_list.simps)
  moreover have "kkbd ?s = kkbd (kernel mc)" "boot_hdr ?s = hdr" "kvm ?s = m2" using t(4,5) by (simp_all add: set_vm_def)
  ultimately show ?thesis using bl by metis
qed

text \<open>With enough memory the kernel reaches its first program.\<close>

lemma boot_stack_map_stack:
  "vm_inv A m \<Longrightarrow> set (page_list p n) \<subseteq> A \<Longrightarrow> cr3_root m = root \<Longrightarrow> boot_stack root n p m = map_stack n p m"
proof (induction n arbitrary: p m)
  case (Suc n)
  have p: "p \<in> A" "set (page_list (p + PAGESIZE) n) \<subseteq> A" using Suc.prems(2) by simp_all
  obtain rc m1 where m1: "vm_map root p True True False m = Inr (rc, m1)" "vm_inv A m1" "cr3 m1 = cr3 m"
    using vm_map_maps [OF Suc.prems(1) p(1), of True True False] Suc.prems(3) by blast
  have "cr3_root m1 = root" using m1(3) Suc.prems(3) by (simp add: read_cr3_def)
  from Suc.IH [OF m1(2) p(2) this] show ?case using m1(1) Suc.prems(3) by simp
qed simp

lemma start_kernel_runs:
  assumes start: "gdt_size (mgdt mc) \<le> 0x58" "freelist_init hdr (kvm (pics_ready (kernel mc))) = Inr m"
      "mem_inv m" "\<forall>p \<in> mem_avail m. phys p" "tree_ok m" "region_present m" "region_apart m"
      "length (term_buf (kcon (kernel mc))) = 2000" "unmounted (kfs (kernel mc))"
    and mod: "find_tag hdr MODULES_ID = Some (Modules_Tag ms)" "\<forall>m \<in> set ms. terminated (mod_string m)"
      "find (\<lambda>m. cstr (mod_string m) = bytes_of ''init'') ms = Some md"
      "read_elf_header (mod_image md) = Inr eh" "length phs = e_phnum eh"
      "\<forall>i < length phs. read_program_header (mod_image md) (e_phoff eh + 56 * of_nat i) = Inr (phs ! i)"
      "\<forall>ph \<in> set (filter loads phs). seg_ok lower_half (mod_image md) ph"
      "distinct (map (\<lambda>ph. page_no (seg_page ph)) (filter loads phs))"
    and P: "P \<subseteq> mem_avail m \<union> set (lower_tables m)" "finite P" "24 + 3 * length (filter loads phs) \<le> card P"
    and apart: "seg_pages phs \<inter> stack_nos = {}"
  shows "\<exists>mc'. start_kernel lay hdr mc = Inr (Usermode (USER_DATA_SELECTOR OR 3) (USER_STACK + 8 * 0x1000 - 8)
        (USER_CODE_SELECTOR OR 3) (e_entry eh), mc')
    \<and> fm_rel fm_empty (kfs (kernel mc')) \<and> blank_space lower_half (kvm (kernel mc'))
    \<and> (\<forall>b \<in> lower_half. page_present (kvm (kernel mc')) b \<longleftrightarrow> page_no b \<in> seg_pages phs \<union> stack_nos)
    \<and> kram (kernel mc') = fold (place (mod_image md)) (filter loads phs) (kram (kernel mc))
    \<and> kkbd (kernel mc') = kkbd (kernel mc) \<and> boot_hdr (kernel mc') = hdr"
proof -
  have str: "terminated (c_lit ''init'')" "cstr (c_lit ''init'') = bytes_of ''init''" by (simp_all add: c_lit_def bytes_of_def)
  obtain t mc' where t: "start_kernel lay hdr mc = bindE (boot_stack (cr3_root (kvm t)) 8 USER_STACK (kvm t))
        (\<lambda>m. map_res (entered mc') (loading (load_module hdr (c_lit ''init'')) (set_vm m t)))"
    "fm_rel fm_empty (kfs t)" "blank_space lower_half (kvm t)" "\<forall>b \<in> lower_half. \<not> page_present (kvm t) b"
    "mem_avail (kvm t) = mem_avail m \<union> set (lower_tables m)"
    "kkbd t = kkbd (kernel mc)" "boot_hdr t = hdr" "kram t = kram (kernel mc)"
    using start_kernel_mounts [OF start, of lay] by blast
  have absent: "\<forall>b \<in> lower_half. page_no b \<in> stack_nos \<longrightarrow> \<not> page_present (kvm t) b" using t(4) by blast
  have P1: "P \<subseteq> mem_avail (kvm t)" "24 \<le> card P" using P(1,3) t(5) by simp_all
  from map_stack_exact [OF t(3) absent P1(1) P(2) P1(2)] obtain m1 where m1: "map_stack 8 USER_STACK (kvm t) = Inr m1"
    "blank_space lower_half m1" "uses_pages 24 (mem_avail (kvm t)) (mem_avail m1)"
    "\<forall>b \<in> lower_half. page_present m1 b \<longleftrightarrow> page_present (kvm t) b \<or> page_no b \<in> stack_nos" by blast
  obtain P' where P': "P' \<subseteq> mem_avail m1" "finite P'" "3 * length (filter loads phs) \<le> card P'"
    using uses_pages_left [OF m1(3) P1(1) P(2,3)] by blast
  let ?t = "set_vm m1 t"
  have vm: "kvm ?t = m1" "kram ?t = kram t" "kkbd ?t = kkbd t" "boot_hdr ?t = boot_hdr t" by (simp_all add: set_vm_def)
  have absent: "\<forall>b \<in> lower_half. page_no b \<in> seg_pages phs \<longrightarrow> \<not> page_present (kvm ?t) b"
    unfolding vm using m1(4) t(4) apart by blast
  have blank: "blank_space lower_half (kvm ?t)" and avail: "P' \<subseteq> mem_avail (kvm ?t)" using m1(2) P'(1) vm(1) by simp_all
  from load_blank [OF blank str mod absent avail P'(2,3)] obtain m2 where m2:
    "loading (load_module hdr (c_lit ''init'')) ?t
      = Inr (e_entry eh, set_vm m2 (?t\<lparr>kram := fold (place (mod_image md)) (filter loads phs) (kram t)\<rparr>))"
    "blank_space lower_half m2"
    "\<forall>b \<in> lower_half. page_present m2 b \<longleftrightarrow> page_present m1 b \<or> page_no b \<in> seg_pages phs" unfolding vm by blast
  let ?s = "set_vm m2 (?t\<lparr>kram := fold (place (mod_image md)) (filter loads phs) (kram t)\<rparr>)"
  have "boot_stack (cr3_root (kvm t)) 8 USER_STACK (kvm t) = Inr m1"
    using boot_stack_map_stack [OF blank_space_inv [OF t(3)] stack_pages refl] m1(1) by simp
  then have run: "start_kernel lay hdr mc = Inr (entered mc' (e_entry eh, ?s))" using t(1) m2(1) by simp
  have "fm_rel fm_empty (kfs ?t)" using rel_vm [OF t(2) vm_inv_term [OF blank_space_inv [OF m1(2)]]] by (simp add: set_vm_def)
  from rel_vm [OF this vm_inv_term [OF blank_space_inv [OF m2(2)]]] have rel: "fm_rel fm_empty (kfs ?s)" by (simp add: set_vm_def)
  have s: "kvm ?s = m2" "kram ?s = fold (place (mod_image md)) (filter loads phs) (kram t)" "kkbd ?s = kkbd t" "boot_hdr ?s = boot_hdr t"
    using vm(3,4) by (simp_all add: set_vm_def)
  obtain v where v: "start_kernel lay hdr mc = Inr (entered mc' (e_entry eh, v))" "fm_rel fm_empty (kfs v)" "kvm v = m2"
    "kram v = fold (place (mod_image md)) (filter loads phs) (kram t)" "kkbd v = kkbd t" "boot_hdr v = boot_hdr t"
    using run rel s by blast
  have "\<forall>b \<in> lower_half. page_present m2 b \<longleftrightarrow> page_no b \<in> seg_pages phs \<union> stack_nos"
    using m2(3) m1(4) t(4) by blast
  then show ?thesis using m2(2) t(6-8) v by (intro exI [of _ "mc'\<lparr>kernel := v\<rparr>"]) simp
qed

section \<open>And again\<close>

text \<open>A kernel that has started has its memory in order, so that \<open>init\<close> can always be restarted.\<close>

lemma boot_stack_upkeep:
  assumes "blank_space lower_half m" and "boot_stack (cr3_root m) 8 USER_STACK m = Inr m'"
  shows "upkeep m m'"
  using map_stack_upkeep [OF stack_pages] assms(2) boot_stack_map_stack [OF blank_space_inv [OF assms(1)] stack_pages refl] by simp

lemma start_kernel_ready:
  assumes start: "gdt_size (mgdt mc) \<le> 0x58" "freelist_init hdr (kvm (pics_ready (kernel mc))) = Inr m"
      "mem_inv m" "\<forall>p \<in> mem_avail m. phys p" "tree_ok m" "region_present m" "region_apart m"
      "length (term_buf (kcon (kernel mc))) = 2000" "unmounted (kfs (kernel mc))"
    and nz: "\<forall>p \<in> pool m. p + hhdm_addr m \<noteq> 0"
    and low: "\<And>ms. find_tag hdr MODULES_ID = Some (Modules_Tag ms) \<Longrightarrow> modules_low ms"
    and run: "start_kernel lay hdr mc = Inr (x, mc')"
  shows "reclaimable (kvm (kernel mc'))" and "pool (kvm (kernel mc')) = pool m" and "boot_hdr (kernel mc') = hdr"
proof -
  let ?u = "unmap_lower_half (cr3_root m) m"
  obtain s mk c where s: "start_kernel lay hdr mc = bindE (boot_stack (cr3_root (kvm s)) 8 USER_STACK (kvm s))
        (\<lambda>m. map_res (entered mk) (loading (load_module hdr (c_lit ''init'')) (set_vm m s)))"
    "blank_space lower_half (kvm s)" "boot_hdr s = hdr" "term_ok c" "kvm s = ?u\<lparr>con := c\<rparr>"
    using start_kernel_mounts [OF start, of lay] by blast
  obtain m1 f v where v: "boot_stack (cr3_root (kvm s)) 8 USER_STACK (kvm s) = Inr m1"
    "loading (load_module hdr (c_lit ''init'')) (set_vm m1 s) = Inr (f, v)" "kernel mc' = v"
    using run unfolding s(1) by auto
  note ready = unmap_pool [OF start(5,3,4)]
  have pool: "pool (kvm s) = pool m" unfolding s(5) ready(1) [symmetric] by (rule pool_cells) simp_all
  have "hhdm_addr (kvm s) = hhdm_addr m" unfolding s(5) using ready(4) by simp
  then have rec: "reclaimable (kvm s)" unfolding reclaimable_def pool using s(2) nz by simp
  have "upkeep (kvm s) m1" by (rule boot_stack_upkeep [OF s(2) v(1)])
  moreover have "upkeep (kvm (set_vm m1 s)) (kvm v)" by (rule load_module_upkeep [OF low v(2)])
  ultimately have "upkeep (kvm s) (kvm v)" by (metis upkeep_trans set_vm_fields(1))
  then show "reclaimable (kvm (kernel mc'))" "pool (kvm (kernel mc')) = pool m"
    using rec pool v(3) by (simp_all add: upkeep_def)
  show "boot_hdr (kernel mc') = hdr" using loading_hdr [OF v(2)] s(3) v(3) by (simp add: set_vm_def)
qed

end
