(* ===== verification/Userheap.thy ===== *)
theory Userheap
  imports SysMap
begin

text \<open>
  The allocator of user programs, \<open>malloc\<close> of \<^verbatim>\<open>src/stdlib/mem.c\<close>, over the kernel's
  \<open>SYS_mmap\<close>: a region from which blocks are cut from the front; a region that is too small for
  the next block is abandoned for a new one. \<open>free\<close> does nothing.
\<close>

section \<open>mem.c\<close>

record heap =
  bump :: u64
  space_remaining :: u64

definition round_up :: "u64 \<Rightarrow> u64 \<Rightarrow> u64" where
  "round_up x y = (if x mod y = 0 then x else x + (y - x mod y))"

text \<open>\<open>mmap\<close>: protection 3, read and write; the flags, descriptor and offset are not used.\<close>

definition u_mmap :: "u64 \<Rightarrow> u64 \<Rightarrow> u32 \<Rightarrow> kstate \<Rightarrow> (u64 \<times> kstate) res" where
  "u_mmap addr len prot s = (if len = 0 then Inr (-1, s) else SYS_mmap addr len prot s)"

definition malloc :: "u64 \<Rightarrow> heap \<times> kstate \<Rightarrow> (u64 \<times> heap \<times> kstate) res" where
  "malloc sz = (\<lambda>(h, s).
    (let sz = round_up sz 16;
         grab = (\<lambda>(h, s). Inr (bump h, \<lparr>bump = bump h + sz, space_remaining = space_remaining h - sz\<rparr>, s))
     in if space_remaining h < sz then
          (let rounded_up = round_up sz 0x1000 in
           bindE (u_mmap 0 rounded_up 3 s) (\<lambda>(newmem, s).
             if newmem = 0 then Inr (0, h, s)
             else grab (\<lparr>bump = newmem, space_remaining = rounded_up\<rparr>, s)))
        else grab (h, s)))"

text \<open>\<open>exec\<close> returns only if the module's entry point does.\<close>

definition u_exec :: "u64 \<Rightarrow> kstate \<Rightarrow> (sysret \<times> kstate) res" where
  "u_exec file_name s = syscall_handler 5 file_name 0 0 0 s"

definition free :: "u64 \<Rightarrow> heap \<times> kstate \<Rightarrow> heap \<times> kstate" where
  "free p hs = hs"

section \<open>Rounding\<close>

definition up :: "nat \<Rightarrow> nat \<Rightarrow> nat" where
  "up x y = (x + y - 1) div y * y"

lemma up_props:
  assumes "0 < y"
  shows "x \<le> up x y" and "up x y < x + y" and "y dvd up x y"
proof -
  have "(x + y - 1) div y * y + (x + y - 1) mod y = x + y - 1" by simp
  moreover have "(x + y - 1) mod y < y" using assms by simp
  ultimately show "x \<le> up x y" "up x y < x + y" using assms unfolding up_def by linarith+
  show "y dvd up x y" by (simp add: up_def)
qed

lemma up_eq: "0 < y \<Longrightarrow> (if x mod y = 0 then x else x + (y - x mod y)) = up x y"
proof -
  assume y: "0 < y"
  define q r where "q = x div y" and "r = x mod y"
  then have qr: "x = q * y + r" "r < y" "x div y = q" "x mod y = r" using y by simp_all
  show ?thesis
  proof (cases "r = 0")
    case True
    then have "(x + y - 1) div y = q" using qr y by (intro div_nat_eqI) (simp_all add: algebra_simps)
    then show ?thesis using qr True by (simp add: up_def)
  next
    case False
    then have "(x + y - 1) div y = Suc q" using qr y by (intro div_nat_eqI) (simp_all add: algebra_simps)
    then show ?thesis using qr False by (simp add: up_def)
  qed
qed

lemma unat_round_up:
  assumes "0 < unat y" and "unat x + unat y \<le> 2 ^ 64"
  shows "unat (round_up x y) = up (unat x) (unat y)"
proof -
  have m: "unat (x mod y) = unat x mod unat y" by (simp add: unat_mod_distrib)
  have lt: "unat x mod unat y < unat y" using assms(1) by simp
  have z: "x mod y = 0 \<longleftrightarrow> unat x mod unat y = 0" by (simp add: unat_eq_zero [symmetric] m)
  have "unat (y - x mod y) = unat y - unat x mod unat y"
    using lt m by (subst unat_sub_small) (simp_all add: word_le_nat_alt)
  moreover have "unat x + (unat y - unat x mod unat y) < 2 ^ 64" if "unat x mod unat y \<noteq> 0"
    using assms that lt by linarith
  ultimately have "unat (x + (y - x mod y)) = unat x + (unat y - unat x mod unat y)" if "unat x mod unat y \<noteq> 0"
    using that by (subst unat_add_small) simp_all
  then show ?thesis using z up_eq [OF assms(1), of "unat x"] by (simp add: round_up_def split: if_splits)
qed

section \<open>Blocks\<close>

text \<open>
  The user addresses that no block has yet: the rest of the region and everything that
  \<open>SYS_mmap\<close> has not handed out. \<open>lim\<close> bounds the addresses that may be mapped.
\<close>

definition unused :: "heap \<times> kstate \<Rightarrow> nat set" where
  "unused = (\<lambda>(h, s). {unat (bump h)..<unat (bump h) + unat (space_remaining h)} \<union> {unat (mem_start s)..})"

definition bytes_mapped :: "nat \<Rightarrow> nat \<Rightarrow> mem_state \<Rightarrow> bool" where
  "bytes_mapped p n m \<longleftrightarrow> mem_avail m = {} \<or> (\<forall>a. p \<le> unat a \<longrightarrow> unat a < p + n \<longrightarrow> page_present m a)"

definition heap_ok :: "nat \<Rightarrow> heap \<times> kstate \<Rightarrow> bool" where
  "heap_ok lim = (\<lambda>(h, s). vm_inv {a. unat a < lim} (kvm s) \<and> lim + 0x1000 \<le> 2 ^ 64
     \<and> aligned (mem_start s) \<and> 0 < unat (mem_start s) \<and> unat (mem_start s) \<le> lim
     \<and> 16 dvd unat (bump h) \<and> 16 dvd unat (space_remaining h)
     \<and> unat (bump h) + unat (space_remaining h) \<le> unat (mem_start s)
     \<and> bytes_mapped (unat (bump h)) (unat (space_remaining h)) (kvm s))"

lemma page_present_page:
  assumes "aligned p" and "j < 4096"
  shows "page_present m (p + of_nat j) = page_present m p"
proof -
  have "p AND 0xFFF = 0"
  proof -
    have "\<not> bit p k" if "k < 12" for k using aligned_low_bits [OF assms(1) that] .
    then have "p AND mask 12 = 0" by (intro bit_word_eqI) (auto simp: bit_simps)
    then show ?thesis by (simp add: mask_eq_exp_minus_1)
  qed
  then have "(p + of_nat j) AND NOT 0xFFF = p AND NOT 0xFFF" using page_split(1) [of p j] assms(2) by simp
  then have "leaf_entry m (p + of_nat j) root = leaf_entry m p root" for root using leaf_entry_page by metis
  then show ?thesis by (simp add: page_present_def)
qed

lemma region_mapped:
  assumes st: "aligned st" "unat st + 4096 * n < 2 ^ 64"
    and pages: "\<forall>i < n. page_present m (st + of_nat i * 0x1000)"
    and a: "unat st \<le> unat a" "unat a < unat st + 4096 * n"
  shows "page_present m a"
proof -
  have "unat a = unat st + 4096 * ((unat a - unat st) div 4096) + (unat a - unat st) mod 4096"
    "(unat a - unat st) div 4096 < n" "(unat a - unat st) mod 4096 < 4096"
    using a by (simp_all add: less_mult_imp_div_less)
  then obtain i j where ij: "unat a = unat st + 4096 * i + j" "i < n" "j < 4096" by blast
  have "(of_nat (unat a) :: u64) = of_nat (unat st + 4096 * i + j)" by (simp only: ij(1))
  then have split: "a = st + of_nat i * 0x1000 + of_nat j" by (simp add: algebra_simps)
  have "unat (of_nat i * 0x1000 :: u64) = 4096 * i"
    using ij(2) st(2) by (subst unat_mult_small) (simp_all add: unat_of_nat_small)
  then have "aligned (of_nat i * 0x1000)" by (simp add: aligned_def)
  then have "aligned (st + of_nat i * 0x1000)" using st(1) aligned_add by blast
  then show ?thesis using page_present_page [of "st + of_nat i * 0x1000" j m] pages ij(2,3) split by simp
qed

section \<open>malloc\<close>

definition block_size :: "u64 \<Rightarrow> nat" where
  "block_size sz = up (unat sz) 16"

text \<open>What one call promises: a block of unused addresses that are no longer unused, mapped
  unless physical memory has run out, with everything that was mapped still mapped.\<close>

definition block_given :: "nat \<Rightarrow> u64 \<Rightarrow> heap \<times> kstate \<Rightarrow> u64 \<Rightarrow> heap \<times> kstate \<Rightarrow> bool" where
  "block_given lim sz hs p hs' \<longleftrightarrow> heap_ok lim hs' \<and> 16 dvd unat p
     \<and> {unat p..<unat p + block_size sz} \<subseteq> unused hs
     \<and> unused hs' \<subseteq> unused hs - {unat p..<unat p + block_size sz}
     \<and> bytes_mapped (unat p) (block_size sz) (kvm (snd hs'))
     \<and> unat p + block_size sz \<le> unat (mem_start (snd hs'))
     \<and> (\<forall>q n. q + n \<le> lim \<longrightarrow> bytes_mapped q n (kvm (snd hs)) \<longrightarrow> bytes_mapped q n (kvm (snd hs')))
     \<and> unat (mem_start (snd hs')) \<le> unat (mem_start (snd hs)) + up (block_size sz) 4096"

lemma bytes_mapped_part: "bytes_mapped p n m \<Longrightarrow> p \<le> q \<Longrightarrow> q + k \<le> p + n \<Longrightarrow> bytes_mapped q k m"
  by (auto simp: bytes_mapped_def)

lemma grab_block:
  assumes ok: "heap_ok lim (h, s)" and n: "unat n = block_size sz" "n \<le> space_remaining h"
  shows "block_given lim sz (h, s) (bump h) (\<lparr>bump = bump h + n, space_remaining = space_remaining h - n\<rparr>, s)"
proof -
  let ?b = "unat (bump h)" and ?r = "unat (space_remaining h)"
  have le: "unat n \<le> ?r" using n(2) by (simp add: word_le_nat_alt)
  have lim: "?b + ?r \<le> lim" "lim + 0x1000 \<le> 2 ^ 64" using ok by (auto simp: heap_ok_def)
  then have b: "unat (bump h + n) = ?b + unat n" using le by (subst unat_add_small) simp_all
  have r: "unat (space_remaining h - n) = ?r - unat n" using n(2) by (rule unat_sub_small)
  have "16 dvd unat n" using n(1) up_props(3) by (simp add: block_size_def)
  then show ?thesis using ok le b r n(1)
    by (auto simp: block_given_def heap_ok_def unused_def dvd_diff_nat intro: bytes_mapped_part)
qed

lemma malloc_gives:
  assumes ok: "heap_ok lim (h, s)" and sz: "block_size sz < 0x7FFFF000 - 0x1000"
    and room: "unat (mem_start s) + up (block_size sz) 4096 \<le> lim"
  shows "\<exists>p hs'. malloc sz (h, s) = Inr (p, hs') \<and> block_given lim sz (h, s) p hs'"
proof -
  let ?n = "round_up sz 16"
  have small: "unat sz < 0x7FFFF000" using sz up_props(1) [of 16 "unat sz"] by (simp add: block_size_def)
  have n: "unat ?n = block_size sz" using small by (subst unat_round_up) (simp_all add: block_size_def)
  show ?thesis
  proof (cases "space_remaining h < ?n")
    case False
    then show ?thesis using grab_block [OF ok n] by (auto simp: malloc_def Let_def not_less)
  next
    case True
    let ?l = "round_up ?n 0x1000"
    have l: "unat ?l = up (block_size sz) 4096" using n sz by (subst unat_round_up) simp_all
    obtain k where k: "unat ?l = 4096 * k" using l up_props(3) [of 4096] by (metis dvdE zero_less_numeral)
    have "0 < unat ?n" using True by (simp add: word_less_nat_alt)
    then have pos: "0 < unat ?l" using l n up_props(1) [of 4096 "block_size sz"] by simp
    have lt: "unat ?l < 0x7FFFF000" using l up_props(2) [of 4096 "block_size sz"] sz by simp
    have st: "aligned (mem_start s)" "0 < unat (mem_start s)" "lim + 0x1000 \<le> 2 ^ 64"
      "unat (mem_start s) + unat ?l \<le> lim" using ok room l by (auto simp: heap_ok_def)
    have "mem_start s + of_nat i * PAGESIZE \<in> {a. unat a < lim}" if "i < k" for i
    proof -
      have "unat (of_nat i * PAGESIZE :: u64) = i * 4096" using that k st(3,4)
        by (subst unat_mult_small) (simp_all add: unat_of_nat_small)
      then have "unat (mem_start s + of_nat i * PAGESIZE) = unat (mem_start s) + i * 4096"
        using that k st(3,4) by (subst unat_add_small) simp_all
      then show ?thesis using that k st(4) by simp
    qed
    moreover have "vm_inv {a. unat a < lim} (kvm s)" using ok by (simp add: heap_ok_def)
    moreover have "k < 0x7FFFF" using k lt by simp
    ultimately obtain m where m: "SYS_mmap 0 ?l 3 s = Inr (mem_start s, set_vm m (s\<lparr>mem_start := mem_start s + ?l\<rparr>))"
      "vm_inv {a. unat a < lim} m" "(\<forall>i < k. page_present m (mem_start s + of_nat i * PAGESIZE)) \<or> mem_avail m = {}"
      "\<forall>b \<in> {a. unat a < lim}. page_present (kvm s) b \<longrightarrow> page_present m b" "mem_avail (kvm s) = {} \<longrightarrow> mem_avail m = {}"
      using sys_mmap_maps [of "{a. unat a < lim}" s ?l k 3] k by blast
    let ?s = "set_vm m (s\<lparr>mem_start := mem_start s + ?l\<rparr>)" and ?h = "\<lparr>bump = mem_start s, space_remaining = ?l\<rparr>"
    have ms: "unat (mem_start s + ?l) = unat (mem_start s) + unat ?l" using st(3,4) by (subst unat_add_small) simp_all
    have mapped: "bytes_mapped (unat (mem_start s)) (unat ?l) m"
      using m(3) region_mapped [OF st(1), of k m] k st(3,4) by (auto simp: bytes_mapped_def)
    have "aligned ?l" using k by (simp add: aligned_def)
    then have "aligned (mem_start s + ?l)" using st(1) aligned_add by blast
    moreover have "16 dvd unat (mem_start s)" "16 dvd unat ?l"
      using st(1) k by (auto simp: aligned_def intro: dvd_trans [of 16 4096])
    ultimately have ok': "heap_ok lim (?h, ?s)"
      using st m(2) ms mapped pos ok by (simp add: heap_ok_def)
    have "?n \<le> ?l" using l n up_props(1) [of 4096 "block_size sz"] by (simp add: word_le_nat_alt)
    note given = grab_block [OF ok', of ?n sz, simplified, OF n this]
    have keep: "bytes_mapped q j m" if "q + j \<le> lim" "bytes_mapped q j (kvm s)" for q j
      using that m(4,5) unfolding bytes_mapped_def by (metis mem_Collect_eq order_less_le_trans)
    have sub: "unused (?h, ?s) \<subseteq> unused (h, s)" using ms by (auto simp: unused_def)
    have "malloc sz (h, s) = Inr (mem_start s, \<lparr>bump = mem_start s + ?n, space_remaining = ?l - ?n\<rparr>, ?s)"
      using True m(1) pos st(2) by (auto simp: malloc_def u_mmap_def Let_def)
    moreover have "block_given lim sz (h, s) (mem_start s) (\<lparr>bump = mem_start s + ?n, space_remaining = ?l - ?n\<rparr>, ?s)"
      using given sub keep ms l unfolding block_given_def by (simp, blast)
    ultimately show ?thesis by blast
  qed
qed

section \<open>Several blocks\<close>

fun mallocs :: "u64 list \<Rightarrow> heap \<times> kstate \<Rightarrow> (u64 list \<times> heap \<times> kstate) res" where
  "mallocs [] hs = Inr ([], hs)"
| "mallocs (sz # szs) hs = bindE (malloc sz hs) (\<lambda>(p, hs). map_res (\<lambda>(ps, hs). (p # ps, hs)) (mallocs szs hs))"

definition block :: "u64 \<Rightarrow> u64 \<Rightarrow> nat set" where
  "block p sz = {unat p..<unat p + block_size sz}"

abbreviation pages_for :: "u64 list \<Rightarrow> nat" where
  "pages_for szs \<equiv> sum_list (map (\<lambda>sz. up (block_size sz) 4096) szs)"

lemma mallocs_disjoint:
  "heap_ok lim hs \<Longrightarrow> (\<forall>sz \<in> set szs. block_size sz < 0x7FFFF000 - 0x1000) \<Longrightarrow>
   unat (mem_start (snd hs)) + pages_for szs \<le> lim \<Longrightarrow>
   \<exists>ps hs'. mallocs szs hs = Inr (ps, hs') \<and> length ps = length szs \<and> heap_ok lim hs'
     \<and> (\<forall>i < length szs. 16 dvd unat (ps ! i) \<and> block (ps ! i) (szs ! i) \<subseteq> unused hs
          \<and> bytes_mapped (unat (ps ! i)) (block_size (szs ! i)) (kvm (snd hs')))
     \<and> (\<forall>i < length szs. \<forall>j < i. block (ps ! i) (szs ! i) \<inter> block (ps ! j) (szs ! j) = {})
     \<and> (\<forall>q n. q + n \<le> lim \<longrightarrow> bytes_mapped q n (kvm (snd hs)) \<longrightarrow> bytes_mapped q n (kvm (snd hs')))"
proof (induction szs arbitrary: hs)
  case (Cons sz szs)
  obtain h s where hs: "hs = (h, s)" by (cases hs)
  have sz: "block_size sz < 0x7FFFF000 - 0x1000" using Cons.prems(2) by simp
  have room: "unat (mem_start s) + up (block_size sz) 4096 \<le> lim" using Cons.prems(3) hs by simp
  obtain p hs1 where p: "malloc sz (h, s) = Inr (p, hs1)" "block_given lim sz (h, s) p hs1"
    using malloc_gives [OF _ sz room] Cons.prems(1) hs by blast
  have ok1: "heap_ok lim hs1" and al: "16 dvd unat p" and blk: "block p sz \<subseteq> unused (h, s)"
    "unused hs1 \<subseteq> unused (h, s) - block p sz" and bm: "bytes_mapped (unat p) (block_size sz) (kvm (snd hs1))"
    and keep: "\<forall>q n. q + n \<le> lim \<longrightarrow> bytes_mapped q n (kvm s) \<longrightarrow> bytes_mapped q n (kvm (snd hs1))"
    and ms: "unat (mem_start (snd hs1)) \<le> unat (mem_start s) + up (block_size sz) 4096"
      "unat p + block_size sz \<le> unat (mem_start (snd hs1))"
    using p(2) by (simp_all add: block_given_def block_def)
  have "unat (mem_start (snd hs1)) + pages_for szs \<le> lim" using ms(1) Cons.prems(3) hs by simp
  then obtain ps hs' where ps: "mallocs szs hs1 = Inr (ps, hs')" "length ps = length szs" "heap_ok lim hs'"
    "\<And>i. i < length szs \<Longrightarrow> 16 dvd unat (ps ! i) \<and> block (ps ! i) (szs ! i) \<subseteq> unused hs1
        \<and> bytes_mapped (unat (ps ! i)) (block_size (szs ! i)) (kvm (snd hs'))"
    "\<And>i j. i < length szs \<Longrightarrow> j < i \<Longrightarrow> block (ps ! i) (szs ! i) \<inter> block (ps ! j) (szs ! j) = {}"
    "\<forall>q n. q + n \<le> lim \<longrightarrow> bytes_mapped q n (kvm (snd hs1)) \<longrightarrow> bytes_mapped q n (kvm (snd hs'))"
    using Cons.IH [OF ok1] Cons.prems(2) by auto
  have "unat (mem_start (snd hs1)) \<le> lim" using ok1 by (auto simp: heap_ok_def)
  then have bm': "bytes_mapped (unat p) (block_size sz) (kvm (snd hs'))"
    using ps(6) bm ms(2) by (meson order_trans)
  let ?ps = "p # ps" and ?szs = "sz # szs"
  have each: "16 dvd unat (?ps ! i) \<and> block (?ps ! i) (?szs ! i) \<subseteq> unused (h, s)
      \<and> bytes_mapped (unat (?ps ! i)) (block_size (?szs ! i)) (kvm (snd hs'))" if "i < length ?szs" for i
  proof (cases i)
    case (Suc k)
    then show ?thesis using that ps(4) [of k] blk(2) by auto
  qed (use al blk bm' in simp)
  have disj: "block (?ps ! i) (?szs ! i) \<inter> block (?ps ! j) (?szs ! j) = {}" if ij: "i < length ?szs" "j < i" for i j
  proof -
    obtain i' where i: "i = Suc i'" using ij(2) by (cases i) simp_all
    have i': "i' < length szs" using ij(1) i by simp
    show ?thesis
    proof (cases j)
      case 0
      then show ?thesis using ps(4) [OF i'] blk(2) i by auto
    next
      case (Suc j')
      then show ?thesis using ps(5) [OF i', of j'] i ij(2) Suc by simp
    qed
  qed
  have "mallocs ?szs hs = Inr (?ps, hs')" using p(1) ps(1) hs by simp
  moreover have "length ?ps = length ?szs" using ps(2) by simp
  ultimately show ?case using ps(3,6) each disj keep hs
    by (intro exI [of _ ?ps] exI [of _ hs']) (simp del: mallocs.simps nth_Cons_Suc)
qed auto

text \<open>A request near the top of the address space wraps round: no page is mapped, the error
  value of \<open>mmap\<close> is taken for an address, and \<open>malloc\<close> returns it.\<close>

lemma malloc_wraps:
  assumes "space_remaining h < 0xFFFFFFFFFFFFFFF0"
  shows "malloc 0xFFFFFFFFFFFFFFF0 (h, s) = Inr (-1, \<lparr>bump = -17, space_remaining = 16\<rparr>, s)"
  using assms by (simp add: malloc_def Let_def round_up_def u_mmap_def)

end
