(* ===== verification/Shell.thy ===== *)
theory Shell
  imports SysFiles Userheap
begin

text \<open>
  The first user program, the command loop of \<^verbatim>\<open>src/init/init.c\<close>: it reads one character at a
  time into a buffer of 256 bytes, echoes it, and at the end of a line runs the module of that
  name or complains. The loop is given by one iteration; \<open>i\<close> is its position in the buffer.
\<close>

abbreviation "BUFFER_SIZE \<equiv> (256 :: nat)"

text \<open>
  Printing, reading and writing of a user program go through system calls. The routines of
  \<^verbatim>\<open>src/stdlib/io.c\<close> see \<open>syscall\<close> as a function to \<open>int\<close>, whose value they return as a size.
\<close>

definition u_print :: "u8 list \<Rightarrow> karg list \<Rightarrow> kstate \<Rightarrow> kstate res" where
  "u_print fmt args s = map_res (\<lambda>c. set_con c s) (printf fmt args (kcon s))"

definition size_of_int :: "u64 \<Rightarrow> u64" where
  "size_of_int v = scast (ucast v :: u32)"

definition sys_read :: "int \<Rightarrow> u64 \<Rightarrow> u64 \<Rightarrow> kstate \<Rightarrow> (u64 \<times> kstate) res" where
  "sys_read fd buf count s =
     map_res (\<lambda>(v, s). (size_of_int v, s)) (returned (syscall_handler 0 (word_of_int fd) buf count 0 s))"

definition sys_write :: "int \<Rightarrow> u64 \<Rightarrow> u64 \<Rightarrow> kstate \<Rightarrow> (u64 \<times> kstate) res" where
  "sys_write fd buf count s =
     map_res (\<lambda>(v, s). (size_of_int v, s)) (returned (syscall_handler 1 (word_of_int fd) buf count 0 s))"

text \<open>The shell drops both results.\<close>

definition sys_read1 :: "u64 \<Rightarrow> kstate \<Rightarrow> kstate res" where
  "sys_read1 a s = map_res snd (sys_read 0 a 1 s)"

definition sys_write1 :: "u64 \<Rightarrow> kstate \<Rightarrow> kstate res" where
  "sys_write1 a s = map_res snd (sys_write 1 a 1 s)"

definition shell_modules :: "u8 list list" where
  "shell_modules = [c_lit ''hello_world'', c_lit ''init'', c_lit ''test_mod'']"

fun find_module :: "u8 list list \<Rightarrow> u8 list \<Rightarrow> bool res" where
  "find_module [] b = Inr False"
| "find_module (m # ms) b = bindE (strcmp m b) (\<lambda>r. if r = 0 then Inr True else find_module ms b)"

text \<open>An iteration goes on with a new position, or has asked for a module to be run.\<close>

datatype shell_next = Loop nat | Exec sysret

definition shell_step :: "u64 \<Rightarrow> nat \<Rightarrow> kstate \<Rightarrow> (shell_next \<times> kstate) res" where
  "shell_step buffer i s =
     bindE (if i = BUFFER_SIZE then map_res (Pair 0) (u_print (c_lit (''Resetting Buffer'' @ [CHR 0x0A])) [] s)
            else Inr (i, s)) (\<lambda>(i, s).
     bindE (sys_read1 (buffer + of_nat i) s) (\<lambda>s.
     bindE (sys_write1 (buffer + of_nat i) s) (\<lambda>s.
     bindE (user_load (buffer + of_nat i) s) (\<lambda>c.
     if c \<noteq> 10 then Inr (Loop (i + 1), s)
     else
       bindE (user_store (buffer + of_nat i) 0 s) (\<lambda>s.
       bindE (find_module shell_modules (user_string buffer s)) (\<lambda>known.
       if \<not> known then
         map_res (Pair (Loop 0)) (u_print (c_lit (''invalid command'' @ [CHR 0x0A])) [] s)
       else map_res (\<lambda>(r, s). (Exec r, s)) (syscall_handler 5 buffer 0 0 0 s)))))))"

text \<open>At most \<open>n\<close> iterations, ended by a module that is run.\<close>

fun shell_run :: "nat \<Rightarrow> u64 \<Rightarrow> nat \<Rightarrow> kstate \<Rightarrow> (shell_next \<times> kstate) res" where
  "shell_run 0 buffer i s = Inr (Loop i, s)"
| "shell_run (Suc n) buffer i s = bindE (shell_step buffer i s) (\<lambda>(r, s).
     case r of Loop i \<Rightarrow> shell_run n buffer i s | Exec x \<Rightarrow> Inr (Exec x, s))"

definition shell_start :: "heap \<times> kstate \<Rightarrow> (u64 \<times> heap \<times> kstate) res" where
  "shell_start = (\<lambda>(h, s). bindE (u_print (c_lit (''Hello User!'' @ [CHR 0x0A])) [] s) (\<lambda>s. malloc 256 (h, s)))"

text \<open>The smallest program, \<^verbatim>\<open>src/hello_world/hello_world.c\<close>: a line of output, and the end of the
  program, which starts the shell again.\<close>

definition hello_world :: "kstate \<Rightarrow> (sysret \<times> kstate) res" where
  "hello_world s = bindE (u_print (c_lit (''Hello World'' @ [CHR 0x0A])) [] s) (syscall_handler 6 0 0 0 0)"

section \<open>One character\<close>

text \<open>What the prompt sees of the keys: a backspace is swallowed by the one-character read.\<close>

definition prompt_stream :: "kstate \<Rightarrow> u8 list" where
  "prompt_stream s = filter (\<lambda>c. c \<noteq> 8) (char_stream s)"

lemma line_edit_one:
  "filter (\<lambda>c. c \<noteq> 8) inp = x # xs \<Longrightarrow> \<exists>rest. line_edit 1 [] inp = Some ([x], rest) \<and> filter (\<lambda>c. c \<noteq> 8) rest = xs"
proof (induction inp)
  case (Cons c inp)
  show ?case
  proof (cases "c = 8")
    case True
    then show ?thesis using Cons by (simp add: line_edit.simps [of "Suc 0" "[]" "8 # inp"])
  next
    case False
    then show ?thesis using Cons.prems by (simp add: line_edit.simps)
  qed
qed simp

lemma int_of_size_1 [simp]: "int_of_size 0 = 0" "int_of_size 1 = 1"
  by (simp_all add: int_of_size_def)

text \<open>The buffer at work: its first \<open>k\<close> bytes are the line so far.\<close>

definition shell_ok :: "u64 \<Rightarrow> (nat \<Rightarrow> u64) \<Rightarrow> u8 list \<Rightarrow> kstate \<Rightarrow> bool" where
  "shell_ok buffer f line s \<longleftrightarrow> k_ok s \<and> backed BUFFER_SIZE buffer f s \<and> length line \<le> BUFFER_SIZE
     \<and> (\<forall>j < length line. kram s (f j) = line ! j)"

lemma user_load_con [simp]: "user_load a (set_con c s) = user_load a s"
  by (simp add: user_load_def split: option.split)

lemma backed_byte: "backed n a f s \<Longrightarrow> i < n \<Longrightarrow> backed 1 (a + of_nat i) (\<lambda>j. f (i + j)) s"
  by (simp add: backed_def inj_on_def)

lemma read_and_echo:
  assumes ok: "shell_ok buffer f line s" and room: "length line < BUFFER_SIZE" and x: "prompt_stream s = x # xs"
  shows "\<exists>s1 s2. sys_read1 (buffer + of_nat (length line)) s = Inr s1 \<and> sys_write1 (buffer + of_nat (length line)) s1 = Inr s2
    \<and> user_load (buffer + of_nat (length line)) s2 = Inr x \<and> shell_ok buffer f (line @ [x]) s2
    \<and> prompt_stream s2 = xs \<and> screen_of (kcon s2) = screen_put x (screen_of (kcon s))"
proof -
  let ?i = "length line" and ?a = "buffer + of_nat (length line)"
  have bk: "backed BUFFER_SIZE buffer f s" and k: "k_ok s" using ok by (simp_all add: shell_ok_def)
  note b1 = backed_byte [OF bk room]
  obtain rest where le: "line_edit 1 [] (char_stream s) = Some ([x], rest)" "filter (\<lambda>c. c \<noteq> 8) rest = xs"
    using line_edit_one x unfolding prompt_stream_def by blast
  obtain s1 where s1: "sys_read_loop 0 1 ?a s = Inr (1, s1)" "k_ok s1" "char_stream s1 = rest" "after_read s s1"
      "kram s1 (f ?i) = x" "\<forall>p. p \<noteq> f ?i \<longrightarrow> kram s1 p = kram s p"
    using sys_read_loop_edits [OF k b1, of "[]"] le(1) by auto
  have read: "sys_read1 ?a s = Inr s1"
    using s1(1) by (simp add: sys_read1_def sys_read_def syscall_handler_def SYS_read_def ret_int_def returned_def)
  have bk1: "backed BUFFER_SIZE buffer f s1" using backed_after [OF s1(4)] bk by simp
  have load1: "user_load ?a s1 = Inr x" using user_load_backed [OF bk1 room] s1(5) by simp
  then have blk: "user_block 1 ?a s1 = [x]" by simp
  have tok: "term_ok (kcon s1)" using s1(2) by (simp add: k_ok_def)
  obtain c where c: "term_putchar x (kcon s1) = Inr c" "term_ok c"
    using term_putchar_ok [OF tok] by blast
  let ?s2 = "set_con c s1"
  have echo: "sys_write1 ?a s1 = Inr ?s2"
    using blk c(1) by (simp add: sys_write1_def sys_write_def syscall_handler_def SYS_write_def write_loop_term ret_int_def returned_def)
  have "screen_of c = screen_put x (screen_of (kcon s1))" using screen_put_refines [OF tok c(1)] by simp
  moreover have "screen_of (kcon s1) = screen_of (kcon s)" using s1(4) by (auto simp: after_read_def)
  moreover have "user_load ?a ?s2 = Inr x" using load1 by simp
  moreover have "prompt_stream ?s2 = xs" using s1(3) le(2) by (simp add: prompt_stream_def char_stream_def)
  moreover have "shell_ok buffer f (line @ [x]) ?s2"
  proof -
    have "kram s1 (f j) = kram s (f j)" if "j < ?i" for j
    proof -
      have "f j \<noteq> f ?i" using bk that room by (auto simp: backed_def inj_on_def)
      then show ?thesis using s1(6) by simp
    qed
    then show ?thesis using ok s1(2,5) bk1 c(2) room
      by (auto simp: shell_ok_def k_ok_def backed_def nth_append less_Suc_eq)
  qed
  ultimately show ?thesis using read echo by auto
qed

section \<open>A line\<close>

text \<open>Characters before the end of the line are echoed and collected.\<close>

lemma shell_step_char:
  assumes ok: "shell_ok buffer f line s" and room: "length line < BUFFER_SIZE"
    and x: "prompt_stream s = x # xs" "x \<noteq> 10"
  shows "\<exists>s'. shell_step buffer (length line) s = Inr (Loop (length (line @ [x])), s') \<and> shell_ok buffer f (line @ [x]) s'
    \<and> prompt_stream s' = xs \<and> screen_of (kcon s') = screen_put x (screen_of (kcon s))"
proof -
  obtain s1 s2 where "sys_read1 (buffer + of_nat (length line)) s = Inr s1" "sys_write1 (buffer + of_nat (length line)) s1 = Inr s2"
    "user_load (buffer + of_nat (length line)) s2 = Inr x" "shell_ok buffer f (line @ [x]) s2"
    "prompt_stream s2 = xs" "screen_of (kcon s2) = screen_put x (screen_of (kcon s))"
    using read_and_echo [OF ok room x(1)] by blast
  then show ?thesis using room x(2) by (simp add: shell_step_def)
qed

lemma shell_run_chars:
  "shell_ok buffer f line s \<Longrightarrow> length line + length xs \<le> BUFFER_SIZE \<Longrightarrow> 10 \<notin> set xs \<Longrightarrow>
   prompt_stream s = xs @ rest \<Longrightarrow>
   \<exists>s'. (\<forall>n. shell_run (length xs + n) buffer (length line) s = shell_run n buffer (length (line @ xs)) s')
     \<and> shell_ok buffer f (line @ xs) s' \<and> prompt_stream s' = rest
     \<and> screen_of (kcon s') = fold screen_put xs (screen_of (kcon s))"
proof (induction xs arbitrary: line s)
  case (Cons x xs)
  have "length line < BUFFER_SIZE" "prompt_stream s = x # (xs @ rest)" "x \<noteq> 10" using Cons.prems by auto
  from shell_step_char [OF Cons.prems(1) this] obtain s1 where s1:
    "shell_step buffer (length line) s = Inr (Loop (length (line @ [x])), s1)" "shell_ok buffer f (line @ [x]) s1"
    "prompt_stream s1 = xs @ rest" "screen_of (kcon s1) = screen_put x (screen_of (kcon s))" by blast
  have "length (line @ [x]) + length xs \<le> BUFFER_SIZE" "10 \<notin> set xs" using Cons.prems(2,3) by simp_all
  from Cons.IH [OF s1(2) this s1(3)] obtain s' where s':
    "\<forall>n. shell_run (length xs + n) buffer (length (line @ [x])) s1 = shell_run n buffer (length (line @ [x] @ xs)) s'"
    "shell_ok buffer f (line @ [x] @ xs) s'" "prompt_stream s' = rest"
    "screen_of (kcon s') = fold screen_put xs (screen_of (kcon s1))" by auto
  then show ?case using s1(1,4) by (intro exI [of _ s']) simp
qed auto

text \<open>The string in the buffer.\<close>

lemma user_string_backed:
  assumes "\<And>j. j \<le> n \<Longrightarrow> user_load (a + of_nat j) s = Inr (g j)" and "\<And>j. j < n \<Longrightarrow> g j \<noteq> 0" and "g n = 0"
    and "unat a + n < 2 ^ 64"
  shows "user_string a s = map g [0..<n] @ [0]"
  using assms
proof (induction n arbitrary: a g)
  case 0
  then show ?case using "0.prems"(1) [of 0] by (simp add: user_string.simps)
next
  case (Suc n)
  have a: "a \<noteq> -1"
  proof
    assume "a = -1"
    then have "unat a = 2 ^ 64 - 1" by (simp add: unsigned_minus_1_eq_mask mask_eq_exp_minus_1)
    then show False using Suc.prems(4) by simp
  qed
  have "user_string (a + 1) s = map (\<lambda>j. g (Suc j)) [0..<n] @ [0]"
  proof (rule Suc.IH)
    show "user_load (a + 1 + of_nat j) s = Inr (g (Suc j))" if "j \<le> n" for j
      using Suc.prems(1) [of "Suc j"] that by (simp add: algebra_simps)
    show "unat (a + 1) + n < 2 ^ 64" using Suc.prems(4) unat_step [OF a] by simp
  qed (use Suc.prems(2,3) in auto)
  moreover have "user_load a s = Inr (g 0)" "g 0 \<noteq> 0" using Suc.prems(1,2) [of 0] by simp_all
  moreover have "map g [0..<Suc n] = g 0 # map (\<lambda>j. g (Suc j)) [0..<n]"
    by (simp add: map_Suc_upt [symmetric] upt_conv_Cons del: upt_Suc)
  ultimately show ?case using a by (simp add: user_string.simps [of a] del: upt_Suc)
qed

lemma find_module_iff:
  "terminated b \<Longrightarrow> \<forall>m \<in> set ms. terminated m \<Longrightarrow> find_module ms b = Inr (\<exists>m \<in> set ms. cstr m = cstr b)"
proof (induction ms)
  case (Cons m ms)
  obtain r where "strcmp m b = Inr r" using strcmp_returns [of m b] Cons.prems by auto
  then show ?case using Cons strcmp_zero_iff [of m b] by auto
qed simp

lemma u_print_plain:
  assumes "term_ok (kcon s)" and "0 \<notin> set (bytes_of msg)" and "37 \<notin> set (bytes_of msg)"
  shows "\<exists>c. u_print (c_lit msg) [] s = Inr (set_con c s) \<and> term_ok c
    \<and> screen_of c = fold screen_put (bytes_of msg) (screen_of (kcon s))"
  using kprintf_ok [OF assms(1) kfmt_plain [OF assms(2,3), of "[]"]]
  by (auto simp: u_print_def printf_same c_lit_def)

definition shell_names :: "u8 list list" where
  "shell_names = map bytes_of [''hello_world'', ''init'', ''test_mod'']"

lemma shell_modules_names: "\<forall>m \<in> set shell_modules. terminated m"
    "(\<exists>m \<in> set shell_modules. cstr m = x) \<longleftrightarrow> x \<in> set shell_names"
  by (auto simp: shell_modules_def shell_names_def c_lit_def bytes_of_def)

abbreviation "invalid_msg \<equiv> bytes_of (''invalid command'' @ [CHR 0x0A])"

lemma shell_line:
  assumes ok: "shell_ok buffer f [] s" and line: "length line < BUFFER_SIZE" "10 \<notin> set line" "0 \<notin> set line"
    and typed: "prompt_stream s = line @ 10 # rest" and addr: "unat buffer + BUFFER_SIZE \<le> 2 ^ 64"
  shows "\<exists>s'. prompt_stream s' = rest \<and> shell_ok buffer f [] s'
    \<and> (if line \<in> set shell_names then
         shell_run (length line + 1) buffer 0 s = map_res (\<lambda>(r, s). (Exec r, s)) (SYS_exec buffer s')
         \<and> user_string buffer s' = line @ [0] \<and> screen_of (kcon s') = fold screen_put (line @ [10]) (screen_of (kcon s))
       else shell_run (length line + 1) buffer 0 s = Inr (Loop 0, s')
         \<and> screen_of (kcon s') = fold screen_put (line @ [10] @ invalid_msg) (screen_of (kcon s)))"
proof -
  let ?k = "length line" and ?a = "buffer + of_nat (length line)"
  obtain s1 where s1: "shell_run (?k + 1) buffer 0 s = shell_run 1 buffer ?k s1" "shell_ok buffer f line s1"
    "prompt_stream s1 = 10 # rest" "screen_of (kcon s1) = fold screen_put line (screen_of (kcon s))"
  proof -
    have "length [] + length line \<le> BUFFER_SIZE" using line(1) by simp
    from shell_run_chars [OF ok this line(2) typed] obtain s1 where
      "\<forall>n. shell_run (?k + n) buffer 0 s = shell_run n buffer ?k s1" "shell_ok buffer f line s1"
      "prompt_stream s1 = 10 # rest" "screen_of (kcon s1) = fold screen_put line (screen_of (kcon s))"
      by (auto simp del: shell_run.simps)
    then show thesis using that by blast
  qed
  obtain s2 s3 where s3: "sys_read1 ?a s1 = Inr s2" "sys_write1 ?a s2 = Inr s3" "user_load ?a s3 = Inr 10"
    "shell_ok buffer f (line @ [10]) s3" "prompt_stream s3 = rest" "screen_of (kcon s3) = screen_put 10 (screen_of (kcon s1))"
    using read_and_echo [OF s1(2) line(1) s1(3)] by blast
  let ?s4 = "s3\<lparr>kram := (kram s3)(f ?k := 0)\<rparr>"
  have bk: "backed BUFFER_SIZE buffer f s3" using s3(4) by (simp add: shell_ok_def)
  then have bk4: "backed BUFFER_SIZE buffer f ?s4" by (simp add: backed_def)
  have store: "user_store ?a 0 s3 = Inr ?s4" using bk line(1) by (simp add: backed_def user_store_def)
  have bytes: "kram ?s4 (f j) = line ! j" if "j < ?k" for j
  proof -
    have "f j \<noteq> f ?k" using bk that line(1) by (auto simp: backed_def inj_on_def)
    then show ?thesis using s3(4) that by (auto simp: shell_ok_def nth_append)
  qed
  have str: "user_string buffer ?s4 = line @ [0]"
  proof -
    have "user_string buffer ?s4 = map (\<lambda>j. kram ?s4 (f j)) [0..<?k] @ [0]"
    proof (rule user_string_backed)
      show "user_load (buffer + of_nat j) ?s4 = Inr (kram ?s4 (f j))" if "j \<le> ?k" for j
        using user_load_backed [OF bk4, of j] that line(1) by simp
      show "kram ?s4 (f j) \<noteq> 0" if "j < ?k" for j
        using bytes [OF that] line(3) nth_mem [OF that] by metis
      show "kram ?s4 (f ?k) = 0" by simp
      show "unat buffer + ?k < 2 ^ 64" using addr line(1) by simp
    qed
    also have "map (\<lambda>j. kram ?s4 (f j)) [0..<?k] = line"
    proof (rule nth_equalityI)
      fix i assume "i < length (map (\<lambda>j. kram ?s4 (f j)) [0..<?k])"
      then show "map (\<lambda>j. kram ?s4 (f j)) [0..<?k] ! i = line ! i" using bytes [of i] by (simp del: fun_upd_apply)
    qed simp
    finally show ?thesis .
  qed
  have ps4: "prompt_stream ?s4 = rest" using s3(5) by (simp add: prompt_stream_def char_stream_def)
  have ok4: "shell_ok buffer f [] ?s4" using s3(4) bk4 by (simp add: shell_ok_def k_ok_def)
  have scr4: "screen_of (kcon ?s4) = fold screen_put (line @ [10]) (screen_of (kcon s))"
    using s3(6) s1(4) by simp
  have strn: "terminated (line @ [0])" "cstr (line @ [0]) = line"
    using line(3) cstr_of_literal by (auto simp: terminated_def)
  have known: "find_module shell_modules (user_string buffer ?s4) = Inr (line \<in> set shell_names)"
    unfolding str using find_module_iff [OF strn(1) shell_modules_names(1)] shell_modules_names(2) strn(2) by simp
  have step: "shell_step buffer ?k s1 = (if line \<notin> set shell_names
      then map_res (Pair (Loop 0)) (u_print (c_lit (''invalid command'' @ [CHR 0x0A])) [] ?s4)
      else map_res (\<lambda>(r, s). (Exec r, s)) (SYS_exec buffer ?s4))"
    using s3(1,2,3) store known line(1) by (simp add: shell_step_def syscall_handler_def)
  show ?thesis
  proof (cases "line \<in> set shell_names")
    case True
    have "shell_run (?k + 1) buffer 0 s = map_res (\<lambda>(r, s). (Exec r, s)) (SYS_exec buffer ?s4)"
      using s1(1) step True by (cases "SYS_exec buffer ?s4") auto
    then show ?thesis using True ps4 ok4 str scr4 by (intro exI [of _ ?s4]) simp
  next
    case False
    have "term_ok (kcon ?s4)" using ok4 by (simp add: shell_ok_def k_ok_def)
    then obtain c where c: "u_print (c_lit (''invalid command'' @ [CHR 0x0A])) [] ?s4 = Inr (set_con c ?s4)" "term_ok c"
      "screen_of c = fold screen_put invalid_msg (screen_of (kcon ?s4))"
      using u_print_plain [of ?s4 "''invalid command'' @ [CHR 0x0A]"] by (auto simp: bytes_of_def)
    have "shell_run (?k + 1) buffer 0 s = Inr (Loop 0, set_con c ?s4)" using s1(1) step False c(1) by simp
    moreover have "prompt_stream (set_con c ?s4) = rest" using ps4 by (simp add: prompt_stream_def char_stream_def)
    moreover have "shell_ok buffer f [] (set_con c ?s4)" using ok4 c(2) by (simp add: shell_ok_def k_ok_def backed_def)
    ultimately show ?thesis using False c(3) scr4 by (intro exI [of _ "set_con c ?s4"]) simp
  qed
qed

end
