(* ===== verification/Programs.thy ===== *)
theory Programs
  imports Boot Shell
begin

text \<open>
  Programs that exercise the kernel: \<^verbatim>\<open>src/test_mod/test_mod.c\<close>, a user program that works on two
  files through system calls, and the tests of \<^verbatim>\<open>src/kernel/testing.c\<close>, which nothing calls. The
  string literals of a program lie where the linker has put them, a parameter; an argument that a
  call leaves out is what the register held, a parameter as well. \<^verbatim>\<open>test_mod.c\<close> declares none of
  the file functions: their \<open>bool\<close> results are taken to fill the register, as the compiler in use
  makes them do.
\<close>

section \<open>test_mod\<close>

record test_literals =
  at_f1 :: u64
  at_f2 :: u64
  at_hello :: u64
  at_nihao :: u64
  at_world :: u64
  at_a :: u64

definition say :: "string \<Rightarrow> kstate \<Rightarrow> (unit \<times> kstate) res" where
  "say msg s = map_res (Pair ()) (u_print (c_lit msg) [] s)"

definition mod_write :: "int \<Rightarrow> u64 \<Rightarrow> kstate \<Rightarrow> (unit \<times> kstate) res" where
  "mod_write fd buf = and_then (file_write fd buf 5)
     (\<lambda>ok. if \<not> ok then say (''write failed!'' @ [nl]) else (\<lambda>s. Inr ((), s)))"

definition mod_read :: "int \<Rightarrow> kstate \<Rightarrow> (unit \<times> kstate) res" where
  "mod_read fd s = map_res (Pair ()) (file_read fd s)"

definition mod_delete :: "int \<Rightarrow> kstate \<Rightarrow> (unit \<times> kstate) res" where
  "mod_delete fd s = map_res (Pair ()) (file_delete fd s)"

text \<open>All up to the last call; \<open>r8\<close> is what \<open>file_write_at\<close> finds for its size, \<open>rsi\<close> and \<open>rdx\<close> what
  the last \<open>file_write\<close> finds for its buffer and size.\<close>

definition test_mod_body :: "test_literals \<Rightarrow> u64 \<Rightarrow> u64 \<Rightarrow> u64 \<Rightarrow> kstate \<Rightarrow> (bool \<times> kstate) res" where
  "test_mod_body l r8 rsi rdx =
     and_then (say (''Open f1.txt'' @ [nl])) (\<lambda>_.
     and_then (file_open (at_f1 l)) (\<lambda>fd1.
     and_then (say (''Open f2.txt'' @ [nl])) (\<lambda>_.
     and_then (file_open (at_f2 l)) (\<lambda>fd2.
     and_then (say (''write '' @ [CHR 0x27] @ ''hello'' @ [CHR 0x27] @ '' to f1.txt'' @ [nl])) (\<lambda>_.
     and_then (mod_write fd1 (at_hello l)) (\<lambda>_.
     and_then (say (''write '' @ [CHR 0x27] @ ''nihao'' @ [CHR 0x27] @ '' to f2.txt'' @ [nl])) (\<lambda>_.
     and_then (mod_write fd2 (at_nihao l)) (\<lambda>_.
     and_then (say (''Currently Stored in f1.txt: '' @ [nl])) (\<lambda>_.
     and_then (mod_read fd1) (\<lambda>_.
     and_then (say ([nl] @ ''Currently Stored in f2.txt: '' @ [nl])) (\<lambda>_.
     and_then (mod_read fd2) (\<lambda>_.
     and_then (say ([nl, nl] @ ''append '' @ [CHR 0x27] @ '' world'' @ [CHR 0x27] @ '' to f1.txt'' @ [nl])) (\<lambda>_.
     and_then (file_append fd1 (at_world l) 7) (\<lambda>_.
     and_then (say (''set first two letters to '' @ [CHR 0x27] @ ''a '' @ [CHR 0x27] @ '' in f2.txt'' @ [nl])) (\<lambda>_.
     and_then (file_write_at r8 fd2 0 (at_a l) 2) (\<lambda>_.
     and_then (say ([nl] @ ''Currently Stored in f1.txt: '' @ [nl])) (\<lambda>_.
     and_then (mod_read fd1) (\<lambda>_.
     and_then (say ([nl] @ ''Currently Stored in f2.txt: '' @ [nl])) (\<lambda>_.
     and_then (mod_read fd2) (\<lambda>_.
     and_then (say ([nl, nl] @ ''Delete f1.txt'' @ [nl])) (\<lambda>_.
     and_then (mod_delete fd1) (\<lambda>_.
     and_then (say (''Try to read file f1.txt'' @ [nl])) (\<lambda>_.
     and_then (mod_read fd1) (\<lambda>_.
     and_then (say ([nl] @ ''Try to write to f1.txt'' @ [nl])) (\<lambda>_.
     file_write fd1 rsi rdx)))))))))))))))))))))))))"

definition test_mod :: "test_literals \<Rightarrow> u64 \<Rightarrow> u64 \<Rightarrow> u64 \<Rightarrow> kstate \<Rightarrow> (sysret \<times> kstate) res" where
  "test_mod l r8 rsi rdx s = bindE (test_mod_body l r8 rsi rdx s) (\<lambda>(_, s). syscall_handler 6 0 0 0 0 s)"

section \<open>testing.c\<close>

definition k_print :: "u8 list \<Rightarrow> karg list \<Rightarrow> kstate \<Rightarrow> kstate res" where
  "k_print fmt args s = map_res (\<lambda>c. set_con c s) (kprintf fmt args (kcon s))"

primrec test_kgetc_loop :: "nat \<Rightarrow> kstate \<Rightarrow> kstate res" where
  "test_kgetc_loop 0 s = Inr s"
| "test_kgetc_loop (Suc n) s =
     bindE (next_key s) (\<lambda>(c, s). bindE (k_print (c_lit ''%c'') [Word_Arg (scast c)] s) (test_kgetc_loop n))"

definition test_kgetc :: "kstate \<Rightarrow> kstate res" where
  "test_kgetc s =
     bindE (k_print (c_lit (''Testing kgetc'' @ [nl])) [] s) (\<lambda>s.
     bindE (k_print (c_lit (''Type 10 characters'' @ [nl])) [] s) (test_kgetc_loop 10))"

text \<open>\<open>buf\<close> and \<open>hello\<close> are the addresses of the buffer of 6 bytes and of the literal.\<close>

definition test_sys_calls :: "u64 \<Rightarrow> u64 \<Rightarrow> kstate \<Rightarrow> kstate res" where
  "test_sys_calls buf hello s =
     bindE (k_print (c_lit (''Testing sys_read'' @ [nl])) [] s) (\<lambda>s.
     bindE (k_print (c_lit (''Type 5 characters'' @ [nl])) [] s) (\<lambda>s.
     bindE (returned (syscall_handler 0 0 buf 5 0 s)) (\<lambda>(rc, s).
     bindE (if sint rc \<le> 0 then k_print (c_lit (''read failed'' @ [nl])) [] s
            else bindE (user_store (buf + rc) 0 s) (\<lambda>s.
              k_print (c_lit (''read '' @ [CHR 0x27] @ ''%s'' @ [CHR 0x27, nl])) [Str_Arg (user_string buf s)] s)) (\<lambda>s.
     bindE (k_print (c_lit (''Testing sys_write'' @ [nl])) [] s) (\<lambda>s.
     bindE (returned (syscall_handler 1 1 hello 13 0 s)) (\<lambda>(rc, s).
     if sint rc \<le> 0 then k_print (c_lit (''write failed'' @ [nl])) [] s
     else k_print (c_lit (''write succeeded'' @ [nl])) [] s))))))"

definition test_translate :: "kstate \<Rightarrow> kstate res" where
  "test_translate s = map_res (\<lambda>m. set_vm m s) (translate (read_cr3 (kvm s)) 0 (kvm s))"

text \<open>An \<open>int\<close> in memory is its four bytes, the lowest first.\<close>

definition store_int :: "u64 \<Rightarrow> u32 \<Rightarrow> kstate \<Rightarrow> kstate res" where
  "store_int p v s =
     bindE (user_store p (ucast v) s) (\<lambda>s.
     bindE (user_store (p + 1) (ucast (drop_bit 8 v)) s) (\<lambda>s.
     bindE (user_store (p + 2) (ucast (drop_bit 16 v)) s)
       (user_store (p + 3) (ucast (drop_bit 24 v)))))"

definition load_int :: "u64 \<Rightarrow> kstate \<Rightarrow> u32 res" where
  "load_int p s =
     bindE (user_load p s) (\<lambda>a. bindE (user_load (p + 1) s) (\<lambda>b.
     bindE (user_load (p + 2) s) (\<lambda>c. bindE (user_load (p + 3) s) (\<lambda>d.
     Inr (ucast a OR push_bit 8 (ucast b) OR push_bit 16 (ucast c) OR push_bit 24 (ucast d))))))"

definition test_vm_map :: "kstate \<Rightarrow> kstate res" where
  "test_vm_map s =
    (let root = cr3_root (kvm s); p = 0x50004000 in
     bindE (vm_map root p False True False (kvm s)) (\<lambda>(result, m).
     let s = set_vm m s in
     if result then
       bindE (store_int p 123 s) (\<lambda>s.
       bindE (load_int p s) (\<lambda>v.
       k_print (c_lit (''Stored %d at %p'' @ [nl])) [Word_Arg (ucast v), Word_Arg p] s))
     else k_print (c_lit (''vm_map failed with an error'' @ [nl])) [] s))"
section \<open>A program against the file model\<close>

text \<open>What a program of file calls leaves as it was: all but the files and the screen.\<close>

definition untouched :: "kstate \<Rightarrow> kstate \<Rightarrow> bool" where
  "untouched s s' \<longleftrightarrow> s' = s\<lparr>kfs := kfs s'\<rparr> \<and> same_memory (kvm s) (kvm s')"

lemma untouched_trans: "untouched s t \<Longrightarrow> untouched t u \<Longrightarrow> untouched s u"
  unfolding untouched_def using same_memory_trans by (metis kstate.surjective kstate.update_convs(1))

lemma untouched_load:
  assumes "untouched s s'"
  shows "user_load a s' = user_load a s"
proof -
  have "frame_of (kvm s') a = frame_of (kvm s) a"
    using assms frame_of_con unfolding untouched_def same_memory_def by metis
  moreover have "kram s' = kram s" using assms unfolding untouched_def by (metis kstate.select_convs(5) kstate.surjective kstate.update_convs(1))
  ultimately show ?thesis by (simp add: user_load_def split: option.split)
qed

lemma untouched_block: "untouched s s' \<Longrightarrow> user_block n a s' = user_block n a s"
  by (induction n arbitrary: a) (simp_all add: untouched_load split: sum.split)

lemma untouched_string: "untouched s s' \<Longrightarrow> user_string a s' = user_string a s"
proof (induction a s rule: user_string.induct)
  case (1 a s)
  then show ?case
    by (subst (1 2) user_string.simps) (auto simp: untouched_load split: sum.split)
qed

text \<open>The literals of \<open>test_mod\<close> in memory; no file is as long as the address of the last.\<close>

definition literals :: "test_literals \<Rightarrow> kstate \<Rightarrow> bool" where
  "literals l s \<longleftrightarrow> user_string (at_f1 l) s = bytes_of ''f1.txt'' @ [0] \<and> user_string (at_f2 l) s = bytes_of ''f2.txt'' @ [0]
     \<and> user_block 5 (at_hello l) s = bytes_of ''hello'' \<and> user_block 5 (at_nihao l) s = bytes_of ''nihao''
     \<and> user_block 7 (at_world l) s = bytes_of ('' world'' @ [nl]) \<and> 511872 < unat (at_a l)"

lemma untouched_literals: "untouched s s' \<Longrightarrow> literals l s' = literals l s"
  by (simp only: literals_def untouched_block untouched_string)

definition prog_rel :: "test_literals \<Rightarrow> fmodel \<Rightarrow> kstate \<Rightarrow> bool" where
  "prog_rel l m s \<longleftrightarrow> fm_rel m (kfs s) \<and> fds_backed (kfs s) \<and> literals l s"

interpretation prog: transcript "prog_rel l" kcon untouched
  for l
  by unfold_locales (simp add: untouched_def, rule untouched_trans)

lemma prog_term: "prog_rel l m s \<Longrightarrow> term_ok (kcon s)"
  by (auto simp: prog_rel_def fm_rel_def fs_ok_def handles_ok_def)

lemma prog_say:
  assumes "0 \<notin> set (bytes_of msg)" and "37 \<notin> set (bytes_of msg)"
  shows "prog.does l m (say msg) () (bytes_of msg) m"
  unfolding prog.does_def
proof (intro allI impI)
  fix s assume s: "prog_rel l m s"
  note ok = prog_term [OF s]
  obtain c where c: "puts term_putchar (bytes_of msg) (kcon s) = Inr c" "term_ok c"
    using console.puts_ok [OF ok] by blast
  have run: "say msg s = Inr ((), set_con c s)"
    using c(1) kprintf_prints [OF ok] kfmt_plain [OF assms, of "[]"]
    by (simp add: say_def u_print_def printf_same c_lit_def)
  have kept: "untouched s (set_con c s)" by (simp add: untouched_def)
  have "kfs (set_con c s) = printed c (kfs s)" by (simp add: set_con_def set_vm_def printed_def)
  then have "prog_rel l m (set_con c s)"
    using s rel_printed c(2) untouched_literals [OF kept] by (simp add: prog_rel_def)
  then show "\<exists>s'. say msg s = Inr ((), s') \<and> prog_rel l m s'
      \<and> puts term_putchar (bytes_of msg) (kcon s) = Inr (kcon s') \<and> untouched s s'"
    using run c(1) kept by (intro exI [of _ "set_con c s"]) simp
qed

lemma prog_call:
  assumes step: "fm_step c m = Some (r, out, m')"
    and req: "\<And>s. literals l s \<Longrightarrow> request c nr a0 a1 a2 a3 s"
    and run: "\<And>s s'. syscall_handler nr a0 a1 a2 a3 s = Inr (Ret (reply c r), s') \<Longrightarrow> f s = Inr (x, s')"
  shows "prog.does l m f x out m'"
  unfolding prog.does_def
proof (intro allI impI)
  fix s assume "prog_rel l m s"
  then have s: "fm_rel m (kfs s)" "fds_backed (kfs s)" "literals l s" by (simp_all add: prog_rel_def)
  from fs_syscall_follows [OF s(1,2) step req [OF s(3)]] obtain t where t:
    "syscall_handler nr a0 a1 a2 a3 s = Inr (Ret (reply c r), s\<lparr>kfs := t\<rparr>)" "fm_rel m' t" "fds_backed t"
    "puts term_putchar out (kcon s) = Inr (con (vm (fds t)))" "same_memory (kvm s) (vm (fds t))" by blast
  have kept: "untouched s (s\<lparr>kfs := t\<rparr>)" using t(5) by (simp add: untouched_def)
  then show "\<exists>s'. f s = Inr (x, s') \<and> prog_rel l m' s'
      \<and> puts term_putchar out (kcon s) = Inr (kcon s') \<and> untouched s s'"
    using run [OF t(1)] t s(3) untouched_literals [OF kept] by (intro exI [of _ "s\<lparr>kfs := t\<rparr>"]) (simp add: prog_rel_def)
qed

lemma prog_open:
  assumes "fm_step (C_Open n) m = Some (R_Fd fd, out, m')" and "\<And>s. literals l s \<Longrightarrow> user_string a s = n @ [0]"
    and "int_of_size (word_of_int fd) = fd"
  shows "prog.does l m (file_open a) fd out m'"
  by (rule prog_call [OF assms(1), where nr = 12 and ?a0.0 = a and ?a1.0 = 0 and ?a2.0 = 0 and ?a3.0 = 0])
    (use assms(2,3) in \<open>simp_all add: file_open_def returned_def\<close>)

lemma prog_write:
  assumes "fm_step (C_Write_At fd 0 b) m = Some (R_Bool True, out, m')" and "\<And>s. literals l s \<Longrightarrow> user_block 5 a s = b"
    and "length b = 5" and "int_of_size (word_of_int fd) = fd"
  shows "prog.does l m (mod_write fd a) () out m'"
proof -
  have "prog.does l m (file_write fd a 5) True out m'"
    by (rule prog_call [OF assms(1), where nr = 13 and ?a0.0 = "word_of_int fd" and ?a1.0 = a and ?a2.0 = 5 and ?a3.0 = 0])
      (use assms(2-4) in \<open>simp_all add: file_write_def returned_def int_of_size_def\<close>)
  from prog.does_then [OF this, of _ "()" "[]" m'] show ?thesis by (simp add: mod_write_def prog.does_return)
qed

lemma prog_append:
  assumes "fm_step (C_Append fd b) m = Some (R_Bool True, out, m')" and "\<And>s. literals l s \<Longrightarrow> user_block 7 a s = b"
    and "length b = 7" and "int_of_size (word_of_int fd) = fd"
  shows "prog.does l m (file_append fd a 7) True out m'"
  by (rule prog_call [OF assms(1), where nr = 15 and ?a0.0 = "word_of_int fd" and ?a1.0 = a and ?a2.0 = 7 and ?a3.0 = 0])
    (use assms(2-4) in \<open>simp_all add: file_append_def returned_def int_of_size_def\<close>)

lemma prog_read:
  assumes "fm_step (C_Read fd) m = Some (R_Unit, out, m')" and "int_of_size (word_of_int fd) = fd"
  shows "prog.does l m (mod_read fd) () out m'"
  by (rule prog_call [OF assms(1), where nr = 16 and ?a0.0 = "word_of_int fd" and ?a1.0 = 0 and ?a2.0 = 0 and ?a3.0 = 0])
    (use assms(2) in \<open>simp_all add: mod_read_def file_read_def returned_def\<close>)

lemma prog_delete:
  assumes "fm_step (C_Delete fd) m = Some (R_Unit, out, m')" and "int_of_size (word_of_int fd) = fd"
  shows "prog.does l m (mod_delete fd) () out m'"
  by (rule prog_call [OF assms(1), where nr = 17 and ?a0.0 = "word_of_int fd" and ?a1.0 = 0 and ?a2.0 = 0 and ?a3.0 = 0])
    (use assms(2) in \<open>simp_all add: mod_delete_def file_delete_def returned_def\<close>)

text \<open>The two writes that fail, whatever the registers hold.\<close>

lemma prog_kept:
  assumes "\<And>s. prog_rel l m s \<Longrightarrow> f s = Inr (x, s)"
  shows "prog.does l m f x [] m"
  using assms prog.kept_refl by (auto simp: prog.does_def)

lemma prog_write_at_fails: "prog.does l m (file_write_at r8 fd index (at_a l) sz) False [] m"
  by (rule prog_kept) (use file_write_at_fails in \<open>auto simp: prog_rel_def fm_rel_def literals_def\<close>)

lemma prog_write_closed:
  assumes "map_of (fm_open m) fd = None" and "int_of_size (word_of_int fd) = fd"
  shows "prog.does l m (file_write fd buf sz) False [] m"
proof (rule prog_kept)
  fix s assume "prog_rel l m s"
  then obtain L ch fl where "fs_ok L ch fl (map_of (fm_open m)) (kfs s)" by (auto simp: prog_rel_def fm_rel_def)
  then have "fs_write fd b sz (kfs s) = Inr (False, kfs s)" for b
    using fs_write_at_closed assms(1) by (simp add: fs_write_def)
  then show "file_write fd buf sz s = Inr (False, s)"
    using assms(2) by (simp add: file_write_def returned_def syscall_handler_def ret_bool_def on_fs_def SYS_fs_write_def)
qed

section \<open>What test_mod prints\<close>

definition mod_out :: "u8 list" where
  "mod_out = bytes_of (''Open f1.txt'' @ [nl]) @ mapped_msg @ bytes_of (''Open f2.txt'' @ [nl]) @ mapped_msg
     @ bytes_of (''write '' @ [CHR 0x27] @ ''hello'' @ [CHR 0x27] @ '' to f1.txt'' @ [nl])
     @ bytes_of (''write '' @ [CHR 0x27] @ ''nihao'' @ [CHR 0x27] @ '' to f2.txt'' @ [nl])
     @ bytes_of (''Currently Stored in f1.txt: '' @ [nl]) @ bytes_of ''hello''
     @ bytes_of ([nl] @ ''Currently Stored in f2.txt: '' @ [nl]) @ bytes_of ''nihao''
     @ bytes_of ([nl, nl] @ ''append '' @ [CHR 0x27] @ '' world'' @ [CHR 0x27] @ '' to f1.txt'' @ [nl])
     @ bytes_of (''set first two letters to '' @ [CHR 0x27] @ ''a '' @ [CHR 0x27] @ '' in f2.txt'' @ [nl])
     @ bytes_of ([nl] @ ''Currently Stored in f1.txt: '' @ [nl]) @ bytes_of (''hello world'' @ [nl])
     @ bytes_of ([nl] @ ''Currently Stored in f2.txt: '' @ [nl]) @ bytes_of ''nihao''
     @ bytes_of ([nl, nl] @ ''Delete f1.txt'' @ [nl]) @ bytes_of (''Try to read file f1.txt'' @ [nl])
     @ no_file_msg ''read'' @ bytes_of ([nl] @ ''Try to write to f1.txt'' @ [nl])"

text \<open>The file that is left: the second, which its overwriting has not reached.\<close>

definition mod_model :: fmodel where
  "mod_model = \<lparr>fm_files = [None, Some (bytes_of ''f2.txt'', bytes_of ''nihao'')],
     fm_open = [(1, 1)], fm_next = 2, fm_free = 127\<rparr>"

lemma mod_calls:
  "fm_step (C_Append 0 (bytes_of ('' world'' @ [nl]))) (demo_model ''hello'' ''nihao'')
     = Some (R_Bool True, [], demo_model (''hello world'' @ [nl]) ''nihao'')"
  "fm_step (C_Delete 0) (demo_model (''hello world'' @ [nl]) ''nihao'') = Some (R_Unit, [], mod_model)"
  "fm_step (C_Read 0) mod_model = Some (R_Unit, no_file_msg ''read'', mod_model)"
  "map_of (fm_open mod_model) 0 = None"
  by (simp_all add: demo_model_def mod_model_def fm_lookup_def fm_write_def splice_at_def n_blocks_def bytes_of_def)

lemma fd_word: "int_of_size (word_of_int 0) = 0" "int_of_size (word_of_int 1) = 1"
  by (simp_all add: int_of_size_def)

lemma mod_does: "prog.does l fm_empty (test_mod_body l r8 rsi rdx) False mod_out mod_model"
proof -
  have opens: "prog.does l fm_empty (file_open (at_f1 l)) 0 mapped_msg demo_first"
    "prog.does l demo_first (file_open (at_f2 l)) 1 mapped_msg (demo_model '''' '''')"
    by (rule prog_open [OF demo_calls(1) _ fd_word(1)], simp add: literals_def,
        rule prog_open [OF demo_calls(2) _ fd_word(2)], simp add: literals_def)
  have writes: "prog.does l (demo_model '''' '''') (mod_write 0 (at_hello l)) () [] (demo_model ''hello'' '''')"
    "prog.does l (demo_model ''hello'' '''') (mod_write 1 (at_nihao l)) () [] (demo_model ''hello'' ''nihao'')"
    by (rule prog_write [OF demo_calls(3) _ _ fd_word(1)], simp add: literals_def, simp add: bytes_of_def,
        rule prog_write [OF demo_calls(4) _ _ fd_word(2)], simp add: literals_def, simp add: bytes_of_def)
  have app: "prog.does l (demo_model ''hello'' ''nihao'') (file_append 0 (at_world l) 7) True []
      (demo_model (''hello world'' @ [nl]) ''nihao'')"
    by (rule prog_append [OF mod_calls(1) _ _ fd_word(1)], simp add: literals_def, simp add: bytes_of_def)
  note steps = opens writes app prog_write_at_fails prog_read [OF demo_calls(7) fd_word(1)] prog_read [OF demo_calls(8) fd_word(2)]
    prog_delete [OF mod_calls(2) fd_word(1)] prog_read [OF mod_calls(3) fd_word(1)] prog_write_closed [OF mod_calls(4) fd_word(1)]
  have "prog.does l fm_empty (test_mod_body l r8 rsi rdx) False
     (bytes_of (''Open f1.txt'' @ [nl]) @ mapped_msg @ bytes_of (''Open f2.txt'' @ [nl]) @ mapped_msg
     @ bytes_of (''write '' @ [CHR 0x27] @ ''hello'' @ [CHR 0x27] @ '' to f1.txt'' @ [nl]) @ []
     @ bytes_of (''write '' @ [CHR 0x27] @ ''nihao'' @ [CHR 0x27] @ '' to f2.txt'' @ [nl]) @ []
     @ bytes_of (''Currently Stored in f1.txt: '' @ [nl]) @ bytes_of ''hello''
     @ bytes_of ([nl] @ ''Currently Stored in f2.txt: '' @ [nl]) @ bytes_of ''nihao''
     @ bytes_of ([nl, nl] @ ''append '' @ [CHR 0x27] @ '' world'' @ [CHR 0x27] @ '' to f1.txt'' @ [nl]) @ []
     @ bytes_of (''set first two letters to '' @ [CHR 0x27] @ ''a '' @ [CHR 0x27] @ '' in f2.txt'' @ [nl]) @ []
     @ bytes_of ([nl] @ ''Currently Stored in f1.txt: '' @ [nl]) @ bytes_of (''hello world'' @ [nl])
     @ bytes_of ([nl] @ ''Currently Stored in f2.txt: '' @ [nl]) @ bytes_of ''nihao''
     @ bytes_of ([nl, nl] @ ''Delete f1.txt'' @ [nl]) @ [] @ bytes_of (''Try to read file f1.txt'' @ [nl])
     @ no_file_msg ''read'' @ bytes_of ([nl] @ ''Try to write to f1.txt'' @ [nl]) @ []) mod_model"
    unfolding test_mod_body_def
    by ((rule prog.does_then, ((rule prog_say; simp add: bytes_of_def) | rule steps))+, rule steps)
  then show ?thesis by (simp only: mod_out_def append_Nil append_Nil2 append_assoc)
qed

lemma test_mod_prints:
  assumes "fm_rel fm_empty (kfs s)" and "fds_backed (kfs s)" and "literals l s"
  shows "\<exists>s'. test_mod l r8 rsi rdx s = syscall_handler 6 0 0 0 0 s'
    \<and> puts term_putchar mod_out (kcon s) = Inr (kcon s') \<and> fm_rel mod_model (kfs s') \<and> untouched s s'"
  using mod_does [of l r8 rsi rdx] assms unfolding prog.does_def prog_rel_def test_mod_def by fastforce

section \<open>The tests of the kernel\<close>

lemma k_print_ok:
  assumes "k_ok s" and "kfmt fmt args = Inr out"
  shows "\<exists>c. k_print fmt args s = Inr (set_con c s) \<and> k_ok (set_con c s)
    \<and> screen_of c = fold screen_put out (screen_of (kcon s)) \<and> char_stream (set_con c s) = char_stream s"
proof -
  obtain c where "kprintf fmt args (kcon s) = Inr c" "term_ok c" "screen_of c = fold screen_put out (screen_of (kcon s))"
    using kprintf_ok [OF _ assms(2)] assms(1) by (auto simp: k_ok_def)
  then show ?thesis using assms(1) by (auto simp: k_print_def k_ok_def char_stream_def)
qed

lemma test_kgetc_loop_echoes:
  "k_ok s \<Longrightarrow> char_stream s = xs @ rest \<Longrightarrow>
   \<exists>s'. test_kgetc_loop (length xs) s = Inr s' \<and> k_ok s' \<and> char_stream s' = rest
     \<and> screen_of (kcon s') = fold screen_put xs (screen_of (kcon s))"
proof (induction xs arbitrary: s)
  case (Cons x xs)
  have "char_stream s = x # (xs @ rest)" using Cons.prems(2) by simp
  from next_key_some [OF Cons.prems(1) this] obtain t where t: "next_key s = Inr (x, t)"
    "screen_of (kcon t) = screen_of (kcon s)" "k_ok t" "char_stream t = xs @ rest" by auto
  from k_print_ok [OF t(3) kfmt_char [of "scast x" "[]"]] obtain c where c:
    "k_print (c_lit ''%c'') [Word_Arg (scast x)] t = Inr (set_con c t)" "k_ok (set_con c t)"
    "screen_of c = screen_put x (screen_of (kcon t))" "char_stream (set_con c t) = char_stream t"
    by auto
  have "char_stream (set_con c t) = xs @ rest" using c(4) t(4) by simp
  from Cons.IH [OF c(2) this] show ?case using t c by auto
qed simp

text \<open>Ten characters are echoed after the two messages.\<close>

lemma test_kgetc_echoes:
  assumes "k_ok s" and "char_stream s = xs @ rest" and "length xs = 10"
  shows "\<exists>s'. test_kgetc s = Inr s' \<and> k_ok s' \<and> char_stream s' = rest
    \<and> screen_of (kcon s') = fold screen_put (bytes_of (''Testing kgetc'' @ [nl] @ ''Type 10 characters'' @ [nl]) @ xs)
        (screen_of (kcon s))"
proof -
  have f: "kfmt (c_lit (''Testing kgetc'' @ [nl])) [] = Inr (bytes_of (''Testing kgetc'' @ [nl]))"
    "kfmt (c_lit (''Type 10 characters'' @ [nl])) [] = Inr (bytes_of (''Type 10 characters'' @ [nl]))"
    unfolding c_lit_def by (rule kfmt_plain; simp add: bytes_of_def)+
  from k_print_ok [OF assms(1) f(1)] obtain c where c: "k_print (c_lit (''Testing kgetc'' @ [nl])) [] s = Inr (set_con c s)"
    "k_ok (set_con c s)" "screen_of c = fold screen_put (bytes_of (''Testing kgetc'' @ [nl])) (screen_of (kcon s))"
    "char_stream (set_con c s) = char_stream s" by blast
  from k_print_ok [OF c(2) f(2)] obtain d where d: "k_print (c_lit (''Type 10 characters'' @ [nl])) [] (set_con c s) = Inr (set_con d (set_con c s))"
    "k_ok (set_con d (set_con c s))" "screen_of d = fold screen_put (bytes_of (''Type 10 characters'' @ [nl])) (screen_of c)"
    "char_stream (set_con d (set_con c s)) = char_stream (set_con c s)" by auto
  have "char_stream (set_con d (set_con c s)) = xs @ rest" using c(4) d(4) assms(2) by simp
  from test_kgetc_loop_echoes [OF d(2) this] obtain s' where "test_kgetc_loop 10 (set_con d (set_con c s)) = Inr s'"
    "k_ok s'" "char_stream s' = rest" "screen_of (kcon s') = fold screen_put xs (screen_of d)"
    by (auto simp: assms(3))
  then show ?thesis using c(1,3) d(1,3) by (simp add: test_kgetc_def bytes_of_def)
qed

text \<open>A page that is mapped is written and read back through the tables: the four bytes of 123 are in
  its frame.\<close>

lemma store_int_bytes:
  assumes "\<And>j. j < 4 \<Longrightarrow> frame_of (kvm s) (p + of_nat j) = Some (f + of_nat j)"
  shows "store_int p 123 s = Inr (s\<lparr>kram := (kram s)(f := 123, f + 1 := 0, f + 2 := 0, f + 3 := 0)\<rparr>)"
    and "kram s f = 123 \<Longrightarrow> kram s (f + 1) = 0 \<Longrightarrow> kram s (f + 2) = 0 \<Longrightarrow> kram s (f + 3) = 0 \<Longrightarrow> load_int p s = Inr 123"
proof -
  have "frame_of (kvm s) p = Some f" "frame_of (kvm s) (p + 1) = Some (f + 1)"
    "frame_of (kvm s) (p + 2) = Some (f + 2)" "frame_of (kvm s) (p + 3) = Some (f + 3)"
    using assms [of 0] assms [of 1] assms [of 2] assms [of 3] by simp_all
  then show "store_int p 123 s = Inr (s\<lparr>kram := (kram s)(f := 123, f + 1 := 0, f + 2 := 0, f + 3 := 0)\<rparr>)"
    "kram s f = 123 \<Longrightarrow> kram s (f + 1) = 0 \<Longrightarrow> kram s (f + 2) = 0 \<Longrightarrow> kram s (f + 3) = 0 \<Longrightarrow> load_int p s = Inr 123"
    by (simp_all add: store_int_def load_int_def user_store_def user_load_def)
qed

lemma test_vm_map_stores:
  assumes inv: "vm_inv A (kvm s)" and a: "0x50004000 \<in> A" and absent: "\<not> page_present (kvm s) 0x50004000"
    and P: "P \<subseteq> mem_avail (kvm s)" "finite P" "3 \<le> card P"
  shows "\<exists>s' f. test_vm_map s = Inr s' \<and> frame_of (kvm s') 0x50004000 = Some f \<and> load_int 0x50004000 s' = Inr 123
    \<and> screen_of (kcon s') = fold screen_put (bytes_of (''Stored 123 at 0x50004000'' @ [nl])) (screen_of (kcon s))"
proof -
  let ?a = "0x50004000 :: u64" and ?root = "cr3_root (kvm s)"
  obtain m e where m: "vm_map ?root ?a False True False (kvm s) = Inr (True, m)" "vm_inv A m"
    "leaf_entry m ?a (cr3_root m) = Some e" "pte_present e"
    using vm_map_succeeds [OF assms, of False True False] by blast
  let ?f = "pte_target e"
  let ?s = "set_vm m s"
  have fr: "frame_of m (?a + of_nat j) = Some (?f + of_nat j)" if "j < 4" for j
    using frame_of_page [of m ?a e j] m(3,4) that by simp
  let ?t = "?s\<lparr>kram := (kram ?s)(?f := 123, ?f + 1 := 0, ?f + 2 := 0, ?f + 3 := 0)\<rparr>"
  have st: "store_int ?a 123 ?s = Inr ?t"
    using fr by (intro store_int_bytes(1)) (simp add: set_vm_def)
  have frt: "frame_of (kvm (set_con c ?t)) (?a + of_nat j) = Some (?f + of_nat j)" if "j < 4" for j c
    using fr [OF that] by (simp add: set_vm_def)
  have ld: "load_int ?a (set_con c ?t) = Inr 123" "load_int ?a ?t = Inr 123" for c
    by (rule store_int_bytes(2) [where f = ?f]; use frt fr in \<open>simp add: set_vm_def\<close>)+
  have ok: "term_ok (kcon ?t)" using vm_inv_term [OF m(2)] by (simp add: set_vm_def)
  have "kfmt (c_lit (''Stored %d at %p'' @ [nl])) [Word_Arg (ucast (123 :: u32)), Word_Arg ?a]
      = Inr (bytes_of (''Stored 123 at 0x50004000'' @ [nl]))"
    by (simp add: c_lit_def bytes_of_def directive_out_def render_def digits.simps digit_char_def)
  from kprintf_ok [OF ok this] obtain c where c:
    "kprintf (c_lit (''Stored %d at %p'' @ [nl])) [Word_Arg (ucast (123 :: u32)), Word_Arg ?a] (kcon ?t) = Inr c"
    "screen_of c = fold screen_put (bytes_of (''Stored 123 at 0x50004000'' @ [nl])) (screen_of (kcon s))"
    using vm_map_quiet [OF m(1)] by (auto simp: set_vm_def)
  have "test_vm_map s = Inr (set_con c ?t)"
    using m(1) st ld(2) c(1) by (simp add: test_vm_map_def Let_def k_print_def)
  then show ?thesis using c(2) ld(1) frt [of 0 c] by auto
qed

end
