(* ===== verification/Interrupts.thy ===== *)
theory Interrupts
  imports Keyboard "HOL-Library.Sublist"
begin

text \<open>
  \<open>kgetc\<close> of \<^verbatim>\<open>src/kernel/interrupts.c\<close> statement by statement, interleaved with the keyboard
  handler, which may run between any two of them. The handler itself is not interrupted by another
  key: the controller holds the line back until the handler acknowledges the interrupt in its last
  statement. The count is \<open>volatile\<close> and its decrement is a read, a subtraction and a write; a
  processor may do the three in one instruction or a handler may run between the read and the
  write, which the parameter \<open>split\<close> of the step relation says.
\<close>

section \<open>Steps\<close>

text \<open>Where \<open>kgetc\<close> is: in the wait, before \<open>res = iobuffer[read_val++]\<close>, before \<open>read_val %= IO_BUFFER_SIZE\<close>,
  before \<open>iobuffer_count--\<close>, between the read and the write of the count, before the return.\<close>

datatype reader =
    Waiting
  | Taking
  | Wrapping u8
  | Counting u8
  | Storing u8 nat
  | Returning u8

type_synonym console = "term_state \<times> kbd_state"

datatype key_step_event = Silent | Pressed u8 | Got u8

inductive key_step :: "bool \<Rightarrow> reader \<times> console \<Rightarrow> key_step_event \<Rightarrow> reader \<times> console \<Rightarrow> bool" for split :: bool where
  press: "keyboard_handler (key_event code c, k) = Inr (c', k') \<Longrightarrow>
     key_step split (r, c, k) (Pressed code) (r, c', k')"
| spin: "iobuffer_count k = 0 \<Longrightarrow> key_step split (Waiting, c, k) Silent (Waiting, c, k)"
| leave: "iobuffer_count k \<noteq> 0 \<Longrightarrow> key_step split (Waiting, c, k) Silent (Taking, c, k)"
| take: "read_val k < length (iobuffer k) \<Longrightarrow>
     key_step split (Taking, c, k) Silent (Wrapping (iobuffer k ! read_val k), c, k\<lparr>read_val := read_val k + 1\<rparr>)"
| wrap: "key_step split (Wrapping x, c, k) Silent (Counting x, c, k\<lparr>read_val := read_val k mod IO_BUFFER_SIZE\<rparr>)"
| count: "\<not> split \<Longrightarrow>
     key_step split (Counting x, c, k) Silent (Returning x, c, k\<lparr>iobuffer_count := iobuffer_count k - 1\<rparr>)"
| load: "split \<Longrightarrow> key_step split (Counting x, c, k) Silent (Storing x (iobuffer_count k), c, k)"
| store: "key_step split (Storing x n, c, k) Silent (Returning x, c, k\<lparr>iobuffer_count := n - 1\<rparr>)"
| return: "key_step split (Returning x, c, k) (Got x) (Waiting, c, k)"

inductive key_run :: "bool \<Rightarrow> reader \<times> console \<Rightarrow> key_step_event list \<Rightarrow> reader \<times> console \<Rightarrow> bool" for split :: bool where
  run_end: "key_run split s [] s"
| run_step: "key_step split s e t \<Longrightarrow> key_run split t es u \<Longrightarrow> key_run split s (e # es) u"

inductive_cases key_stepE: "key_step split (r, c, k) e s'"
inductive_cases key_run_NilE [elim!]: "key_run split s [] s'"
inductive_cases key_run_ConsE [elim!]: "key_run split s (e # es) s'"

text \<open>The keys of a run, and what its calls of \<open>kgetc\<close> returned.\<close>

fun keys_of :: "key_step_event list \<Rightarrow> u8 list" where
  "keys_of [] = []"
| "keys_of (Pressed code # es) = code # keys_of es"
| "keys_of (_ # es) = keys_of es"

fun got_of :: "key_step_event list \<Rightarrow> u8 list" where
  "got_of [] = []"
| "got_of (Got x # es) = x # got_of es"
| "got_of (_ # es) = got_of es"

section \<open>Nothing is lost when the decrement is one step\<close>

text \<open>The queue once the character in hand has left it, and the characters still to be returned.\<close>

fun settled :: "reader \<Rightarrow> kbd_state \<Rightarrow> kbd_state" where
  "settled (Wrapping x) k = k\<lparr>read_val := read_val k mod IO_BUFFER_SIZE, iobuffer_count := iobuffer_count k - 1\<rparr>"
| "settled (Counting x) k = k\<lparr>iobuffer_count := iobuffer_count k - 1\<rparr>"
| "settled r k = k"

fun in_hand :: "reader \<Rightarrow> u8 list" where
  "in_hand (Wrapping x) = [x]"
| "in_hand (Counting x) = [x]"
| "in_hand (Returning x) = [x]"
| "in_hand r = []"

fun reader_ok :: "reader \<Rightarrow> kbd_state \<Rightarrow> bool" where
  "reader_ok (Storing x n) k = False"
| "reader_ok (Wrapping x) k = (kbd_ok (settled (Wrapping x) k) \<and> 0 < iobuffer_count k \<and> iobuffer_count k \<le> IO_BUFFER_SIZE)"
| "reader_ok (Counting x) k = (kbd_ok (settled (Counting x) k) \<and> 0 < iobuffer_count k \<and> iobuffer_count k \<le> IO_BUFFER_SIZE)"
| "reader_ok Taking k = (kbd_ok k \<and> 0 < iobuffer_count k)"
| "reader_ok r k = kbd_ok k"

definition pending :: "reader \<Rightarrow> kbd_state \<Rightarrow> u8 list" where
  "pending r k = in_hand r @ kbd_items (settled r k)"
text \<open>A key press goes to the end of what is still to be returned, wherever \<open>kgetc\<close> is.\<close>

lemma settled_shifts: "settled r (with_shifts sh k) = with_shifts sh (settled r k)"
  by (cases r) (simp_all add: with_shifts_def)

lemma settled_enqueue:
  "reader_ok r k \<Longrightarrow> settled r (enqueue xs k) = enqueue xs (settled r k)"
  by (cases r; cases xs) (simp_all add: enqueue_def)

lemma settled_count: "reader_ok r k \<Longrightarrow> iobuffer_count (settled r k) \<le> iobuffer_count k"
  by (cases r) simp_all

lemma reader_ok_settled: "reader_ok r k \<Longrightarrow> kbd_ok (settled r k)"
  by (cases r) simp_all

lemma reader_ok_handler:
  assumes "reader_ok r k"
  shows "length (iobuffer k) = IO_BUFFER_SIZE" "write_val k < IO_BUFFER_SIZE" "iobuffer_count k \<le> IO_BUFFER_SIZE"
  using assms by (cases r; simp add: kbd_ok_def)+

lemma pressed_ok:
  assumes "reader_ok r k"
  shows "reader_ok r (pressed code k)" and "pending r (pressed code k) = pending r k @ accepted code k"
    and "shifts (pressed code k) = fst (scan (shifts k) code)"
proof -
  let ?xs = "accepted code k" and ?k = "pressed code k"
  have xs: "?xs = [] \<or> iobuffer_count k < IO_BUFFER_SIZE \<and> length ?xs = 1"
    using accepted_cases [of code k] reader_ok_handler(3) [OF assms] by auto
  then have room: "?xs = [] \<or> iobuffer_count (settled r k) < IO_BUFFER_SIZE \<and> length ?xs = 1"
    using settled_count [OF assms] by auto
  have st: "settled r ?k = with_shifts (fst (scan (shifts k) code)) (enqueue ?xs (settled r k))"
    unfolding pressed_def settled_shifts settled_enqueue [OF assms] ..
  note enq = enqueue_ok [OF reader_ok_settled [OF assms] room]
  have ok: "kbd_ok (settled r ?k)" using st enq(1) by simp
  have count: "iobuffer_count ?k = iobuffer_count k + length ?xs"
    using xs by (auto simp: pressed_def enqueue_def split: list.splits)
  show "reader_ok r ?k" using assms ok count xs by (cases r) auto
  show "pending r ?k = pending r k @ ?xs" using st enq(2) by (simp add: pending_def)
  show "shifts ?k = fst (scan (shifts k) code)" by (simp add: pressed_def)
qed

lemma taken:
  assumes "kbd_ok k" and "0 < iobuffer_count k"
  shows "kbd_ok (settled (Wrapping x) (k\<lparr>read_val := read_val k + 1\<rparr>))"
    and "kbd_items k = iobuffer k ! read_val k # kbd_items (settled (Wrapping x) (k\<lparr>read_val := read_val k + 1\<rparr>))"
proof -
  let ?k = "settled (Wrapping x) (k\<lparr>read_val := read_val k + 1\<rparr>)"
  have get: "buffer_get k = Some (iobuffer k ! read_val k, ?k)" using assms(2) by (simp add: buffer_get_def)
  have "kbd_items k \<noteq> []" using assms(2) by (metis length_kbd_items less_numeral_extra(3) list.size(3))
  then obtain y ys where ys: "kbd_items k = y # ys" by (cases "kbd_items k") auto
  then show "kbd_ok ?k" and "kbd_items k = iobuffer k ! read_val k # kbd_items ?k"
    using buffer_get_ok [OF assms(1)] get by auto
qed

text \<open>A statement of \<open>kgetc\<close> changes neither what is still to be returned nor the shift keys; the
  return hands out the first of it.\<close>

lemma own_step:
  assumes "key_step False (r, c, k) e (r', c', k')" and "reader_ok r k" and "\<forall>code. e \<noteq> Pressed code"
  shows "c' = c \<and> reader_ok r' k' \<and> shifts k' = shifts k \<and> pending r k = got_of [e] @ pending r' k'
    \<and> iobuffer_count k' \<le> iobuffer_count k"
  using assms(1)
proof (cases rule: key_step.cases)
  case take
  then have "kbd_ok k" "0 < iobuffer_count k" "iobuffer_count k \<le> IO_BUFFER_SIZE" using assms(2) by (simp_all add: kbd_ok_def)
  then show ?thesis using take taken [of k "iobuffer k ! read_val k"] by (simp add: pending_def shifts_def del: settled.simps(1))
qed (use assms(2,3) in \<open>auto simp: pending_def shifts_def\<close>)

lemma press_step:
  assumes "key_step split (r, c, k) (Pressed code) (r', c', k')" and "reader_ok r k" and "term_ok c"
  shows "r' = r \<and> term_ok c' \<and> k' = pressed code k"
  using assms(1)
proof (cases rule: key_step.cases)
  case press
  then show ?thesis using handler_pressed [of "key_event code c", OF _ _ reader_ok_handler(1,2) [OF assms(2)], of code] assms(3) by auto
qed

lemma typed_step: "typed sh (code # codes) = (case snd (scan sh code) of None \<Rightarrow> [] | Some x \<Rightarrow> [x]) @ typed (fst (scan sh code)) codes"
  by (cases "scan sh code") (auto split: option.splits)

lemma accepted_typed: "subseq (accepted code k) (case snd (scan (shifts k) code) of None \<Rightarrow> [] | Some x \<Rightarrow> [x])"
  by (auto simp: accepted_def split: option.splits)

lemma accepted_all: "iobuffer_count k \<noteq> IO_BUFFER_SIZE \<Longrightarrow>
    accepted code k = (case snd (scan (shifts k) code) of None \<Rightarrow> [] | Some x \<Rightarrow> [x])"
  by (auto simp: accepted_def split: option.splits)

lemma pressed_count: "iobuffer_count (pressed code k) \<le> iobuffer_count k + 1"
  by (auto simp: pressed_def enqueue_def split: list.splits)

lemma key_run_fifo:
  assumes "key_run False s es s'"
  shows "s = (r, c, k) \<Longrightarrow> s' = (r', c', k') \<Longrightarrow> reader_ok r k \<Longrightarrow> term_ok c \<Longrightarrow>
    reader_ok r' k' \<and> term_ok c' \<and> (\<exists>ys. subseq ys (typed (shifts k) (keys_of es))
      \<and> pending r k @ ys = got_of es @ pending r' k'
      \<and> (iobuffer_count k + length (keys_of es) \<le> IO_BUFFER_SIZE \<longrightarrow> ys = typed (shifts k) (keys_of es)))"
  using assms
proof (induction arbitrary: r c k rule: key_run.induct)
  case (run_step s e t es u)
  obtain r1 c1 k1 where t: "t = (r1, c1, k1)" by (cases t)
  have st: "key_step False (r, c, k) e (r1, c1, k1)" using run_step.hyps(1) run_step.prems(1) t by simp
  show ?case
  proof (cases "\<exists>code. e = Pressed code")
    case True
    then obtain code where e: "e = Pressed code" by blast
    have p: "r1 = r" "term_ok c1" "k1 = pressed code k" using press_step [OF st [unfolded e]] run_step.prems(3,4) by blast+
    note ok = pressed_ok [OF run_step.prems(3), of code]
    let ?new = "case snd (scan (shifts k) code) of None \<Rightarrow> [] | Some x \<Rightarrow> [x]"
    have "reader_ok r k1" using ok(1) p(3) by simp
    from run_step.IH [OF t run_step.prems(2) this [folded p(1)] p(2)] obtain ys where
      ys: "reader_ok r' k'" "term_ok c'" "subseq ys (typed (shifts k1) (keys_of es))"
      "pending r1 k1 @ ys = got_of es @ pending r' k'"
      "iobuffer_count k1 + length (keys_of es) \<le> IO_BUFFER_SIZE \<longrightarrow> ys = typed (shifts k1) (keys_of es)" by blast
    have sub: "subseq (accepted code k @ ys) (typed (shifts k) (keys_of (e # es)))"
      using list_emb_append_mono [OF accepted_typed ys(3)] ok(3) p(3) e by (simp only: keys_of.simps typed_step)
    have all: "accepted code k @ ys = typed (shifts k) (keys_of (e # es))"
      if room: "iobuffer_count k + length (keys_of (e # es)) \<le> IO_BUFFER_SIZE"
    proof -
      have "iobuffer_count k1 + length (keys_of es) \<le> IO_BUFFER_SIZE" "iobuffer_count k \<noteq> IO_BUFFER_SIZE"
        using room e p(3) pressed_count [of code k] by simp_all
      then show ?thesis using ys(5) accepted_all ok(3) p(3) e by (simp only: keys_of.simps typed_step) blast
    qed
    have "pending r k @ accepted code k @ ys = got_of (e # es) @ pending r' k'"
      using ys(4) ok(2) p(1,3) e by simp
    then show ?thesis using ys(1,2) sub all by blast
  next
    case False
    then have o: "c1 = c" "reader_ok r1 k1" "shifts k1 = shifts k" "pending r k = got_of [e] @ pending r1 k1"
      "iobuffer_count k1 \<le> iobuffer_count k" using own_step [OF st run_step.prems(3)] by blast+
    have "keys_of (e # es) = keys_of es" "got_of (e # es) = got_of [e] @ got_of es" using False by (cases e; simp)+
    with run_step.IH [OF t run_step.prems(2) o(2) run_step.prems(4) [folded o(1)]] o(3-5) show ?thesis by auto
  qed
qed auto

text \<open>Without interruption the statements do what \<open>buffer_get\<close> does.\<close>

lemma uninterrupted:
  assumes "kbd_ok k" and "buffer_get k = Some (x, k')"
  shows "key_run False (Waiting, c, k) [Silent, Silent, Silent, Silent, Got x] (Waiting, c, k')"
proof -
  have k: "iobuffer_count k \<noteq> 0" "x = iobuffer k ! read_val k" "read_val k < length (iobuffer k)"
    "k' = k\<lparr>read_val := (read_val k + 1) mod IO_BUFFER_SIZE, iobuffer_count := iobuffer_count k - 1\<rparr>"
    using assms by (auto simp: buffer_get_def kbd_ok_def split: if_splits)
  have 4: "key_step False (Counting x, c, k\<lparr>read_val := (read_val k + 1) mod IO_BUFFER_SIZE\<rparr>) Silent (Returning x, c, k')"
    using key_step.count [of False x c "k\<lparr>read_val := (read_val k + 1) mod IO_BUFFER_SIZE\<rparr>"] k(4) by simp
  have 3: "key_step False (Wrapping x, c, k\<lparr>read_val := read_val k + 1\<rparr>) Silent
      (Counting x, c, k\<lparr>read_val := (read_val k + 1) mod IO_BUFFER_SIZE\<rparr>)"
    using key_step.wrap [of False x c "k\<lparr>read_val := read_val k + 1\<rparr>"] by simp
  have 2: "key_step False (Taking, c, k) Silent (Wrapping x, c, k\<lparr>read_val := read_val k + 1\<rparr>)"
    using key_step.take [OF k(3)] k(2) by simp
  note runs = key_run.run_step [OF 4 key_run.run_step [OF key_step.return key_run.run_end]]
  show ?thesis by (rule key_run.run_step [OF key_step.leave [OF k(1)] key_run.run_step [OF 2 key_run.run_step [OF 3 runs]]])
qed

section \<open>A key between the read and the write of the count is lost\<close>

lemma lost_update:
  assumes ok: "kbd_ok k" and c: "term_ok c" and items: "kbd_items k = x # xs"
    and room: "length (x # xs) < IO_BUFFER_SIZE" and key: "snd (scan (shifts k) code) = Some y"
  shows "\<exists>es c' k'. key_run True (Waiting, c, k) es (Waiting, c', k') \<and> keys_of es = [code] \<and> got_of es = [x]
    \<and> length (kbd_items k') = length xs \<and> shifts k' = fst (scan (shifts k) code)
    \<and> write_val k' = (read_val k' + length (xs @ [y])) mod IO_BUFFER_SIZE"
proof -
  let ?n = "iobuffer_count k" and ?k1 = "k\<lparr>read_val := read_val k + 1\<rparr>"
  let ?k2 = "k\<lparr>read_val := (read_val k + 1) mod IO_BUFFER_SIZE\<rparr>"
  have n: "?n = Suc (length xs)" using items length_kbd_items [of k] by simp
  have k: "read_val k < length (iobuffer k)" "length (iobuffer k) = IO_BUFFER_SIZE" "write_val k < IO_BUFFER_SIZE"
    "write_val k = (read_val k + ?n) mod IO_BUFFER_SIZE"
    using ok by (simp_all add: kbd_ok_def)
  have x: "x = iobuffer k ! read_val k" using taken(2) [OF ok, of x] n items by simp
  obtain c' where h: "keyboard_handler (key_event code c, ?k2) = Inr (c', pressed code ?k2)"
    using handler_pressed [of "key_event code c" code ?k2] c k(2,3) by auto
  let ?k3 = "(pressed code ?k2)\<lparr>iobuffer_count := ?n - 1\<rparr>"
  have steps: "key_step True (Waiting, c, k) Silent (Taking, c, k)"
    "key_step True (Taking, c, k) Silent (Wrapping x, c, ?k1)"
    "key_step True (Wrapping x, c, ?k1) Silent (Counting x, c, ?k2)"
    "key_step True (Counting x, c, ?k2) Silent (Storing x ?n, c, ?k2)"
    "key_step True (Storing x ?n, c, ?k2) (Pressed code) (Storing x ?n, c', pressed code ?k2)"
    "key_step True (Storing x ?n, c', pressed code ?k2) Silent (Returning x, c', ?k3)"
    "key_step True (Returning x, c', ?k3) (Got x) (Waiting, c', ?k3)"
    using n key_step.leave [of k True c] key_step.take [OF k(1), of True c] x key_step.wrap [of True x c ?k1]
      key_step.load [of True x c ?k2] key_step.press [OF h, of True] key_step.store [of True x ?n c' "pressed code ?k2"]
      key_step.return by simp_all
  have run: "key_run True (Waiting, c, k) [Silent, Silent, Silent, Silent, Pressed code, Silent, Got x] (Waiting, c', ?k3)"
    by (rule key_run.run_step [OF steps(1) key_run.run_step [OF steps(2) key_run.run_step [OF steps(3) key_run.run_step [OF steps(4)
        key_run.run_step [OF steps(5) key_run.run_step [OF steps(6) key_run.run_step [OF steps(7) key_run.run_end]]]]]]])
  have acc: "accepted code ?k2 = [y]" using key n room by (simp add: accepted_def shifts_def)
  have "write_val ?k3 = (write_val k + 1) mod IO_BUFFER_SIZE" "read_val ?k3 = (read_val k + 1) mod IO_BUFFER_SIZE"
    "shifts ?k3 = fst (scan (shifts k) code)"
    unfolding pressed_def acc by (simp_all add: enqueue_def with_shifts_def shifts_def)
  moreover have "(write_val k + 1) mod IO_BUFFER_SIZE = ((read_val k + 1) mod IO_BUFFER_SIZE + length (xs @ [y])) mod IO_BUFFER_SIZE"
  proof -
    have "(write_val k + 1) mod IO_BUFFER_SIZE = (read_val k + ?n + 1) mod IO_BUFFER_SIZE"
      unfolding k(4) by (rule mod_add_left_eq)
    also have "read_val k + ?n + 1 = read_val k + 1 + length (xs @ [y])" using n by simp
    finally show ?thesis unfolding mod_add_left_eq .
  qed
  ultimately show ?thesis using run n by (intro exI conjI) (auto simp: length_kbd_items)
qed


end
