(* ===== verification/Samples.thy ===== *)
theory Samples
  imports Programs Interrupts
begin

text \<open>
  Concrete states on which the properties are instantiated: a terminal, a memory in which every
  page is mapped, a memory with free pages and an empty address space, a mounted file system with
  a short file, a file of two blocks and one free block, a machine at its start, and the literals
  of the test program in memory.
\<close>

definition sample_term :: term_state where
  "sample_term = \<lparr>tports = \<lparr>port_in = (\<lambda>_. 0), port_out = []\<rparr>, term_ptr = 0,
     term_buf = replicate 2000 blank, term_col = 0, term_row = 0\<rparr>"

lemma sample_term_ok [simp]: "term_ok sample_term"
  by (simp add: sample_term_def term_ok_def)

section \<open>Memories\<close>

text \<open>Every cell is a present entry that points to frame 0.\<close>

definition sample_mem :: mem_state where
  "sample_mem = \<lparr>con = sample_term, hhdm_addr = 0, freelist = 0, cells = (\<lambda>_. 7), cr3 = 0, tlb_log = []\<rparr>"

lemma sample_mem_fields [simp]: "con sample_mem = sample_term" "cells sample_mem = (\<lambda>_. 7)"
  by (simp_all add: sample_mem_def)

lemma present_7: "pte_present 7"
  by (simp add: pte_present_def)

lemma sample_mem_present [simp]: "page_present sample_mem a"
proof -
  have "\<exists>u. table_path sample_mem shs a t = Some u" for shs t
    by (induction shs arbitrary: t) (simp_all add: present_7)
  then obtain u where "table_path sample_mem [39, 30, 21] a (cr3_root sample_mem) = Some u" by blast
  then show ?thesis by (simp add: page_present_def leaf_entry_def present_7)
qed

section \<open>A file system\<close>

definition empty_block :: data_block where
  "empty_block = \<lparr>blk_index = 0, blk_data = replicate 124 0\<rparr>"

definition sample_entry :: "u8 \<Rightarrow> u32 \<Rightarrow> u64 \<Rightarrow> file_entry" where
  "sample_entry c i z = \<lparr>fe_name = c # replicate 31 0, start_index = i, file_size = z\<rparr>"

definition sample_fds :: fd_state where
  "sample_fds = \<lparr>vm = sample_mem,
     fd_heap = [fd_addr 1 \<mapsto> \<lparr>fdn_fd = 1, fdn_entry = 1, fdn_next = fd_addr 0\<rparr>,
                fd_addr 0 \<mapsto> \<lparr>fdn_fd = 0, fdn_entry = 0, fdn_next = 0\<rparr>],
     fd_list = fd_addr 1, next_alloc = fd_addr 2, next_fd = 2\<rparr>"

definition sample_blocks :: "nat \<Rightarrow> data_block" where
  "sample_blocks = (\<lambda>_. empty_block)(
     128 := \<lparr>blk_index = BLOCK_INDEX_END, blk_data = [104, 105] @ replicate 122 0\<rparr>,
     96 := \<lparr>blk_index = 64, blk_data = replicate 124 65\<rparr>,
     64 := \<lparr>blk_index = BLOCK_INDEX_END, blk_data = replicate 124 66\<rparr>,
     0 := set_blk_next 0 empty_block)"

definition sample_fs :: fs_state where
  "sample_fs = \<lparr>fds = sample_fds, blocks = START_ADDR, free_list = slot_addr 0,
     entries = sample_entry 97 128 2 # sample_entry 98 96 130 # replicate 254 (sample_entry 0 0 0),
     next_entry = 2, blk_mapped = (\<lambda>_. True), blk_mem = sample_blocks\<rparr>"

definition sample_chain :: "nat \<Rightarrow> nat list" where
  "sample_chain = (\<lambda>i. if i = 0 then [128] else [96, 64])"

definition sample_table :: "int \<rightharpoonup> nat" where
  "sample_table = [0 \<mapsto> 0, 1 \<mapsto> 1]"

lemma sample_fds_holds: "fd_holds sample_fds sample_table"
proof -
  have "fd_addr 0 \<noteq> 0" "fd_addr 1 \<noteq> 0" "fd_addr 1 \<noteq> fd_addr 0"
    by (simp_all add: fd_addr_nonzero fd_addr_inject)
  then have "fd_list_ok sample_fds [(fd_addr 1, 1, 1), (fd_addr 0, 0, 0)]"
    by (simp add: fd_list_ok_def sample_fds_def)
  then show ?thesis unfolding fd_holds_def
    by (intro exI conjI) (auto simp: sample_table_def)
qed

lemma sample_fs_fields [simp]:
  "fds sample_fs = sample_fds" "next_entry sample_fs = 2" "blk_mem sample_fs = sample_blocks"
  "vm sample_fds = sample_mem" "next_fd sample_fds = 2" "next_alloc sample_fds = fd_addr 2"
  "entries sample_fs ! 0 = sample_entry 97 128 2" "entries sample_fs ! 1 = sample_entry 98 96 130"
  "entries sample_fs ! Suc 0 = sample_entry 98 96 130"
  by (simp_all add: sample_fs_def sample_fds_def)

lemma sample_table_simps [simp]: "sample_table 0 = Some 0" "sample_table 1 = Some 1" "sample_table 7 = None"
  by (simp_all add: sample_table_def)

lemma sample_fs_ok: "fs_ok {0, 1} sample_chain [0] sample_table sample_fs"
proof -
  have "terminated (replicate 31 0)" by (simp add: terminated_def)
  then have "names_ok sample_fs"
    by (auto simp: names_ok_def sample_fs_def sample_entry_def less_Suc_eq numeral_2_eq_2)
  moreover have "data_ok sample_blocks"
    by (simp add: data_ok_def sample_blocks_def empty_block_def length_set_next)
  then have "blocks_ok {0, 1} sample_chain [0] sample_fs"
    by (simp add: blocks_ok_def entry_ok_def mounted_def sample_chain_def n_blocks_def sample_entry_def)
      (simp add: sample_fs_def sample_blocks_def)
  moreover have "ran sample_table \<subseteq> {0, 1}" by (auto simp: ran_def sample_table_def split: if_splits)
  then have "handles_ok {0, 1} sample_table sample_fs"
    using sample_fds_holds by (auto simp: handles_ok_def)
  ultimately show ?thesis by (simp add: fs_ok_def)
qed

lemma sample_fd_ready: "fd_ready sample_fds"
  by (simp add: fd_ready_def)

section \<open>A memory with eight free pages\<close>

definition sample_ram :: mem_state where
  "sample_ram = \<lparr>con = sample_term, hhdm_addr = 0xffff800000000000, freelist = 0xffff800000100000,
     cells = (\<lambda>_. 0)(0xffff800000100000 := 0x8000, 0xffff800000100008 := 0x100000),
     cr3 = 0x1000, tlb_log = []\<rparr>"

abbreviation "sample_node \<equiv> (0xffff800000100000 :: u64)"

lemma sample_pages: "pages_at sample_ram sample_node =
  {0x100000, 0x101000, 0x102000, 0x103000, 0x104000, 0x105000, 0x106000, 0x107000}"
proof -
  have eight: "{k. k < 8} = {0, 1, 2, 3, 4, 5, 6, 7 :: nat}" by auto
  have "chunk_pages a 0x8000 = (\<lambda>k. a + of_nat k * 4096) ` {k. k < 8}" for a
    by (auto simp: chunk_pages_def)
  then show ?thesis unfolding eight by (simp add: pages_at_def sample_ram_def)
qed

lemma sample_fl_inv: "fl_inv sample_ram [sample_node]"
  by (simp add: fl_inv_def chunk_ok_def sample_ram_def aligned_def fits_def)

lemma sample_free: "free_pages sample_ram [sample_node] =
  {0x100000, 0x101000, 0x102000, 0x103000, 0x104000, 0x105000, 0x106000, 0x107000}"
  by (simp add: free_pages_def sample_pages)

lemma sample_root_empty: "\<not> pte_present (cells sample_ram (entry_at sample_ram 0x1000 a 39))"
proof -
  have "unat (8 * pt_index a 39) < 4096" by (rule pt_index_bound)
  then have "8 * pt_index a 39 \<noteq> 0xff000" "8 * pt_index a 39 \<noteq> 0xff008" by auto
  then show ?thesis by (simp add: sample_ram_def entry_at_page pte_present_def)
qed

lemma sample_vm_inv: "vm_inv_with A sample_ram [sample_node] (\<lambda>p. if p = 0x1000 then 4 else 0)"
proof -
  have free_nil: "free_pages sample_ram [] = {}" by (simp add: free_pages_def)
  have "cr3_root sample_ram = 0x1000" by (simp add: read_cr3_def sample_ram_def)
  moreover note sample_root_empty
  moreover have "term_ok (con sample_ram)" by (simp add: sample_ram_def)
  ultimately show ?thesis
    by (simp add: vm_inv_with_def sample_fl_inv sample_pages free_nil phys_def aligned_def Let_def)
qed

lemma sample_content:
  "content sample_chain sample_fs 0 = [104, 105]"
  "content sample_chain sample_fs 1 = replicate 124 65 @ replicate 6 66"
  "content sample_chain sample_fs (Suc 0) = replicate 124 65 @ replicate 6 66"
  by (simp_all add: content_def sample_chain_def sample_entry_def sample_blocks_def)

lemma cstr_zeros: "cstr (replicate n 0) = []"
  by (cases n) simp_all

lemma sample_lookup:
  "lookup sample_fs [97] = Some 0" "lookup sample_fs [98] = Some 1" "lookup sample_fs [120] = None"
proof -
  have "[0..<2] = [0, Suc 0]" by (simp add: upt_rec)
  then show "lookup sample_fs [97] = Some 0" "lookup sample_fs [98] = Some 1" "lookup sample_fs [120] = None"
    by (simp_all add: lookup_def sample_entry_def cstr_zeros)
qed

lemma sample_full: "fs_ok {0, 1} sample_chain [] sample_table (sample_fs\<lparr>free_list := 0\<rparr>)"
  using sample_fs_ok
  by (simp add: fs_ok_def names_ok_def handles_ok_def blocks_ok_def mounted_def)

text \<open>The state before mounting: nothing open, nothing allocated.\<close>

definition sample_boot :: fs_state where
  "sample_boot = \<lparr>fds = \<lparr>vm = sample_mem, fd_heap = (\<lambda>_. None), fd_list = 0, next_alloc = next_alloc_init, next_fd = 0\<rparr>,
     blocks = 0, free_list = 0, entries = replicate 256 (sample_entry 0 0 0), next_entry = 0,
     blk_mapped = (\<lambda>_. False), blk_mem = (\<lambda>_. empty_block)\<rparr>"

lemma sample_boot_init: "init_state sample_boot" "region_present (vm (fds sample_boot))"
  "next_fd (fds sample_boot) = 0" "fds_backed sample_boot"
proof -
  have "fd_list_ok (fds sample_boot) []" by (simp add: fd_list_ok_def sample_boot_def fd_addr_def)
  then have "fd_holds (fds sample_boot) Map.empty" unfolding fd_holds_def by (intro exI conjI) auto
  then show "init_state sample_boot"
    by (simp add: init_state_def) (simp add: sample_boot_def sample_entry_def data_ok_def empty_block_def)
qed (simp_all add: sample_boot_def region_present_def fds_backed_def)
section \<open>A running kernel\<close>

text \<open>The mounted file system, an empty keyboard buffer and keys to come; a page of user memory at
  address 0x5000, every byte of it an exclamation mark.\<close>

definition empty_kbd :: kbd_state where
  "empty_kbd = \<lparr>iobuffer = replicate 1000 0, read_val = 0, write_val = 0, iobuffer_count = 0,
     left_shift_flag = False, right_shift_flag = False\<rparr>"

definition sample_kernel :: "u8 list \<Rightarrow> kstate" where
  "sample_kernel ks = \<lparr>kfs = sample_fs, kkbd = empty_kbd, keys = ks, mem_start = 0x80000000000,
     kram = (\<lambda>_. 33), boot_hdr = []\<rparr>"

lemma sample_kernel_fields [simp]:
  "kfs (sample_kernel ks) = sample_fs" "kkbd (sample_kernel ks) = empty_kbd" "keys (sample_kernel ks) = ks"
  "kram (sample_kernel ks) = (\<lambda>_. 33)"
  by (simp_all add: sample_kernel_def)

lemma empty_kbd_ok [simp]: "kbd_ok empty_kbd" "kbd_items empty_kbd = []" "shifts empty_kbd = (False, False)"
  "iobuffer_count empty_kbd = 0"
  by (simp_all add: kbd_ok_def kbd_items_def shifts_def empty_kbd_def)

lemma sample_k_ok: "k_ok (sample_kernel ks)"
  by (simp add: k_ok_def)

lemma sample_stream: "char_stream (sample_kernel ks) = typed (False, False) ks"
  by (simp add: char_stream_def)

lemma sample_frame_any: "frame_of sample_mem a = Some (a AND 0xFFF)"
proof -
  have "page_present sample_mem a" by simp
  then obtain e where e: "leaf_entry sample_mem a (cr3_root sample_mem) = Some e" "pte_present e"
    by (auto simp: page_present_def split: option.splits)
  then have "e = 7" by (auto simp: leaf_entry_def simp del: table_path.simps)
  then show ?thesis using e by (simp add: frame_of_def pte_target_def pte_address_def)
qed

lemma sample_frame: "j < 4096 \<Longrightarrow> frame_of sample_mem (0x5000 + of_nat j) = Some (of_nat j)"
proof -
  assume j: "j < 4096"
  have "page_present sample_mem (0x5000 AND NOT 0xFFF)" by simp
  then obtain e where e: "leaf_entry sample_mem (0x5000 AND NOT 0xFFF) (cr3_root sample_mem) = Some e" "pte_present e"
    by (auto simp: page_present_def split: option.splits)
  then have "e = 7" by (auto simp: leaf_entry_def simp del: table_path.simps)
  moreover have "pte_target 7 = 0" by (simp add: pte_target_def pte_address_def)
  moreover have "(0x5000 AND 0xFFF :: u64) = 0" by simp
  ultimately show ?thesis using frame_of_page [OF e, of j] j by simp
qed

lemma of_nat_inj_4096: "n \<le> 4096 \<Longrightarrow> inj_on (of_nat :: nat \<Rightarrow> u64) {..<n}"
proof (rule inj_onI)
  fix i j assume ij: "n \<le> 4096" "i \<in> {..<n}" "j \<in> {..<n}" "of_nat i = (of_nat j :: u64)"
  have "unat (of_nat i :: u64) = i" by (rule unat_of_nat_small) (use ij in simp)
  moreover have "unat (of_nat j :: u64) = j" by (rule unat_of_nat_small) (use ij in simp)
  ultimately show "i = j" by (metis ij(4))
qed

lemma sample_user_page: "n \<le> 4096 \<Longrightarrow> backed n 0x5000 of_nat (sample_kernel ks)"
  by (simp add: backed_def sample_frame of_nat_inj_4096)

lemma sample_shell_ok: "shell_ok 0x5000 of_nat [] (sample_kernel ks)"
  by (simp add: shell_ok_def sample_k_ok sample_user_page)

text \<open>A kernel whose user space is empty, with eight free pages.\<close>

definition fresh_kernel :: "u64 \<Rightarrow> kstate" where
  "fresh_kernel start = set_vm sample_ram ((sample_kernel [])\<lparr>mem_start := start\<rparr>)"

lemma fresh_vm [simp]: "kvm (fresh_kernel start) = sample_ram" "mem_start (fresh_kernel start) = start"
  by (simp_all add: fresh_kernel_def)

lemma sample_space_ok: "space_ok A sample_ram [sample_node] (\<lambda>p. if p = 0x1000 then 4 else 0) (\<lambda>_. 0)"
proof -
  have "cr3_root sample_ram = 0x1000" by (simp add: read_cr3_def sample_ram_def)
  then have "owns sample_ram (\<lambda>_. 0) levels a (cr3_root sample_ram)" for a
    using sample_root_empty [of a] by (simp add: bits_from_top Let_def)
  then show ?thesis using sample_vm_inv by (simp add: space_ok_def owned_def)
qed

lemma fresh_vm_inv: "vm_inv A sample_ram"
  unfolding vm_inv_def using sample_space_ok by blast

lemma fresh_avail: "mem_avail sample_ram =
  {0x100000, 0x101000, 0x102000, 0x103000, 0x104000, 0x105000, 0x106000, 0x107000}"
  using mem_avail_eq [OF sample_fl_inv] sample_free by simp

lemma fresh_absent: "\<not> page_present sample_ram a"
proof -
  note sample_root_empty [of a]
  moreover have "cr3_root sample_ram = 0x1000" by (simp add: read_cr3_def sample_ram_def)
  ultimately show ?thesis by (simp add: page_present_def leaf_entry_def pte_present_def)
qed

lemma fresh_blank: "blank_space A sample_ram"
proof -
  have "blank_leaves sample_ram [sample_node] (\<lambda>p. if p = 0x1000 then 4 else 0)" by (simp add: blank_leaves_def)
  then show ?thesis unfolding blank_space_def using sample_space_ok by blast
qed

definition empty_heap :: heap where
  "empty_heap = \<lparr>bump = 0, space_remaining = 0\<rparr>"

lemma sample_heap_ok: "heap_ok 0x800000000000 (empty_heap, fresh_kernel 0x80000000000)"
  by (simp add: heap_ok_def fresh_vm_inv empty_heap_def aligned_def bytes_mapped_def)
section \<open>A machine at its start\<close>

text \<open>A root table with one table below it in the lower half, an empty one, and one path for the
  upper half; the boot loader reports eight usable pages.\<close>

abbreviation "direct_map \<equiv> (0xffff800000000000 :: u64)"

definition boot_cells :: "u64 \<Rightarrow> u64" where
  "boot_cells a = (let page = unat (a - direct_map) div 4096 in
     if page = 1 then (if a = direct_map + 0x1000 then 0x5007 else if a = direct_map + 0x1800 then 0x2007 else 0)
     else if page = 2 then 0x3007 else if page = 3 then 0x4007 else if page = 4 then 7
     else if a = sample_node then 0x40000 else if a = sample_node + 8 then 0x100000 else 0)"

definition boot_mem :: "term_state \<Rightarrow> mem_state" where
  "boot_mem c = \<lparr>con = c, hhdm_addr = direct_map, freelist = sample_node, cells = boot_cells, cr3 = 0x1000, tlb_log = []\<rparr>"

lemma boot_cells_at:
  assumes "unat d < 4096"
  shows "boot_cells (0x1000 + direct_map + d) = (if d = 0 then 0x5007 else if d = 0x800 then 0x2007 else 0)"
    and "boot_cells (0x2000 + direct_map + d) = 0x3007" and "boot_cells (0x3000 + direct_map + d) = 0x4007"
    and "boot_cells (0x4000 + direct_map + d) = 7" and "boot_cells (0x5000 + direct_map + d) = 0"
proof -
  have "unat (t + d) div 4096 = unat t div 4096" if "aligned t" for t
    using unat_aligned_offset [OF that assms] that assms by (auto simp: aligned_def elim!: dvdE)
  note page = this [of "0x1000"] this [of "0x2000"] this [of "0x3000"] this [of "0x4000"] this [of "0x5000"]
  have "d < 0x1000" using assms by (simp add: word_less_nat_alt)
  then have "d \<noteq> 0xfb000" "d \<noteq> 0xfb008" by auto
  then have "0x5000 + direct_map + d \<noteq> sample_node" "0x5000 + direct_map + d \<noteq> sample_node + 8"
    by (auto simp: eq_diff_eq [symmetric])
  with page
  show "boot_cells (0x1000 + direct_map + d) = (if d = 0 then 0x5007 else if d = 0x800 then 0x2007 else 0)"
    and "boot_cells (0x2000 + direct_map + d) = 0x3007" and "boot_cells (0x3000 + direct_map + d) = 0x4007"
    and "boot_cells (0x4000 + direct_map + d) = 7" and "boot_cells (0x5000 + direct_map + d) = 0"
    by (simp_all add: boot_cells_def aligned_def)
qed
lemma boot_mem_fields [simp]: "con (boot_mem c) = c" "read_cr3 (boot_mem c) = 0x1000"
  by (simp_all add: boot_mem_def read_cr3_def)

lemma boot_slots:
  assumes "i < 512"
  shows "slot (boot_mem c) 0x1000 i = (if i = 0 then 0x5007 else if i = 256 then 0x2007 else 0)"
    and "slot (boot_mem c) 0x5000 i = 0"
proof -
  have i: "unat (of_nat i :: u64) = i" using assms by (intro unat_of_nat_small) simp
  then have u: "unat (8 * of_nat i :: u64) = 8 * i" using assms by (simp add: unat_word_ariths)
  have "(8 * of_nat i = (0 :: u64)) = (i = 0)" "(8 * of_nat i = (0x800 :: u64)) = (i = 256)"
    using u by (simp_all add: word_unat_eq_iff)
  then show "slot (boot_mem c) 0x1000 i = (if i = 0 then 0x5007 else if i = 256 then 0x2007 else 0)"
    "slot (boot_mem c) 0x5000 i = 0"
    using boot_cells_at [OF slot_in_page [OF assms]] by (simp_all add: slot_def boot_mem_def)
qed

lemma boot_entries: "pte_present 0x5007" "pte_target 0x5007 = 0x5000" "pte_present 0x2007" "pte_target 0x2007 = 0x2000"
  "pte_present 0x3007" "pte_target 0x3007 = 0x3000" "pte_present 0x4007" "pte_target 0x4007 = 0x4000"
  "\<not> pte_present 0" "links 0x5007" "\<not> links 0"
  by (simp_all add: pte_present_def pte_target_def pte_address_def links_def pte_page_size_def mask_eq_exp_minus_1)

lemma below3_empty: "(\<And>i. i \<in> set is \<Longrightarrow> slot s t i = 0) \<Longrightarrow> below3 is s t = []"
  by (induction "is") (simp_all add: boot_entries)

lemma below4_empty: "(\<And>i. i \<in> set is \<Longrightarrow> slot s t i = 0) \<Longrightarrow> below4 is s t = []"
  by (induction "is") (simp_all add: boot_entries)

lemma boot_tables: "lower_tables (boot_mem c) = [0x5000]"
proof -
  have "[0..<256] = 0 # [Suc 0..<256]" by (simp add: upt_conv_Cons)
  moreover have "below4 [Suc 0..<256] (boot_mem c) 0x1000 = []"
    by (rule below4_empty) (simp add: boot_slots)
  moreover have "below3 [0..<512] (boot_mem c) 0x5000 = []"
    by (rule below3_empty) (simp add: boot_slots)
  moreover have "cr3_root (boot_mem c) = 0x1000" by simp
  ultimately show ?thesis by (simp add: lower_tables_def boot_slots boot_entries)
qed

lemma boot_node_cells: "boot_cells sample_node = 0x40000" "boot_cells (sample_node + 8) = 0x100000"
    "boot_cells (sample_node + 16) = 0"
  by (simp_all add: boot_cells_def)

definition boot_pages :: "u64 set" where
  "boot_pages = (\<lambda>k. 0x100000 + of_nat k * 4096) ` {..<64}"

lemma boot_page: "k < 64 \<Longrightarrow> unat (0x100000 + of_nat k * 4096 :: u64) = 0x100000 + 4096 * k"
proof -
  assume k: "k < 64"
  then have "unat (of_nat k :: u64) = k" by (intro unat_of_nat_small) simp
  then have "unat (of_nat k * 4096 :: u64) = 4096 * k" using k by (subst unat_mult_small) simp_all
  then show ?thesis using k by (subst unat_add_small) simp_all
qed

lemma boot_pages: "finite boot_pages" "card boot_pages = 64" "p \<in> boot_pages \<Longrightarrow> phys p"
  "p \<in> boot_pages \<Longrightarrow> 0x100000 \<le> unat p"
proof -
  have "inj_on (\<lambda>k. 0x100000 + of_nat k * 4096 :: u64) {..<64}"
    using boot_page by (intro inj_onI) (metis lessThan_iff add_left_cancel mult_cancel1 zero_neq_numeral)
  then show "card boot_pages = 64" "finite boot_pages" unfolding boot_pages_def by (simp_all add: card_image)
  show "0x100000 \<le> unat p" if "p \<in> boot_pages" using that boot_page by (auto simp: boot_pages_def)
  show "phys p" if p: "p \<in> boot_pages"
  proof -
    obtain k where "k < 64" "p = 0x100000 + of_nat k * 4096" using p unfolding boot_pages_def by blast
    then have "unat p < 2 ^ 52" using boot_page by simp
    then have "unat (drop_bit 52 p) = 0" by (simp add: drop_bit_eq_div unat_div_distrib)
    then show ?thesis by (simp add: phys_def unat_eq_zero)
  qed
qed

lemma boot_avail: "fl_inv (boot_mem c) [sample_node]" "mem_avail (boot_mem c) = boot_pages" "mem_inv (boot_mem c)"
proof -
  have cells: "cells (boot_mem c) = boot_cells" by (simp add: boot_mem_def)
  have "chunk_pages a 0x40000 = (\<lambda>k. a + of_nat k * 4096) ` {..<64}" for a by (auto simp: chunk_pages_def)
  then have "free_pages (boot_mem c) [sample_node] = boot_pages"
    using boot_node_cells by (simp add: free_pages_def pages_at_def cells boot_pages_def)
  moreover show fl: "fl_inv (boot_mem c) [sample_node]"
    using boot_node_cells by (simp add: fl_inv_def chunk_ok_def cells aligned_def fits_def) (simp add: boot_mem_def aligned_def)
  ultimately show "mem_avail (boot_mem c) = boot_pages" using mem_avail_eq by simp
  show "mem_inv (boot_mem c)" using fl unfolding mem_inv_def by blast
qed

lemma boot_tree: "tree_ok (boot_mem c)"
proof -
  have "0x1000 \<notin> boot_pages" "0x5000 \<notin> boot_pages" using boot_pages(4) [of "0x1000"] boot_pages(4) [of "0x5000"] by auto
  then show ?thesis by (simp add: tree_ok_def listable_def boot_tables boot_avail) (simp add: boot_mem_def)
qed

lemma boot_path:
  assumes "pt_index a 39 = 256"
  shows "path_tables (boot_mem c) [39, 30, 21] a 0x1000 = [0x1000, 0x2000, 0x3000, 0x4000]"
    and "table_path (boot_mem c) [39, 30, 21] a 0x1000 = Some 0x4000"
    and "cells (boot_mem c) (entry_at (boot_mem c) 0x4000 a 12) = 7"
proof -
  note at = boot_cells_at [OF pt_index_bound]
  have "cells (boot_mem c) (entry_at (boot_mem c) 0x1000 a 39) = 0x2007"
    using at(1) [of a 39] assms by (simp add: entry_at_page boot_mem_def)
  moreover have "cells (boot_mem c) (entry_at (boot_mem c) 0x2000 a 30) = 0x3007"
    using at(2) [of a 30] by (simp add: entry_at_page boot_mem_def)
  moreover have "cells (boot_mem c) (entry_at (boot_mem c) 0x3000 a 21) = 0x4007"
    using at(3) [of a 21] by (simp add: entry_at_page boot_mem_def)
  ultimately show "path_tables (boot_mem c) [39, 30, 21] a 0x1000 = [0x1000, 0x2000, 0x3000, 0x4000]"
    "table_path (boot_mem c) [39, 30, 21] a 0x1000 = Some 0x4000" by (simp_all add: boot_entries)
  show "cells (boot_mem c) (entry_at (boot_mem c) 0x4000 a 12) = 7"
    using at(4) [of a 12] by (simp add: entry_at_page boot_mem_def)
qed

lemma region_index:
  assumes "i < 129"
  shows "pt_index (START_ADDR + of_nat i * 0x1000) 39 = 256"
proof -
  let ?a = "START_ADDR + of_nat i * 0x1000"
  have "unat (of_nat i :: u64) = i" using assms by (intro unat_of_nat_small) simp
  then have "unat (of_nat i * 0x1000 :: u64) = i * 4096" using assms by (subst unat_mult_small) simp_all
  then have "unat ?a = unat START_ADDR + i * 4096" using assms by (subst unat_add_small) simp_all
  then have "unat (drop_bit 39 ?a) = 0x1FFFF00"
    using assms by (simp add: drop_bit_eq_div unat_div_distrib)
  then have "drop_bit 39 ?a = 0x1FFFF00" by (simp add: word_unat_eq_iff)
  then show ?thesis by (simp add: pt_index_def)
qed

lemma boot_region: "region_present (boot_mem c)" "region_apart (boot_mem c)"
proof -
  have root: "cr3_root (boot_mem c) = 0x1000" by simp
  show "region_present (boot_mem c)"
    using boot_path region_index unfolding region_present_def page_present_def leaf_entry_def root
    by (simp add: present_7 del: table_path.simps)
  show "region_apart (boot_mem c)"
    using boot_path(1) region_index unfolding region_apart_def apart_def root boot_tables
    by (simp del: path_tables.simps)
qed

definition boot_kernel :: kstate where
  "boot_kernel = (sample_kernel [])\<lparr>kfs := sample_boot\<lparr>fds := (fds sample_boot)\<lparr>vm := (boot_mem sample_term)\<lparr>freelist := 0\<rparr>\<rparr>\<rparr>\<rparr>"

definition boot_machine :: machine where
  "boot_machine = \<lparr>kernel = boot_kernel,
     mgdt = \<lparr>gdt = [], gdt_size = 0, task = zero_tss, gdtr = None, task_register = None\<rparr>, midt = ([], (0, 0))\<rparr>"

definition boot_map :: "mmap_entry list" where
  "boot_map = [\<lparr>mm_base = 0x100000, mm_length = 0x40000, mm_type = 1\<rparr>]"

lemma boot_freelist:
  "freelist_init (Hhdm_Tag direct_map # Memmap_Tag boot_map # tags) (kvm (pics_ready (kernel boot_machine)))
   = Inr (boot_mem (sample_term\<lparr>tports := pic_unmask_irq 1 (pic_init (tports sample_term))\<rparr>))"
proof -
  have "boot_cells(sample_node := 0x40000, sample_node + 8 := 0x100000, sample_node + 16 := 0) = boot_cells"
    using boot_node_cells by (intro ext) auto
  then show ?thesis
    by (simp add: boot_machine_def boot_kernel_def pics_ready_def freelist_init_def boot_map_def push_node_def)
      (simp add: boot_mem_def store_def)
qed

lemma boot_unmounted: "unmounted (kfs (kernel boot_machine))"
proof -
  let ?t = "sample_boot\<lparr>fds := (fds sample_boot)\<lparr>vm := (boot_mem sample_term)\<lparr>freelist := 0\<rparr>\<rparr>\<rparr>"
  have "init_state sample_boot" "next_fd (fds sample_boot) = 0" by (rule sample_boot_init)+
  then have "init_state (?t\<lparr>fds := (fds ?t)\<lparr>vm := vm (fds sample_boot)\<rparr>\<rparr>)" "next_fd (fds ?t) = 0" by simp_all
  then have "unmounted ?t" unfolding unmounted_def by blast
  then show ?thesis by (simp add: boot_machine_def boot_kernel_def)
qed

section \<open>A program in memory\<close>

definition mod_bytes :: "u8 list" where
  "mod_bytes = c_lit ''f1.txt'' @ c_lit ''f2.txt'' @ c_lit ''hello'' @ c_lit ''nihao'' @ c_lit ('' world'' @ [nl]) @ c_lit ''a ''"

definition mod_literals :: test_literals where
  "mod_literals = \<lparr>at_f1 = 0x80000, at_f2 = 0x80007, at_hello = 0x8000E, at_nihao = 0x80014, at_world = 0x8001A, at_a = 0x80022\<rparr>"

definition mod_kernel :: "fs_state \<Rightarrow> kstate" where
  "mod_kernel t = (sample_kernel [])\<lparr>kfs := t, kram := (\<lambda>p. (mod_bytes @ replicate 4096 0) ! unat p)\<rparr>"

lemma mod_load:
  assumes "vm (fds t) = sample_mem\<lparr>con := c\<rparr>"
  shows "user_load a (mod_kernel t) = Inr ((mod_bytes @ replicate 4096 0) ! unat (a AND 0xFFF))"
  using assms by (simp add: user_load_def mod_kernel_def sample_frame_any)

lemma mod_load_at:
  assumes "vm (fds t) = sample_mem\<lparr>con := c\<rparr>" and "i + j < 4096"
  shows "user_load (0x80000 + of_nat i + of_nat j) (mod_kernel t) = Inr ((mod_bytes @ replicate 4096 0) ! (i + j))"
proof -
  have "(0x80000 + of_nat (i + j) :: u64) AND 0xFFF = (0x80000 AND 0xFFF) + of_nat (i + j)"
    by (rule page_split(2)) (use assms(2) in simp)
  then have "(0x80000 + of_nat i + of_nat j :: u64) AND 0xFFF = of_nat (i + j)" by (simp add: add.assoc)
  moreover have "unat (of_nat (i + j) :: u64) = i + j" by (rule unat_of_nat_small) (use assms(2) in simp)
  ultimately show ?thesis using mod_load [OF assms(1)] by simp
qed

lemma mod_string:
  assumes "vm (fds t) = sample_mem\<lparr>con := c\<rparr>" and "i + n < 4000"
    and "take n (drop i mod_bytes) = str" and "length str = n" and "0 \<notin> set str"
  shows "user_block n (0x80000 + of_nat i) (mod_kernel t) = str"
    and "mod_bytes ! (i + n) = 0 \<Longrightarrow> i + n < length mod_bytes \<Longrightarrow> user_string (0x80000 + of_nat i) (mod_kernel t) = str @ [0]"
proof -
  have len: "i + n \<le> length mod_bytes \<or> n = 0" using assms(3,4) by auto
  have at: "(mod_bytes @ replicate 4096 0) ! (i + j) = str ! j" if "j < n" for j
    using len that assms(3) [symmetric] by (auto simp: nth_append)
  have map: "map (\<lambda>j. (mod_bytes @ replicate 4096 0) ! (i + j)) [0..<n] = str"
    by (rule nth_equalityI) (use assms(4) at in simp_all)
  have load: "user_load (0x80000 + of_nat i + of_nat j) (mod_kernel t) = Inr ((mod_bytes @ replicate 4096 0) ! (i + j))"
    if "j \<le> n" for j using mod_load_at [OF assms(1)] assms(2) that by simp
  show "user_block n (0x80000 + of_nat i) (mod_kernel t) = str"
    using user_block_backed [of n "0x80000 + of_nat i" "mod_kernel t"] load map by simp
  assume z: "mod_bytes ! (i + n) = 0" "i + n < length mod_bytes"
  have "unat (0x80000 + of_nat i :: u64) \<le> unat (0x80000 :: u64) + unat (of_nat i :: u64)"
    by (simp add: unat_word_ariths)
  moreover have "unat (of_nat i :: u64) = i" by (rule unat_of_nat_small) (use assms(2) in simp)
  ultimately have "unat (0x80000 + of_nat i :: u64) + n < 2 ^ 64" using assms(2) by simp
  from user_string_backed [OF load _ _ this] map z at assms(4,5)
  show "user_string (0x80000 + of_nat i) (mod_kernel t) = str @ [0]"
    by (metis nth_append nth_mem)
qed

lemma mod_kernel_literals:
  assumes "vm (fds t) = sample_mem\<lparr>con := c\<rparr>"
  shows "literals mod_literals (mod_kernel t)"
proof -
  note b = mod_bytes_def c_lit_def bytes_of_def
  have "user_string (0x80000 + of_nat 0) (mod_kernel t) = bytes_of ''f1.txt'' @ [0]"
    "user_string (0x80000 + of_nat 7) (mod_kernel t) = bytes_of ''f2.txt'' @ [0]"
    by (rule mod_string(2) [OF assms, where n = 6]; simp add: b)+
  moreover have "user_block 5 (0x80000 + of_nat 14) (mod_kernel t) = bytes_of ''hello''"
    "user_block 5 (0x80000 + of_nat 20) (mod_kernel t) = bytes_of ''nihao''"
    "user_block 7 (0x80000 + of_nat 26) (mod_kernel t) = bytes_of ('' world'' @ [nl])"
    by (rule mod_string(1) [OF assms]; simp add: b)+
  ultimately show ?thesis by (simp add: literals_def mod_literals_def)
qed

definition sample_layout :: layout where
  "sample_layout = \<lparr>at_gdt = 0x1000, at_tss = 0x2000, at_interrupt_stack = 0x3000, at_idt = 0x6000, at_handler = (\<lambda>_. 0x7000)\<rparr>"

section \<open>A module with two segments\<close>

definition run_image :: "u8 list" where
  "run_image =
    [0x7F, 0x45, 0x4C, 0x46, 2, 1, 1, 0, 0, 0, 0, 0, 0, 0, 0, 0, 2, 0, 0x3E, 0, 1, 0, 0, 0,
     0, 0, 0x40, 0, 0, 0, 0, 0, 64, 0, 0, 0, 0, 0, 0, 0, 0, 0, 0, 0, 0, 0, 0, 0, 0, 0, 0, 0, 64, 0, 56, 0, 2, 0, 0, 0, 0, 0, 0, 0,
     1, 0, 0, 0, 5, 0, 0, 0, 176, 0, 0, 0, 0, 0, 0, 0, 0, 0, 0x40, 0, 0, 0, 0, 0, 0, 0, 0, 0, 0, 0, 0, 0,
     2, 0, 0, 0, 0, 0, 0, 0, 2, 0, 0, 0, 0, 0, 0, 0, 0, 16, 0, 0, 0, 0, 0, 0,
     1, 0, 0, 0, 6, 0, 0, 0, 178, 0, 0, 0, 0, 0, 0, 0, 16, 16, 0x40, 0, 0, 0, 0, 0, 0, 0, 0, 0, 0, 0, 0, 0,
     1, 0, 0, 0, 0, 0, 0, 0, 1, 0, 0, 0, 0, 0, 0, 0, 0, 16, 0, 0, 0, 0, 0, 0,
     0x90, 0xC3, 42]"

definition run_headers :: "program_header list" where
  "run_headers = [\<lparr>p_type = 1, p_flags = 5, p_offset = 176, p_vaddr = 0x400000, p_memsz = 2\<rparr>,
     \<lparr>p_type = 1, p_flags = 6, p_offset = 178, p_vaddr = 0x401010, p_memsz = 1\<rparr>]"

lemma run_image_headers:
  "read_elf_header run_image = Inr \<lparr>e_entry = 0x400000, e_phoff = 64, e_phnum = 2\<rparr>"
  "\<forall>i < length run_headers. read_program_header run_image (64 + 56 * of_nat i) = Inr (run_headers ! i)"
  "length run_image = 179"
proof -
  show "read_elf_header run_image = Inr \<lparr>e_entry = 0x400000, e_phoff = 64, e_phnum = 2\<rparr>"
    "length run_image = 179" by (code_simp)+
  have "read_program_header run_image 64 = Inr (run_headers ! 0)" "read_program_header run_image 120 = Inr (run_headers ! 1)"
    by (code_simp)+
  then show "\<forall>i < length run_headers. read_program_header run_image (64 + 56 * of_nat i) = Inr (run_headers ! i)"
    by (simp add: run_headers_def less_Suc_eq numeral_2_eq_2 All_less_Suc2)
qed

definition run_module :: "string \<Rightarrow> boot_module" where
  "run_module name = \<lparr>mod_begin = 0x200000, mod_end = 0x2000B3, mod_string = c_lit name, mod_image = run_image\<rparr>"

text \<open>The name stands at the beginning of the region of the file blocks, which is mapped.\<close>

definition run_kernel :: kstate where
  "run_kernel = (sample_kernel [])\<lparr>kfs := sample_boot\<lparr>fds := (fds sample_boot)\<lparr>vm := boot_mem sample_term\<rparr>\<rparr>,
     kram := (\<lambda>p. (c_lit ''hello'' @ replicate 4096 0) ! unat p), boot_hdr := [Modules_Tag [run_module ''init'', run_module ''hello'']]\<rparr>"

lemma run_name: "user_string START_ADDR run_kernel = bytes_of ''hello'' @ [0]"
proof -
  have load: "user_load (START_ADDR + of_nat j) run_kernel = Inr ((c_lit ''hello'' @ replicate 4096 0) ! j)" if "j < 4096" for j
  proof -
    have small: "unat (START_ADDR AND 0xFFF) + j < 4096" using that by simp
    have "leaf_entry (boot_mem sample_term) (START_ADDR AND NOT 0xFFF) (cr3_root (boot_mem sample_term)) = Some 7"
      using boot_path [of START_ADDR sample_term] region_index [of 0] by (simp add: leaf_entry_def del: table_path.simps)
    from frame_of_page [OF this present_7 small] show ?thesis
      using that by (simp add: user_load_def run_kernel_def pte_target_def pte_address_def unat_of_nat_small)
  qed
  from user_string_backed [of 5 START_ADDR run_kernel, OF load] show ?thesis
    by (simp add: c_lit_def bytes_of_def nth_Cons' upt_conv_Cons)
qed

text \<open>What running its modules needs.\<close>

lemma run_loads: "filter loads run_headers = run_headers" by (simp add: run_headers_def loads_def)

lemma run_pages: "page_no 0x400000 = 0x400" "page_no 0x401000 = 0x401" "page_no 0x402000 = 0x402"
  "seg_pages run_headers = {0x400, 0x401}"
proof -
  show no: "page_no 0x400000 = 0x400" "page_no 0x401000 = 0x401" "page_no 0x402000 = 0x402"
    by (simp_all add: page_no_def bits_from_def drop_bit_eq_div take_bit_eq_mod)
  show "seg_pages run_headers = {0x400, 0x401}" unfolding run_loads by (simp add: run_headers_def no)
qed

lemma run_apart: "seg_pages run_headers \<inter> stack_nos = {}"
proof -
  have "0x70000000 \<le> unat n" if "n \<in> stack_nos" for n
    using that unfolding stack_list by (auto simp: page_no_def bits_from_def drop_bit_eq_div take_bit_eq_mod)
  from this [of "0x400"] this [of "0x401"] show ?thesis unfolding run_pages(4) by auto
qed

lemma run_kernel_ok:
  "tree_ok (kvm run_kernel)" "mem_inv (kvm run_kernel)" "\<forall>p \<in> mem_avail (kvm run_kernel). phys p" "term_ok (kcon run_kernel)"
  "find_tag (boot_hdr run_kernel) MODULES_ID = Some (Modules_Tag [run_module ''init'', run_module ''hello''])"
  "\<forall>m \<in> set [run_module ''init'', run_module ''hello'']. terminated (mod_string m)"
  "boot_pages \<subseteq> mem_avail (kvm run_kernel) \<union> set (lower_tables (kvm run_kernel))"
proof -
  have vm: "kvm run_kernel = boot_mem sample_term" by (simp add: run_kernel_def)
  show "tree_ok (kvm run_kernel)" "mem_inv (kvm run_kernel)" unfolding vm by (rule boot_tree boot_avail(3))+
  show "\<forall>p \<in> mem_avail (kvm run_kernel). phys p" unfolding vm boot_avail(2) using boot_pages(3) by blast
  show "term_ok (kcon run_kernel)" unfolding vm by simp
  show "find_tag (boot_hdr run_kernel) MODULES_ID = Some (Modules_Tag [run_module ''init'', run_module ''hello''])"
    by (simp add: run_kernel_def)
  show "\<forall>m \<in> set [run_module ''init'', run_module ''hello'']. terminated (mod_string m)"
    by (simp add: run_module_def c_lit_def)
  show "boot_pages \<subseteq> mem_avail (kvm run_kernel) \<union> set (lower_tables (kvm run_kernel))"
    unfolding vm boot_avail(2) by blast
qed

lemma run_module_ok:
  "read_elf_header (mod_image (run_module n)) = Inr \<lparr>e_entry = 0x400000, e_phoff = 64, e_phnum = 2\<rparr>"
  "\<forall>i < length run_headers. read_program_header (mod_image (run_module n)) (64 + 56 * of_nat i) = Inr (run_headers ! i)"
  "\<forall>ph \<in> set (filter loads run_headers). seg_ok lower_half (mod_image (run_module n)) ph"
  "distinct (map (\<lambda>ph. page_no (seg_page ph)) (filter loads run_headers))"
  "24 + 3 * length (filter loads run_headers) \<le> card boot_pages" "3 * length (filter loads run_headers) \<le> card boot_pages" "length run_headers = 2"
proof -
  show "read_elf_header (mod_image (run_module n)) = Inr \<lparr>e_entry = 0x400000, e_phoff = 64, e_phnum = 2\<rparr>"
    "\<forall>i < length run_headers. read_program_header (mod_image (run_module n)) (64 + 56 * of_nat i) = Inr (run_headers ! i)"
    using run_image_headers by (simp_all add: run_module_def)
  show "\<forall>ph \<in> set (filter loads run_headers). seg_ok lower_half (mod_image (run_module n)) ph" unfolding run_loads
    by (simp add: run_headers_def seg_ok_def run_module_def run_image_headers)
  show "distinct (map (\<lambda>ph. page_no (seg_page ph)) (filter loads run_headers))" unfolding run_loads
    by (simp add: run_headers_def run_pages)
  show "24 + 3 * length (filter loads run_headers) \<le> card boot_pages" "3 * length (filter loads run_headers) \<le> card boot_pages" "length run_headers = 2"
    unfolding run_loads by (simp_all add: run_headers_def boot_pages)
qed

lemma run_placed:
  "fold (place (mod_image (run_module n))) (filter loads run_headers) r 0 = 0x90"
  "fold (place (mod_image (run_module n))) (filter loads run_headers) r 0x10 = 42"
proof -
  have "run_image ! 176 = 0x90" "run_image ! 177 = 0xC3" "run_image ! 178 = 42" by (code_simp)+
  then show "fold (place (mod_image (run_module n))) (filter loads run_headers) r 0 = 0x90"
    "fold (place (mod_image (run_module n))) (filter loads run_headers) r 0x10 = 42"
    unfolding run_loads by (simp_all add: run_headers_def place_def upt_conv_Cons run_module_def)
qed
section \<open>A kernel whose memory is in order\<close>

lemma boot_pool: "pool (boot_mem c) = insert 0x5000 boot_pages"
  by (simp add: pool_def boot_tables boot_avail)

lemma boot_nonzero: "\<forall>p \<in> pool (boot_mem c). p + hhdm_addr (boot_mem c) \<noteq> 0"
proof
  fix p assume p: "p \<in> pool (boot_mem c)"
  have "unat p < 2 ^ 40"
  proof (cases "p = 0x5000")
    case False
    then obtain k where "k < 64" "p = 0x100000 + of_nat k * 4096" using p unfolding boot_pool boot_pages_def by blast
    then show ?thesis using boot_page [of k] by simp
  qed simp
  then have "p \<noteq> - direct_map" by auto
  moreover have "hhdm_addr (boot_mem c) = direct_map" by (simp add: boot_mem_def)
  ultimately show "p + hhdm_addr (boot_mem c) \<noteq> 0" by (metis eq_neg_iff_add_eq_0)
qed

lemma run_modules_low: "modules_low [run_module ''init'', run_module ''hello'']"
proof -
  have "segs_low (mod_image (run_module n)) 64 2" for n
    unfolding segs_low_def
  proof (intro allI impI)
    fix i ph assume i: "i < 2" "read_program_header (mod_image (run_module n)) (64 + 56 * of_nat i) = Inr ph" "loads ph"
    have len: "i < length run_headers" using i(1) run_module_ok(7) by simp
    then have "ph = run_headers ! i" using i(2) run_module_ok(2) [of n] by auto
    then have "ph \<in> set (filter loads run_headers)" using len i(3) by simp
    then have "seg_ok lower_half (mod_image (run_module n)) ph" using run_module_ok(3) [of n] by blast
    then show "seg_page ph \<in> lower_half" by (simp only: seg_ok_def)
  qed
  then show ?thesis using run_module_ok(1) by (auto simp: modules_low_def)
qed

lemma run_ready:
  "reclaimable (kvm (reset_memory run_kernel))" "pool (kvm (reset_memory run_kernel)) = insert 0x5000 boot_pages"
  "boot_hdr (reset_memory run_kernel) = boot_hdr run_kernel" "mem_start (reset_memory run_kernel) = MMAP_MEM_START"
proof -
  note tree = run_kernel_ok(1-3)
  have vm: "kvm run_kernel = boot_mem sample_term" by (simp add: run_kernel_def)
  note ready = unmap_pool [OF tree] and frees = unmap_lower_half_frees [OF tree]
  have "(kvm (reset_memory run_kernel))\<lparr>con := kcon run_kernel\<rparr> = kvm (reset_memory run_kernel)" using frees(7) by simp
  moreover have "blank_space lower_half ((kvm (reset_memory run_kernel))\<lparr>con := kcon run_kernel\<rparr>)"
    using frees(2) [OF run_kernel_ok(4)] by simp
  ultimately have "blank_space lower_half (kvm (reset_memory run_kernel))" by (simp only:)
  moreover show p: "pool (kvm (reset_memory run_kernel)) = insert 0x5000 boot_pages"
    using ready(1) unfolding vm boot_pool by (simp add: vm)
  ultimately show "reclaimable (kvm (reset_memory run_kernel))"
    using ready(4) boot_nonzero [of sample_term] unfolding reclaimable_def p boot_pool vm by (simp add: vm)
  show "boot_hdr (reset_memory run_kernel) = boot_hdr run_kernel" "mem_start (reset_memory run_kernel) = MMAP_MEM_START" by simp_all
qed


end
