(* ===== verification/Spec2Isabelle.thy ===== *)
theory Spec2Isabelle
  imports Samples
begin

text \<open>
  A verification of a small teaching kernel for x86-64 with its user library, shell and tests.
  Every C file under \<^verbatim>\<open>src/\<close> is modelled, function by function, under the names of the source; this
  header says which theory holds which file, how the parts meet, what the lemmas show and what is
  left out.

  \<^bold>\<open>Parts.\<close> The boot loader hands over a list of tags. \<open>_start\<close> installs the segment and
  interrupt tables, opens the keyboard's interrupt line, builds the free list of physical pages
  from the memory map, clears the lower half of the address space, clears the screen, mounts the
  file system, maps a user stack, loads the program \<open>init\<close> and leaves for user mode. From there
  user programs enter through system calls: reading the keyboard, writing to the terminal,
  mapping memory, running a module, and the file calls. The file system keeps its blocks in a
  fixed region of memory and its open files in a linked list of nodes, one page each, which it
  maps through the page tables; every message goes through \<open>kprintf\<close> to the text terminal.

  \<^bold>\<open>Conventions\<close> (\<open>Prelude\<close>). Fallible code returns \<open>fault + 'a\<close>: a page fault, an access past
  the end of an object (\<open>Overrun\<close>), signed overflow, a missing variadic argument, the halt
  instruction, or \<open>No_Return\<close> for a call that never returns. State is passed explicitly.
  Machine integers are words of their width; an \<open>int\<close> is an \<open>int\<close> with its overflow checked.
  A loop whose end the data decide and that may never end is a \<open>partial_function\<close> to an
  option, \<open>None\<close> for a run without end, so that every result below says that the code returns; the
  other loops are structural or have a termination proof. The only counters of steps are the
  number of iterations of the shell and the list of keys still to come, both arguments.

  \<^bold>\<open>Theories.\<close>
  \<^item> \<open>CString\<close>: \<^verbatim>\<open>stdlib/string.c\<close> and the two routines \<open>memset\<close> and \<open>memcpy\<close> of \<^verbatim>\<open>stdlib/mem.c\<close>;
    buffers are byte lists.
  \<^item> \<open>Ports\<close>: \<^verbatim>\<open>kernel/port.h\<close>, \<^verbatim>\<open>kernel/pic.c\<close>; writes are logged, reads come from the state.
  \<^item> \<open>Terminal\<close>, \<open>Kprint\<close>: \<^verbatim>\<open>kernel/terminal.c\<close> against a screen of rows, \<^verbatim>\<open>kernel/kprint.c\<close>
    against the bytes a format stands for.
  \<^item> \<open>Physmem\<close>, \<open>Paging\<close>, \<open>Spaces\<close>, \<open>Mappings\<close>, \<open>Unmapping\<close>: \<^verbatim>\<open>kernel/memory.c\<close> and \<open>find_tag\<close> of \<^verbatim>\<open>kernel/boot.c\<close>;
    \<open>cells\<close> is the memory of the direct map in 64-bit words, which holds the free list and the
    tables. \<open>Paging\<close> has the operations and what a walk does, \<open>Spaces\<close> the invariant of an
    address space, \<open>Mappings\<close> what a run of mappings does, \<open>Unmapping\<close> what clearing the lower
    half frees and keeps, \<open>Reclaim\<close> that a lower half in order is a tree that can be cleared.
  \<^item> \<open>Fd\<close>, \<open>Blocks\<close>, \<open>Chains\<close>, \<open>Fs\<close>, \<open>FsOps\<close>, \<open>FsNames\<close>, \<open>FileModel\<close>: \<^verbatim>\<open>kernel/fd.c\<close> and \<^verbatim>\<open>kernel/fs.c\<close>;
    \<open>Fs\<close> has the operations, the next two what each does on every branch, and \<open>FileModel\<close> the
    abstract file system (names, bytes, open descriptors, a count of free blocks) with the
    simulation.
  \<^item> \<open>Keyboard\<close>, \<open>Interrupts\<close>, \<open>Descriptors\<close>, \<open>Syscall\<close>: \<^verbatim>\<open>kernel/interrupts.c\<close> and \<^verbatim>\<open>kernel/gdt.c\<close>; \<open>Interrupts\<close> is the
    step relation of \<open>kgetc\<close> and the keyboard handler, \<open>Syscall\<close> has the dispatcher on the state of the whole kernel, \<open>SysRead\<close>, \<open>SysMap\<close> and \<open>SysFiles\<close> what the
    calls promise, \<open>SysFiles\<close> also the wrappers of \<^verbatim>\<open>stdlib/fs.c\<close>, and \<open>Upkeep\<close> what every call keeps of
    the memory, whatever its number and arguments.
  \<^item> \<open>Loader\<close>: \<^verbatim>\<open>kernel/modules.c\<close>; \<open>Running\<close>: \<open>SYS_exec\<close> and \<open>SYS_exit\<close> up to the jump; \<open>Userlib\<close>: \<^verbatim>\<open>stdlib/io.c\<close>; \<open>Userheap\<close>: the allocator of
    \<^verbatim>\<open>stdlib/mem.c\<close>; \<open>Shell\<close>: \<^verbatim>\<open>init/init.c\<close> and \<^verbatim>\<open>hello_world\<close>; \<open>Boot\<close>: the rest of \<^verbatim>\<open>kernel/boot.c\<close>;
    \<open>Programs\<close>: \<^verbatim>\<open>test_mod/test_mod.c\<close> and \<^verbatim>\<open>kernel/testing.c\<close>.
  \<^item> \<open>Samples\<close>: the concrete states of the witnesses.

  \<^bold>\<open>Interfaces.\<close> The locales, each interpreted on the model: a console that accepts bytes
  (\<open>Terminal\<close>), an allocator of pages (\<open>Physmem\<close>), a table of descriptors (\<open>Fd\<close>), a bounded queue
  of bytes (\<open>Keyboard\<close>), a function that maps one page (\<open>Mappings\<close>, for \<open>SYS_mmap\<close>, the stack of
  \<open>SYS_exit\<close> and that of \<open>_start\<close>), and a program whose steps print and follow a model (\<open>transcript\<close>
  in \<open>Boot\<close>, for the demonstration in the kernel and for the user program of \<open>Programs\<close>).

  \<^bold>\<open>Invariants.\<close> \<open>term_ok\<close>: the cursor lies on the screen. \<open>fl_inv\<close>, \<open>vm_inv\<close>: the chunks of the free
  list are disjoint, aligned and hold their own nodes, no table in use is free or occurs at two
  levels, and each table serves one part of the address space, so that mapping a page makes the
  addresses of that page present (\<open>page_no\<close> counts pages within 48 bits) and no others. \<open>blank_space\<close>: \<open>vm_inv\<close> with no frame address in any last-level entry, which is how the
  kernel starts and, because \<open>vm_map\<close> assigns none, how the user's half of the address space stays;
  nor has an entry above the last level the large-page bit.
  \<open>reclaimable\<close>: \<open>blank_space\<close> for the lower half, and no page of the \<open>pool\<close>, the free pages and the
  tables of the lower half, lies at virtual address 0. Every system call keeps it and the pool
  (\<open>upkeep\<close>; \<open>lives\<close> for any run of calls and stores), so that each program finds the memory that the
  first one had.
  \<open>fs_ok\<close>: the files' chains and the free list are disjoint and end, sizes fit chains, names
  are terminated, descriptors name files. \<open>kbd_ok\<close>: the write index is the read index plus the
  count. \<open>heap_ok\<close>: the current region lies below the unused addresses. Each operation keeps its own
  on every branch the code gets right; where it does not, the property says what happens.

  \<^bold>\<open>Bounds.\<close> The block region is 129 pages of 4128 slots in all, one block per page on the free list,
  124 bytes per block, 256 entries; hence no file is longer than 511872 bytes, and the 64-bit sums of
  the code do not wrap. The digits of a 64-bit value fit 20 bytes. \<open>SYS_mmap\<close> counts pages and
  bytes in an \<open>int\<close>: lengths up to 0x7FFFF000 bytes. Three free pages are enough for one \<open>vm_map\<close>.

  \<^bold>\<open>Assumptions.\<close> Objects of different kinds do not overlap: table words and free-list nodes
  (\<open>cells\<close>), file blocks, descriptor nodes, and the memory behind user pages (\<open>kram\<close>, \<open>ram\<close>, by
  physical address) are separate parts of the state, although the code places the block region in
  memory that the allocator also hands out. The boot loader's tables hold no large pages. A page that is present may be
  read and written by the kernel. Outside \<open>Interrupts\<close>, a handler runs while \<open>kgetc\<close> waits, not
  within its last three statements. \<open>syscall\<close>, in assembly, passes its arguments in the registers of the calling
  convention; an argument that the caller does not pass is a parameter. The addresses the linker
  chooses are parameters. The mask registers of the interrupt controllers read back as written.

  \<^bold>\<open>Not modelled.\<close> The assembly stubs; the instructions of a loaded program after its entry (\<open>Call\<close> and
  \<open>Usermode\<close> are results, and for \<open>lives\<close> a program is any sequence of stores and calls); the boot loader's header structures in \<^verbatim>\<open>kernel/boot.c\<close> and most of
  \<^verbatim>\<open>kernel/stivale2.h\<close>, which are declarations of data the kernel does not read. \<open>vm_unmap\<close> is a stub in
  the source. That \<open>unmap_lower_half\<close> reads entries of tables it is about to free is in the model;
  what it does to a lower half that is not a tree is not shown.

  \<^bold>\<open>Limits.\<close> Loading is described exactly for segments that each lie in a page of their own, and
  for a segment that reaches into a second page as a fault; \<open>Upkeep\<close> covers any other image as far
  as its pages lie in the lower half. A mapping in the upper half after the start (the page of a
  new descriptor that is not yet mapped) takes tables that no later call gives back, and is outside
  \<open>call_low\<close>.
\<close>

section \<open>The file system\<close>







text \<open>C4 A write inside or at the end of an open file, for which the free blocks suffice,
  succeeds: the file's bytes are the old ones with the buffer written over them from the index
  on, every other file keeps its bytes, and the invariant is kept.\<close>

theorem write_at_updates_file:
  assumes "fs_ok L ch fl t s" and "t fd = Some k"
    and "unat index \<le> length (content ch s k)" and "unat sz \<le> length buff"
    and "(unat index + unat sz + 123) div 124 \<le> n_blocks (length (content ch s k)) + length fl"
  shows "\<exists>s' ch' fl'. fs_write_at fd index buff sz s = Inr (True, s') \<and> fs_ok L ch' fl' t s'
     \<and> content ch' s' k = take (unat index) (content ch s k) @ take (unat sz) buff
                           @ drop (unat index + unat sz) (content ch s k)
     \<and> (\<forall>i\<in>L. i \<noteq> k \<longrightarrow> content ch' s' i = content ch s i)"
proof -
  have k: "length (content ch s k) = unat (file_size (entries s ! k))"
    using content_length [OF assms(1) open_entry [OF assms(1,2)]] .
  have "splice_at xs i (take (unat sz) buff) = take i xs @ take (unat sz) buff @ drop (i + unat sz) xs"
    for xs i using assms(4) by (simp add: splice_at_def)
  then show ?thesis using fs_write_at_writes [OF assms(1,2), of index sz buff] assms(3-5) unfolding k Let_def by metis
qed

theorem write_at_updates_file_witness:
  "\<exists>s' ch'. fs_write_at 1 130 (replicate 200 67) 200 sample_fs = Inr (True, s')
     \<and> content ch' s' 1 = replicate 124 65 @ replicate 6 66 @ replicate 200 67"
  using write_at_updates_file [OF sample_fs_ok, of 1 1 130 200 "replicate 200 67"]
  by (simp add: sample_content n_blocks_def) blast

text \<open>C5 A write through a descriptor that is not open, or past the end of the file, fails and
  changes nothing.\<close>

theorem write_at_rejects:
  assumes "fs_ok L ch fl t s" and "case t fd of None \<Rightarrow> True | Some k \<Rightarrow> length (content ch s k) < unat index"
  shows "fs_write_at fd index buff sz s = Inr (False, s)"
  using assms fs_write_at_closed fs_write_at_gap content_length [OF assms(1) open_entry [OF assms(1)]]
  by (cases "t fd") auto

theorem write_at_rejects_witness:
  "fs_write_at 0 3 [1, 2] 2 sample_fs = Inr (False, sample_fs)
   \<and> fs_write_at 7 0 [1, 2] 2 sample_fs = Inr (False, sample_fs)"
  using write_at_rejects [OF sample_fs_ok, of 3 0 "[1, 2]" 2] write_at_rejects [OF sample_fs_ok, of 0 7 "[1, 2]" 2]
  by (simp add: sample_content)

text \<open>C6 A write that needs more blocks than are free reports failure, and if slot 0, the last
  block of the list that mounting builds, was still free, the same write never returns when it
  is tried again: the failed call has linked slot 0 to itself.\<close>

theorem failed_write_makes_chain_circular:
  assumes "fs_ok L ch fl t s" and "t fd = Some k" and "fl \<noteq> []" and "last fl = 0"
    and "unat index \<le> unat (file_size (entries s ! k))" and "unat index + unat sz < 2 ^ 31"
    and "n_blocks (unat (file_size (entries s ! k))) + length fl < (unat index + unat sz + 123) div 124"
  shows "\<exists>s'. fs_write_at fd index buff sz s = Inr (False, s') \<and> fs_write_at fd index buff sz s' = Inl No_Return"
  using assms by (rule fs_write_at_full_hangs)

theorem failed_write_makes_chain_circular_witness:
  "\<exists>s'. fs_write_at 0 0 (replicate 373 65) 373 sample_fs = Inr (False, s')
     \<and> fs_write_at 0 0 (replicate 373 65) 373 s' = Inl No_Return"
  using failed_write_makes_chain_circular [OF sample_fs_ok, of 0 0 0 373 "replicate 373 65"]
  by (simp add: sample_entry_def n_blocks_def)

text \<open>Appending to an open file, when the free blocks suffice, adds the buffer at its end.\<close>

theorem append_extends_file:
  assumes "fs_ok L ch fl t s" and "t fd = Some k" and "unat sz \<le> length buff"
    and "(length (content ch s k) + unat sz + 123) div 124 \<le> n_blocks (length (content ch s k)) + length fl"
  shows "\<exists>s' ch' fl'. fs_append fd buff sz s = Inr (True, s') \<and> fs_ok L ch' fl' t s'
     \<and> content ch' s' k = content ch s k @ take (unat sz) buff
     \<and> (\<forall>i\<in>L. i \<noteq> k \<longrightarrow> content ch' s' i = content ch s i)"
proof -
  let ?z = "file_size (entries s ! k)"
  have k: "length (content ch s k) = unat ?z" using content_length [OF assms(1) open_entry [OF assms(1,2)]] .
  have "splice_at (content ch s k) (unat ?z) ys = content ch s k @ ys" for ys
    using k by (simp add: splice_at_def)
  then show ?thesis
    using fs_write_at_writes [OF assms(1,2) order_refl assms(3)] assms(2,4) fs_append_eq [OF assms(1)]
    unfolding k Let_def by (metis option.case(2))
qed

theorem append_extends_file_witness:
  "\<exists>s' ch'. fs_append 0 [33, 34] 1 sample_fs = Inr (True, s') \<and> content ch' s' 0 = [104, 105, 33]"
  using append_extends_file [OF sample_fs_ok, of 0 0 1 "[33, 34]"]
  by (simp add: sample_content n_blocks_def) blast

text \<open>C7 Reading an open file prints its bytes, each once and in order, and changes nothing but
  the terminal.\<close>

theorem read_prints_file:
  assumes "fs_ok L ch fl t s" and "t fd = Some k"
  shows "\<exists>c. puts term_putchar (content ch s k) (con (vm (fds s))) = Inr c
    \<and> fs_read fd s = Inr (s\<lparr>fds := (fds s)\<lparr>vm := (vm (fds s))\<lparr>con := c\<rparr>\<rparr>\<rparr>)"
  using fs_read_prints [OF assms] unfolding printed_def by blast

theorem read_prints_file_witness:
  "\<exists>c. puts term_putchar (replicate 124 65 @ replicate 6 66) sample_term = Inr c
    \<and> fs_read 1 sample_fs = Inr (sample_fs\<lparr>fds := sample_fds\<lparr>vm := sample_mem\<lparr>con := c\<rparr>\<rparr>\<rparr>)"
  using read_prints_file [OF sample_fs_ok, of 1 1] by (simp add: sample_content)

text \<open>C8 Opening a name that a live entry has gives a new descriptor for the first such entry
  and leaves the files alone.\<close>

theorem open_existing_file:
  assumes "fs_ok L ch fl t s" and "terminated name" and "next_entry s < MAX_FILE_SIZE"
    and "lookup s (cstr name) = Some i" and "i \<in> L" and "fd_ready (fds s)"
  shows "\<exists>fd s'. fs_open name s = Inr (fd, s') \<and> t fd = None \<and> fs_ok L ch fl (t(fd \<mapsto> i)) s'
    \<and> entries s' = entries s \<and> blk_mem s' = blk_mem s"
  using fs_open_existing [OF assms] by fastforce

theorem open_existing_file_witness:
  "\<exists>fd s'. fs_open [98, 0] sample_fs = Inr (fd, s') \<and> fs_ok {0, 1} sample_chain [0] (sample_table(fd \<mapsto> 1)) s'"
  using open_existing_file [OF sample_fs_ok, of "[98, 0]" 1] sample_lookup sample_fd_ready by auto

text \<open>C9 Opening a name that no entry has, with a free block and a free entry, creates an empty
  file of that name behind a new descriptor; the other files keep their bytes.\<close>

theorem open_creates_file:
  assumes "fs_ok L ch (f # fl) t s" and "terminated name" and "length (cstr name) < MAX_FILENAME"
    and "lookup s (cstr name) = None" and "next_entry s < MAX_FILE_SIZE" and "fd_ready (fds s)"
  shows "\<exists>fd s' ch'. fs_open name s = Inr (fd, s') \<and> t fd = None
    \<and> fs_ok (insert (next_entry s) L) ch' fl (t(fd \<mapsto> next_entry s)) s'
    \<and> cstr (fe_name (entries s' ! next_entry s)) = cstr name \<and> content ch' s' (next_entry s) = []
    \<and> (\<forall>i \<in> L. content ch' s' i = content ch s i \<and> entries s' ! i = entries s ! i)"
proof -
  obtain nm d c where o: "fs_open name s = Inr (next_fd (fds s), opened nm f d s)" "cstr nm = cstr name"
    "length nm = MAX_FILENAME" "terminated nm" "fd_holds d (t(next_fd (fds s) \<mapsto> next_entry s))"
    "t (next_fd (fds s)) = None" "vm d = (vm (fds s))\<lparr>con := c\<rparr>" "term_ok c"
    using fs_open_new [OF assms] by blast
  have "term_ok (con (vm d))" using o(7,8) by simp
  note post = opened_ok [OF assms(1,5) o(3-6) this]
  have "next_entry s \<notin> L" "next_entry s < length (entries s)"
    using fs_okD(1,3) [OF assms(1)] assms(5) by (auto simp: handles_ok_def names_ok_def)
  then have "cstr (fe_name (entries (opened nm f d s) ! next_entry s)) = cstr name"
    "\<forall>i \<in> L. entries (opened nm f d s) ! i = entries s ! i"
    using o(2) by (auto simp: opened_def nth_list_update)
  then show ?thesis using o(1,6) post by blast
qed

theorem open_creates_file_witness:
  "\<exists>fd s' ch'. fs_open [120, 0] sample_fs = Inr (fd, s') \<and> fs_ok (insert 2 {0, 1}) ch' [] (sample_table(fd \<mapsto> 2)) s'"
  using open_creates_file [OF sample_fs_ok, of "[120, 0]"] sample_lookup sample_fd_ready by auto

text \<open>Opening fails with -1 and changes nothing when all 256 entries have been used, even for
  a name that exists, and when the name is new and no block is free.\<close>

theorem open_refuses:
  assumes "fs_ok L ch fl t s" and "terminated name"
    and "MAX_FILE_SIZE \<le> next_entry s \<or> (lookup s (cstr name) = None \<and> fl = [])"
  shows "fs_open name s = Inr (-1, s)"
  using assms fs_open_full fs_open_no_block by auto

theorem open_refuses_witness:
  "fs_open [120, 0] (sample_fs\<lparr>free_list := 0\<rparr>) = Inr (-1, sample_fs\<lparr>free_list := 0\<rparr>)"
proof -
  have "lookup (sample_fs\<lparr>free_list := 0\<rparr>) [120] = None" using sample_lookup(3) by (simp add: lookup_def)
  then show ?thesis using open_refuses [OF sample_full, of "[120, 0]"] by simp
qed

text \<open>C10 A name of 32 bytes or more overruns the name field, both when a file is created and when
  one is renamed.\<close>

theorem long_name_overruns:
  assumes "fs_ok L ch (f # fl) t s" and "terminated name" and "MAX_FILENAME \<le> length (cstr name)"
    and "lookup s (cstr name) = None" and "next_entry s < MAX_FILE_SIZE"
    and "terminated old" and "lookup s (cstr old) = Some i"
  shows "fs_open name s = Inl Overrun \<and> fs_rename old name s = Inl Overrun"
  using assms fs_open_long_name fs_rename_long_name by blast

theorem long_name_overruns_witness:
  "fs_open (replicate 40 120 @ [0]) sample_fs = Inl Overrun \<and> fs_rename [97, 0] (replicate 40 120 @ [0]) sample_fs = Inl Overrun"
proof -
  have c: "cstr (replicate 40 120 @ [0]) = replicate 40 120" by (intro cstr_of_literal) simp
  have "[0..<2] = [0, Suc 0]" by (simp add: upt_rec)
  then have "lookup sample_fs (replicate 40 120) = None"
    by (simp add: lookup_def sample_entry_def cstr_zeros numeral_eq_Suc)
  then show ?thesis
    using long_name_overruns [OF sample_fs_ok, of "replicate 40 120 @ [0]" "[97, 0]" 0] c sample_lookup(1) by simp
qed

text \<open>C11 Renaming a file gives the first entry of the old name the new name, if that fits, and
  changes no file's bytes; with no entry of the old name it fails and changes nothing.\<close>

theorem rename_changes_name:
  assumes "fs_ok L ch fl t s" and "terminated old" and "terminated new" and "length (cstr new) < MAX_FILENAME"
    and "cstr old \<noteq> []"
  shows "case lookup s (cstr old) of None \<Rightarrow> fs_rename old new s = Inr (False, s)
    | Some i \<Rightarrow> \<exists>s'. fs_rename old new s = Inr (True, s') \<and> fs_ok L ch fl t s'
        \<and> cstr (fe_name (entries s' ! i)) = cstr new
        \<and> (\<forall>j. j \<noteq> i \<longrightarrow> entries s' ! j = entries s ! j) \<and> (\<forall>j. content ch s' j = content ch s j)"
proof (cases "lookup s (cstr old)")
  case (Some i)
  have i: "i \<in> L" using lookup_live [OF assms(1) Some assms(5)] .
  obtain nm where r: "fs_rename old new s = Inr (True, set_entry i ((entries s ! i)\<lparr>fe_name := nm\<rparr>) s)"
    "cstr nm = cstr new" "fs_ok L ch fl t (set_entry i ((entries s ! i)\<lparr>fe_name := nm\<rparr>) s)"
    "\<forall>j. content ch (set_entry i ((entries s ! i)\<lparr>fe_name := nm\<rparr>) s) j = content ch s j"
    using fs_rename_found [OF assms(1,2) Some i assms(3,4)] unfolding Let_def by blast
  then show ?thesis using Some live_entry(1) [OF assms(1) i]
    by (intro option.case_eq_if [THEN iffD2]) (auto simp: set_entry_def)
qed (use fs_rename_absent [OF assms(1,2)] in simp)

theorem rename_changes_name_witness:
  "\<exists>s'. fs_rename [98, 0] [99, 0] sample_fs = Inr (True, s') \<and> cstr (fe_name (entries s' ! 1)) = [99]"
  using rename_changes_name [OF sample_fs_ok, of "[98, 0]" "[99, 0]"] sample_lookup(2) by auto

text \<open>C12 Deleting a file of at most 124 bytes through its only descriptor empties the entry and
  closes the descriptor; the other files keep their bytes. The free list is the same as before:
  the file's block is not returned to it.\<close>

theorem delete_short_file:
  assumes "fs_ok L ch fl t s" and "t fd = Some k" and "length (content ch s k) \<le> 124"
    and "\<And>g. t g = Some k \<Longrightarrow> g = fd"
  shows "\<exists>s'. fs_delete fd s = Inr s' \<and> fs_ok (L - {k}) ch fl (t(fd := None)) s'
    \<and> cstr (fe_name (entries s' ! k)) = [] \<and> free_list s' = free_list s
    \<and> (\<forall>i \<in> L - {k}. content ch s' i = content ch s i)"
proof -
  have k: "k \<in> L" using open_entry [OF assms(1,2)] .
  have "unat (file_size (entries s ! k)) \<le> 124" using assms(3) content_length [OF assms(1) k] by simp
  from fs_delete_single [OF assms(1,2) this assms(4)] obtain nm d where d: "fs_delete fd s = Inr (deleted k nm d s)"
    "cstr nm = []" "fs_ok (L - {k}) ch fl (t(fd := None)) (deleted k nm d s)"
    "\<forall>i \<in> L - {k}. content ch (deleted k nm d s) i = content ch s i" by blast
  moreover have "cstr (fe_name (entries (deleted k nm d s) ! k)) = []" "free_list (deleted k nm d s) = free_list s"
    using d(2) live_entry(1) [OF assms(1) k] by (simp_all add: deleted_def)
  ultimately show ?thesis by blast
qed

theorem delete_short_file_witness:
  "\<exists>s'. fs_delete 0 sample_fs = Inr s' \<and> fs_ok ({0, 1} - {0}) sample_chain [0] (sample_table(0 := None)) s'"
proof -
  have only: "g = 0" if "sample_table g = Some 0" for g
    using that by (simp add: sample_table_def split: if_splits)
  have "length (content sample_chain sample_fs 0) \<le> 124" by (simp add: sample_content)
  then show ?thesis using delete_short_file [OF sample_fs_ok sample_table_simps(1) _ only] by blast
qed

text \<open>C13 Deleting a longer file while a block is free is a page fault: the loop reads the next
  index from the block it has just overwritten with the free-list pointer.\<close>

theorem delete_long_file_faults:
  assumes "fs_ok L ch (f # fl) t s" and "t fd = Some k" and "124 < length (content ch s k)"
  shows "\<exists>p. fs_delete fd s = Inl (Page_Fault p)"
  using fs_delete_long_faults [OF assms(1,2)] assms(3) content_length [OF assms(1) open_entry [OF assms(1,2)]] by simp

theorem delete_long_file_faults_witness: "\<exists>p. fs_delete 1 sample_fs = Inl (Page_Fault p)"
  using delete_long_file_faults [OF sample_fs_ok, of 1 1] by (simp add: sample_content)

text \<open>Mounting, on a region of mapped pages, builds a free list of the first slot of each of
  the 129 pages, and the mounted system represents the empty model.\<close>

theorem mount_is_empty_model:
  assumes "init_state s" and "region_present (vm (fds s))" and "next_fd (fds s) = 0" and "fds_backed s"
  shows "\<exists>s'. fs_init s = Inr s' \<and> fm_rel fm_empty s' \<and> fds_backed s'"
  using assms by (rule fs_init_rel)

theorem mount_is_empty_model_witness: "\<exists>s'. fs_init sample_boot = Inr s' \<and> fm_rel fm_empty s'"
  using mount_is_empty_model [OF sample_boot_init] by blast

section \<open>Open files\<close>

text \<open>C14 The list of descriptor nodes is a finite map from descriptors to entries: creating a
  descriptor binds a fresh one, looking one up reads the map, and removing one unbinds it, each
  without touching the others.\<close>

theorem descriptor_table_is_map:
  assumes "fd_holds s t"
  shows "(fd_ready s \<longrightarrow> (\<exists>fd s'. create_fd e s = Inr (fd, s') \<and> t fd = None \<and> fd_holds s' (t(fd \<mapsto> e))))
    \<and> find_fd g s = Inr (t g) \<and> (\<exists>s'. remove_fd g s = Inr s' \<and> fd_holds s' (t(g := None)))"
  using fdt.create_law [OF assms] fdt.find_law [OF assms] fdt.remove_law [OF assms] by blast

theorem descriptor_table_is_map_witness:
  "(\<exists>fd s'. create_fd 5 sample_fds = Inr (fd, s') \<and> fd_holds s' (sample_table(fd \<mapsto> 5)))
     \<and> find_fd 0 sample_fds = Inr (sample_table 0) \<and> (\<exists>s'. remove_fd 0 sample_fds = Inr s' \<and> fd_holds s' (sample_table(0 := None)))"
  using descriptor_table_is_map [OF sample_fds_holds, of 5 0] sample_fd_ready by blast

text \<open>A new descriptor was not open before, is found with its entry afterwards, and every
  other descriptor is found as before.\<close>

theorem create_fd_found:
  assumes "fd_holds s t" and "fd_ready s"
  shows "\<exists>fd s'. create_fd e s = Inr (fd, s') \<and> t fd = None \<and> find_fd fd s' = Inr (Some e)
    \<and> (\<forall>g. g \<noteq> fd \<longrightarrow> find_fd g s' = find_fd g s)"
  using assms by (rule fdt.created_found)

theorem create_fd_found_witness:
  "\<exists>fd s'. create_fd 5 sample_fds = Inr (fd, s') \<and> find_fd fd s' = Inr (Some 5)"
  using create_fd_found [OF sample_fds_holds sample_fd_ready] by blast

text \<open>A removed descriptor is not found, and every other descriptor is found as before.\<close>

theorem remove_fd_not_found:
  assumes "fd_holds s t"
  shows "\<exists>s'. remove_fd fd s = Inr s' \<and> find_fd fd s' = Inr None \<and> (\<forall>g. g \<noteq> fd \<longrightarrow> find_fd g s' = find_fd g s)"
  using assms by (rule fdt.removed_not_found)

theorem remove_fd_not_found_witness:
  "\<exists>s'. remove_fd 0 sample_fds = Inr s' \<and> find_fd 0 s' = Inr None \<and> find_fd 1 s' = find_fd 1 sample_fds"
proof -
  obtain s' where "remove_fd 0 sample_fds = Inr s'" "find_fd 0 s' = Inr None"
    "\<forall>g. g \<noteq> 0 \<longrightarrow> find_fd g s' = find_fd g sample_fds"
    using remove_fd_not_found [OF sample_fds_holds] by blast
  then show ?thesis by simp
qed

section \<open>Virtual memory\<close>

text \<open>C15 Mapping a page always returns and keeps the invariant of physical and virtual memory: the
  free list in order, page tables page-aligned, not free, one level apart and each serving one
  part of the address space. No page but the one asked for changes from absent to present or
  back.\<close>

theorem vm_map_keeps_invariant:
  assumes "vm_inv A s" and "a \<in> A"
  shows "\<exists>rc s'. vm_map (cr3_root s) a user writable executable s = Inr (rc, s') \<and> vm_inv A s'
    \<and> (\<forall>b \<in> A. page_present s' b \<longleftrightarrow> page_present s b \<or> rc \<and> page_no b = page_no a)"
  using assms by (rule vm_map_keeps_inv)

theorem vm_map_keeps_invariant_witness:
  "\<exists>rc s'. vm_map (cr3_root sample_ram) 0x400000 True True False sample_ram = Inr (rc, s') \<and> vm_inv {0x400000} s'"
proof -
  have "vm_inv {0x400000} sample_ram" by (rule fresh_vm_inv)
  from vm_map_keeps_invariant [OF this, of "0x400000"] show ?thesis by blast
qed

text \<open>C16 What mapping a page does to it. If it succeeds, the page's last-level entry is present
  with the flags asked for, and its frame is the one the entry had before, or frame 0 where a
  table was missing. If it fails, the entry was present before and no table has changed, or the
  physical pages have run out.\<close>

theorem vm_map_sets_entry:
  assumes "vm_inv_with A s xs lev" and "a \<in> A"
  shows "\<exists>rc s' ys. vm_map (cr3_root s) a user writable executable s = Inr (rc, s')
    \<and> (if rc then \<exists>e. leaf_entry s' a (cr3_root s) = Some e \<and> pte_present e \<and> pte_user e = user
          \<and> pte_writable e = writable \<and> pte_no_execute e = (\<not> executable)
          \<and> pte_target e = (case leaf_entry s a (cr3_root s) of None \<Rightarrow> 0 | Some e0 \<Rightarrow> pte_target e0)
       else (\<exists>e0. leaf_entry s a (cr3_root s) = Some e0 \<and> pte_present e0 \<and> cells s' = cells s)
         \<or> (fl_inv s' ys \<and> free_pages s' ys = {} \<and> leaf_entry s a (cr3_root s) = None))"
proof -
  obtain rc s' ys where r: "vm_map (cr3_root s) a user writable executable s = Inr (rc, s')"
    and post: "map_post s xs (cr3_root s) a user writable executable rc s' ys"
    using vm_map_post [OF vm_inv_walk_ok [OF assms]] by blast
  show ?thesis using r post unfolding map_post_def by (intro exI [of _ rc] exI [of _ s'] exI [of _ ys]) auto
qed

theorem vm_map_sets_entry_witness:
  "\<exists>rc s' ys. vm_map (cr3_root sample_ram) 0x400000 True True False sample_ram = Inr (rc, s')
    \<and> (rc \<longrightarrow> (\<exists>e. leaf_entry s' 0x400000 (cr3_root sample_ram) = Some e \<and> pte_present e \<and> pte_no_execute e))"
proof -
  obtain rc s' ys where r: "vm_map (cr3_root sample_ram) 0x400000 True True False sample_ram = Inr (rc, s')"
    and e: "rc \<Longrightarrow> \<exists>e. leaf_entry s' 0x400000 (cr3_root sample_ram) = Some e \<and> pte_present e \<and> pte_no_execute e"
    using vm_map_sets_entry [OF sample_vm_inv [of "{0x400000}"], of "0x400000" True True False] by (auto split: if_splits)
  then show ?thesis by blast
qed

text \<open>C17 Changing the protection of a page writes no page-table entry: whatever is asked for, the
  memory, and so every mapping, is as before.\<close>

theorem vm_protect_changes_nothing:
  "case vm_protect root address user writable executable s of (rc, s') \<Rightarrow>
     cells s' = cells s \<and> freelist s' = freelist s
     \<and> leaf_entry s' b root' = leaf_entry s b root'
     \<and> (rc \<longleftrightarrow> (\<exists>e. leaf_entry s address root = Some e \<and> pte_present e))"
proof -
  have walk: "vm_protect_walk shs address t s = table_path s shs address t" for shs t
    by (induction shs arbitrary: t) (simp_all add: Let_def)
  have tlb: "leaf_entry (invalidate_tlb address s) b root' = leaf_entry s b root'"
  proof -
    have "table_path (invalidate_tlb address s) shs b t = table_path s shs b t" for shs t
      by (rule leaf_entry_cells) (simp_all add: invalidate_tlb_def)
    then show ?thesis by (simp add: leaf_entry_def entry_at_page comp_def del: table_path.simps)
        (simp add: invalidate_tlb_def)
  qed
  show ?thesis
    using tlb unfolding vm_protect_def vm_protect_copy_def walk leaf_entry_def
    by (cases "table_path s [39, 30, 21] address root")
      (simp_all add: Let_def invalidate_tlb_def del: table_path.simps)
qed

text \<open>C18 Clearing the lower half of an address space whose lower half is a tree of tables puts
  exactly the pages of those tables on the free list, leaves no page of the lower half mapped and
  the upper half as it was, writes no page but the root and the freed ones, and establishes the
  invariant of memory for the lower half, in which no last-level entry names a frame.\<close>

theorem unmap_releases_tables:
  assumes "tree_ok s" and "mem_inv s" and "\<forall>p \<in> mem_avail s. phys p" and "term_ok (con s)"
  defines "s' \<equiv> unmap_lower_half (cr3_root s) s"
  shows "mem_avail s' = mem_avail s \<union> set (lower_tables s) \<and> blank_space lower_half s'
    \<and> (\<forall>a \<in> lower_half. \<not> page_present s' a) \<and> (\<forall>a. apart s a \<longrightarrow> page_present s' a = page_present s a)
    \<and> (\<forall>q. aligned q \<and> q \<noteq> cr3_root s \<and> q \<notin> set (lower_tables s) \<longrightarrow> same_page s s' q)"
proof -
  note frees = unmap_lower_half_frees [OF assms(1-3), folded s'_def]
  have "s'\<lparr>con := con s\<rparr> = s'" using frees(7) by simp
  then have "blank_space lower_half s'" using frees(2) [OF assms(4)] by simp
  then show ?thesis using frees(1,3,4) unmap_keeps_apart [OF assms(1,2), folded s'_def] by blast
qed

theorem unmap_releases_tables_witness:
  "mem_avail (unmap_lower_half 0x1000 (boot_mem sample_term)) = insert 0x5000 boot_pages
     \<and> \<not> page_present (unmap_lower_half 0x1000 (boot_mem sample_term)) 0x400000"
proof -
  have "\<forall>p \<in> mem_avail (boot_mem sample_term). phys p" unfolding boot_avail using boot_pages(3) by blast
  from unmap_releases_tables [OF boot_tree boot_avail(3) this] show ?thesis
    by (simp add: boot_tables boot_avail)
qed

section \<open>Physical memory\<close>

text \<open>C19 The free list built from the memory map holds exactly the pages of the usable entries,
  each once.\<close>

theorem freelist_init_pages:
  assumes "find_tag hdr MEMMAP_ID = Some (Memmap_Tag memmap)" and "find_tag hdr HHDM_ID = Some (Hhdm_Tag h)"
    and "memmap_ok h memmap" and "freelist s = 0"
  shows "\<exists>s' xs. freelist_init hdr s = Inr s' \<and> fl_inv s' xs
    \<and> free_pages s' xs = \<Union> (entry_pages ` set (usable memmap))"
proof -
  let ?s = "s\<lparr>hhdm_addr := h\<rparr>"
  have "fl_inv ?s []" "free_pages ?s [] = {}" using assms(3,4) by (simp_all add: fl_inv_def free_pages_def memmap_ok_def)
  then obtain ys where "fl_inv (freelist_add memmap ?s) ys"
    "free_pages (freelist_add memmap ?s) ys = \<Union> (entry_pages ` set (usable memmap))"
    using freelist_add_inv [of ?s "[]" memmap] assms(3) by auto
  then show ?thesis using assms(1,2) by (auto simp: freelist_init_def)
qed

definition sample_map :: "mmap_entry list" where
  "sample_map = [\<lparr>mm_base = 0x1000, mm_length = 0x3000, mm_type = 1\<rparr>,
                 \<lparr>mm_base = 0x8000, mm_length = 0x8000, mm_type = 2\<rparr>]"

theorem freelist_init_pages_witness:
  "\<exists>s' xs. freelist_init [Hhdm_Tag 0xffff800000000000, Memmap_Tag sample_map] sample_mem = Inr s'
     \<and> fl_inv s' xs \<and> free_pages s' xs = chunk_pages 0x1000 0x3000"
proof -
  have u: "usable sample_map = [\<lparr>mm_base = 0x1000, mm_length = 0x3000, mm_type = 1\<rparr>]"
    by (simp add: usable_def sample_map_def)
  then have "memmap_ok 0xffff800000000000 sample_map"
    by (simp add: memmap_ok_def aligned_def fits_def)
  then show ?thesis
    using freelist_init_pages [of "[Hhdm_Tag 0xffff800000000000, Memmap_Tag sample_map]" sample_map "0xffff800000000000" sample_mem]
    by (simp add: u entry_pages_def sample_mem_def)
qed

text \<open>C20 Allocating \<open>n\<close> pages gives pairwise distinct free pages, as many as asked for or as
  there are; the pages left are the others.\<close>

theorem allocated_pages_distinct:
  assumes "mem_inv s" and "finite (mem_avail s)"
  shows "\<exists>ps s'. pages.alloc_n n s = Inr (ps, s') \<and> distinct ps \<and> set ps \<subseteq> mem_avail s
     \<and> mem_avail s' = mem_avail s - set ps \<and> mem_inv s' \<and> length ps = min n (card (mem_avail s))"
  using assms by (rule pages.alloc_n_distinct)

theorem allocated_pages_distinct_witness:
  "\<exists>ps s'. pages.alloc_n 3 sample_ram = Inr (ps, s') \<and> distinct ps \<and> length ps = 3"
proof -
  have inv: "mem_inv sample_ram" unfolding mem_inv_def using sample_fl_inv by blast
  have av: "mem_avail sample_ram = {0x100000, 0x101000, 0x102000, 0x103000, 0x104000, 0x105000, 0x106000, 0x107000}"
    using mem_avail_eq [OF sample_fl_inv] sample_free by simp
  have "finite (mem_avail sample_ram)" "card (mem_avail sample_ram) = 8" unfolding av by simp_all
  then show ?thesis using allocated_pages_distinct [OF inv, of 3] by auto
qed

text \<open>An allocation takes a free page off the list, or returns -1 and changes nothing when there
  is none; a page that is freed afterwards is free again.\<close>

theorem alloc_then_free:
  assumes "fl_inv s (x # xs)"
  shows "\<exists>p s' ys. pmem_alloc s = Inr (p, s') \<and> p \<in> free_pages s (x # xs) \<and> fl_inv s' ys
    \<and> free_pages s' ys = free_pages s (x # xs) - {p}
    \<and> (p + hhdm_addr s' \<noteq> 0 \<longrightarrow> (\<exists>zs. fl_inv (pmem_free p s') zs \<and> free_pages (pmem_free p s') zs = free_pages s (x # xs)))"
proof -
  obtain p s' ys where p: "pmem_alloc s = Inr (p, s')" "fl_inv s' ys"
      "free_pages s' ys = free_pages s (x # xs) - {p}" "p \<in> free_pages s (x # xs)"
    using pmem_alloc_cons [OF assms] by blast
  have "aligned p" using free_pages_aligned [OF assms p(4)] .
  then have "p + hhdm_addr s' \<noteq> 0 \<Longrightarrow> \<exists>zs. fl_inv (pmem_free p s') zs \<and> free_pages (pmem_free p s') zs = free_pages s (x # xs)"
    using pmem_free_inv [OF p(2), of p] p(3,4) by (metis Diff_iff insertI1 insert_Diff)
  then show ?thesis using p by blast
qed

theorem alloc_then_free_witness:
  "\<exists>p s' ys. pmem_alloc sample_ram = Inr (p, s') \<and> fl_inv s' ys
    \<and> free_pages s' ys = free_pages sample_ram [sample_node] - {p}"
  using alloc_then_free [OF sample_fl_inv] by blast

section \<open>Output\<close>

text \<open>C21 \<open>kprintf\<close> prints what its format stands for: it fails when the format or an argument is
  missing something, and otherwise puts exactly the bytes of the specification on the terminal.\<close>

theorem kprintf_prints_format:
  assumes "term_ok s"
  shows "kprintf fmt args s = bindE (kfmt fmt args) (\<lambda>out. puts term_putchar out s)"
  using assms by (rule kprintf_prints)

theorem kprintf_prints_format_witness:
  "kprintf (c_lit ''fd %d at %p'') [Word_Arg 42, Word_Arg 0x1f] sample_term
     = puts term_putchar (bytes_of ''fd 42 at 0x1f'') sample_term"
proof -
  have "kfmt (c_lit ''fd %d at %p'') [Word_Arg 42, Word_Arg 0x1f] = Inr (bytes_of ''fd 42 at 0x1f'')"
    by (simp add: c_lit_def bytes_of_def directive_out_def render_def digits.simps digit_char_def)
  then show ?thesis using kprintf_prints_format [OF sample_term_ok] by simp
qed

text \<open>C22 The digits that \<open>kprint_d\<close> and \<open>kprint_x\<close> print are those of the value: most significant
  first, without a leading zero except for 0, at most 20 of them, and read back they give the value.\<close>

theorem numbers_print_their_digits:
  "kprint_d v = puts term_putchar (map digit_char (digits 10 (unat v)))
   \<and> kprint_x v = puts term_putchar (map digit_char (digits 16 (unat v)))
   \<and> foldl (\<lambda>a d. a * 10 + d) 0 (digits 10 (unat v)) = unat v
   \<and> foldl (\<lambda>a d. a * 16 + d) 0 (digits 16 (unat v)) = unat v
   \<and> (v = 0 \<or> hd (digits 10 (unat v)) \<noteq> 0 \<and> hd (digits 16 (unat v)) \<noteq> 0)
   \<and> length (digits 10 (unat v)) \<le> 20 \<and> length (digits 16 (unat v)) \<le> 16"
proof -
  have "length (render 10 v) \<le> 20" "length (render 16 v) \<le> 16" by (rule render_length; simp)+
  moreover have "v = 0 \<or> 0 < unat v" by (simp add: unat_gt_0)
  ultimately show ?thesis
    using kprint_d_puts [of v] kprint_x_puts [of v] digits_value [of 10 "unat v"] digits_value [of 16 "unat v"]
      digits_no_leading_zero [of 10 "unat v"] digits_no_leading_zero [of 16 "unat v"]
    by (auto simp: render_def)
qed

text \<open>C23 The terminal shows characters as a screen of 25 rows of 80 cells does: carriage return,
  backspace, newline with scrolling, and wrapping of a full row, for any sequence of bytes; no
  store leaves the screen memory.\<close>

theorem terminal_refines_screen:
  assumes "term_ok s"
  shows "\<exists>s'. puts term_putchar cs s = Inr s' \<and> term_ok s' \<and> screen_of s' = fold screen_put cs (screen_of s)"
proof -
  obtain s' where "puts term_putchar cs s = Inr s'" "term_ok s'" using console.puts_ok [OF assms] by blast
  then show ?thesis using puts_refines [OF assms] by blast
qed

theorem terminal_refines_screen_witness:
  "\<exists>s'. puts term_putchar [104, 10, 105] sample_term = Inr s' \<and> screen_of s' = fold screen_put [104, 10, 105] (screen_of sample_term)"
  using terminal_refines_screen [OF sample_term_ok] by blast

text \<open>Initialising the terminal leaves a blank screen with the cursor in the first cell.\<close>

theorem term_init_blank:
  assumes "length (term_buf s) = VGA_WIDTH * VGA_HEIGHT"
  shows "\<exists>s'. term_init p s = Inr s' \<and> term_ok s'
    \<and> screen_of s' = \<lparr>scr_rows = replicate 25 (replicate 80 blank), scr_col = 0, scr_row = 0\<rparr>"
proof -
  have rows: "map (row_of (replicate 2000 blank)) [0..<VGA_HEIGHT] = replicate 25 (replicate 80 blank)"
  proof (rule nth_equalityI)
    fix i assume "i < length (map (row_of (replicate 2000 blank)) [0..<VGA_HEIGHT])"
    then have "i < 25" by simp
    then show "map (row_of (replicate 2000 blank)) [0..<VGA_HEIGHT] ! i = replicate 25 (replicate 80 blank) ! i"
      by (simp add: row_of_def)
  qed simp
  show ?thesis using assms rows
    by (simp add: term_init_def term_clear_eq term_ok_def screen_of_def)
qed

theorem term_init_blank_witness: "\<exists>s'. term_init 0xb8000 sample_term = Inr s' \<and> term_ok s'"
  using term_init_blank [of sample_term "0xb8000"] by (auto simp: sample_term_def)

section \<open>Strings\<close>

text \<open>\<open>strcmp\<close> of two strings returns 0 exactly when they are equal; \<open>strcpy\<close> into a buffer
  with room copies the string and leaves the bytes after its end, and into any other overruns.\<close>

theorem string_copy_compare:
  assumes "terminated a" and "terminated b"
  shows "(strcmp a b = Inr 0 \<longleftrightarrow> cstr a = cstr b)
    \<and> strcpy b a = (if length (cstr a) < length b
        then Inr (cstr a @ 0 # drop (length (cstr a) + 1) b) else Inl Overrun)"
  using assms strcmp_zero_iff strcpy_fits strcpy_overruns [of b a] by (auto simp: not_less)

theorem string_copy_compare_witness:
  "strcmp [97, 98, 0] [97, 98, 0, 7] = Inr 0 \<and> strcpy [97, 98, 0, 7] [97, 98, 0] = Inr [97, 98, 0, 7]"
  using string_copy_compare [of "[97, 98, 0]" "[97, 98, 0, 7]"] by simp

text \<open>\<open>strlen\<close> returns one less than the length of the string.\<close>

theorem strlen_one_less:
  assumes "terminated b"
  shows "strlen b = Inr (int (length (cstr b)) - 1)"
  using strlen_loop_value [OF assms, of 0] by (simp add: strlen_def)

theorem strlen_one_less_witness: "strlen [97, 98, 0] = Inr 1"
  using strlen_one_less [of "[97, 98, 0]"] by simp
section \<open>The keyboard and reading a line\<close>

text \<open>A key press keeps the ring buffer's invariant: a shift key changes only the shift state,
  a release or an unknown key nothing, and any other key puts its character at the end of the
  queue, or is dropped when 1000 characters wait.\<close>

theorem keyboard_handler_queues:
  assumes "kbd_ok k" and "term_ok c" and "inb 0x60 (tports c) = code"
  shows "\<exists>c' k'. keyboard_handler (c, k) = Inr (c', k') \<and> kbd_ok k' \<and> term_ok c'
    \<and> shifts k' = fst (scan (shifts k) code)
    \<and> kbd_items k' = kbd_items k @ (case snd (scan (shifts k) code) of None \<Rightarrow> []
         | Some x \<Rightarrow> if length (kbd_items k) = IO_BUFFER_SIZE then [] else [x])"
  unfolding length_kbd_items by (rule keyboard_handler_ok [OF assms])

theorem keyboard_handler_queues_witness:
  "\<exists>c' k'. keyboard_handler (key_event 0x23 sample_term, empty_kbd) = Inr (c', k') \<and> kbd_items k' = [104]"
proof -
  have "term_ok (key_event 0x23 sample_term)" "inb 0x60 (tports (key_event 0x23 sample_term)) = 0x23" by simp_all
  from keyboard_handler_queues [OF empty_kbd_ok(1) this] show ?thesis
    by (auto simp: key_table_def bytes_of_def)
qed

text \<open>C24 \<open>kgetc\<close> statement by statement, with the keyboard handler running between any two of its
  statements, when the decrement of the count is one instruction: however keys and calls are
  interleaved, the characters returned are those that waited, then those typed, in order and each
  once; a typed character is missing only if the buffer was full when its key came.\<close>

theorem keyboard_interrupts_fifo:
  assumes "key_run False (Waiting, c, k) es (r, c', k')" and "kbd_ok k" and "term_ok c"
  shows "reader_ok r k' \<and> (\<exists>ys. subseq ys (typed (shifts k) (keys_of es))
    \<and> kbd_items k @ ys = got_of es @ pending r k'
    \<and> (length (kbd_items k) + length (keys_of es) \<le> IO_BUFFER_SIZE \<longrightarrow> ys = typed (shifts k) (keys_of es)))"
proof -
  have "reader_ok Waiting k" "pending Waiting k = kbd_items k" using assms(2) by (simp_all add: pending_def)
  then show ?thesis using key_run_fifo [OF assms(1) refl refl _ assms(3)] by auto
qed

theorem keyboard_interrupts_fifo_witness:
  "\<exists>es c' k'. key_run False (Waiting, sample_term, empty_kbd) es (Waiting, c', k')
     \<and> keys_of es = [0x1E] \<and> got_of es = [97] \<and> pending Waiting k' = []"
proof -
  have a: "scan (False, False) 0x1E = ((False, False), Some 97)" by (simp add: key_table_def bytes_of_def)
  obtain c1 k1 where h: "keyboard_handler (key_event 0x1E sample_term, empty_kbd) = Inr (c1, k1)" "kbd_ok k1" "kbd_items k1 = [97]"
    using keyboard_handler_ok [of empty_kbd "key_event 0x1E sample_term" "0x1E"] a by auto
  obtain k2 where "buffer_get k1 = Some (97, k2)" using buffer_get_ok [OF h(2)] h(3) by auto
  from key_run.run_step [OF key_step.press [OF h(1)] uninterrupted [OF h(2) this]]
  have run: "key_run False (Waiting, sample_term, empty_kbd) [Pressed 0x1E, Silent, Silent, Silent, Silent, Got 97] (Waiting, c1, k2)" .
  then have "pending Waiting k2 = []" using keyboard_interrupts_fifo [OF run empty_kbd_ok(1)] a by auto
  then show ?thesis using run by (intro exI conjI) auto
qed

text \<open>C25 When the decrement is a read, a subtraction and a write, a key that comes between the read
  and the write is lost from the count: the call returns its character, but the queue then counts
  one character fewer than have been typed and not been returned, although the write index has
  moved; a next \<open>kgetc\<close> waits for ever if no other character waited.\<close>

theorem key_lost_in_decrement:
  assumes "kbd_ok k" and "term_ok c" and "kbd_items k = x # xs" and "length (x # xs) < IO_BUFFER_SIZE"
    and "snd (scan (shifts k) code) = Some y"
  shows "\<exists>es c' k'. key_run True (Waiting, c, k) es (Waiting, c', k') \<and> keys_of es = [code] \<and> got_of es = [x]
    \<and> length (kbd_items k') = length xs \<and> write_val k' = (read_val k' + length (xs @ [y])) mod IO_BUFFER_SIZE
    \<and> (xs = [] \<longrightarrow> kgetc [] (c', k') = Inl No_Return)"
proof -
  obtain es c' k' where r: "key_run True (Waiting, c, k) es (Waiting, c', k')" "keys_of es = [code]" "got_of es = [x]"
    "length (kbd_items k') = length xs" "write_val k' = (read_val k' + length (xs @ [y])) mod IO_BUFFER_SIZE"
    using lost_update [OF assms] by blast
  have "kgetc [] (c', k') = Inl No_Return" if "xs = []"
    using r(4) that by (simp add: kgetc.simps buffer_get_def)
  then show ?thesis using r by blast
qed

theorem key_lost_in_decrement_witness:
  "\<exists>k es c' k'. kbd_items k = [97] \<and> key_run True (Waiting, sample_term, k) es (Waiting, c', k')
     \<and> keys_of es = [0x30] \<and> got_of es = [97] \<and> kgetc [] (c', k') = Inl No_Return"
proof -
  have keys: "scan (False, False) 0x1E = ((False, False), Some 97)" "scan (False, False) 0x30 = ((False, False), Some 98)"
    by (simp_all add: key_table_def bytes_of_def)
  obtain c1 k1 where h: "kbd_ok k1" "kbd_items k1 = [97]" "shifts k1 = (False, False)"
    using keyboard_handler_ok [of empty_kbd "key_event 0x1E sample_term" "0x1E"] keys by auto
  have "length [97 :: u8] < IO_BUFFER_SIZE" "snd (scan (shifts k1) 0x30) = Some 98" using h(3) keys by simp_all
  from key_lost_in_decrement [OF h(1) sample_term_ok h(2) this] h(2) show ?thesis by blast
qed

text \<open>C26 Reading \<open>n\<close> characters from the keyboard edits a line: it returns once the keys, with
  their backspaces, have made a line of \<open>n\<close> characters, the user's buffer then holds that line,
  the characters after it are still to be read and the screen is as before; with keys for a
  shorter line only, the call does not return.\<close>

theorem read_edits_line:
  assumes "k_ok s" and "backed n buffer f s"
  shows "case line_edit n [] (char_stream s) of
     None \<Rightarrow> SYS_read 0 buffer (int n) s = Inl No_Return
   | Some (line, rest) \<Rightarrow> \<exists>s'. SYS_read 0 buffer (int n) s = Inr (int n, s')
       \<and> k_ok s' \<and> char_stream s' = rest \<and> user_block n buffer s' = line
       \<and> screen_of (kcon s') = screen_of (kcon s)"
  using sys_read_edits [OF assms] unfolding after_read_def by (fastforce split: option.splits)

theorem read_edits_line_witness:
  "\<exists>s'. SYS_read 0 0x5000 2 (sample_kernel [0x23, 0x0E, 0x17, 0x23]) = Inr (2, s')
     \<and> user_block 2 0x5000 s' = [105, 104]"
proof -
  have "(2 :: nat) \<le> 4096" by simp
  from read_edits_line [OF sample_k_ok sample_user_page [OF this], of "[0x23, 0x0E, 0x17, 0x23]"]
  show ?thesis
    by (simp add: sample_stream key_table_def bytes_of_def line_edit.simps del: user_block.simps) blast
qed

section \<open>System calls of user programs\<close>

text \<open>C27 The user library's \<open>printf\<close>, which prints through system calls, does on every format and
  arguments exactly what the kernel's \<open>kprintf\<close> does, errors included.\<close>

theorem user_printf_same: "printf fmt args s = kprintf fmt args s"
  by (rule printf_same)



text \<open>C29 The user library's \<open>file_write_at\<close> writes nothing and returns false for every buffer above
  the largest possible file size, 511872: it does not pass the descriptor on, so that the
  address of the buffer is taken for the index.\<close>

theorem file_write_at_always_fails:
  assumes "fs_ok L ch fl t (kfs s)" and "511872 < unat buff"
  shows "file_write_at r8 fd index buff sz s = Inr (False, s)"
  using assms by (rule file_write_at_fails)

theorem file_write_at_always_fails_witness:
  "file_write_at 2 0 0 0x80000000000 2 (sample_kernel []) = Inr (False, sample_kernel [])"
proof -
  have "fs_ok {0, 1} sample_chain [0] sample_table (kfs (sample_kernel []))" using sample_fs_ok by simp
  then show ?thesis by (rule file_write_at_always_fails) simp
qed



section \<open>User memory\<close>

text \<open>C31 \<open>SYS_mmap\<close> of whole pages without an address returns the next unused address and moves
  it on by the length; each of the pages is mapped afterwards unless physical memory has run
  out, and what was mapped stays mapped.\<close>

theorem mmap_maps_pages:
  assumes "vm_inv A (kvm s)" and "unat len = 4096 * n" and "n < 0x7FFFF"
    and "\<And>i. i < n \<Longrightarrow> mem_start s + of_nat i * PAGESIZE \<in> A"
  shows "\<exists>m. SYS_mmap 0 len prot s = Inr (mem_start s, set_vm m (s\<lparr>mem_start := mem_start s + len\<rparr>)) \<and> vm_inv A m
    \<and> ((\<forall>i < n. page_present m (mem_start s + of_nat i * PAGESIZE)) \<or> mem_avail m = {})
    \<and> (\<forall>b \<in> A. page_present (kvm s) b \<longrightarrow> page_present m b)"
  using sys_mmap_maps [OF assms] by blast

theorem mmap_maps_pages_witness:
  "\<exists>m. SYS_mmap 0 0x2000 3 (fresh_kernel 0x400000)
     = Inr (0x400000, set_vm m ((fresh_kernel 0x400000)\<lparr>mem_start := 0x402000\<rparr>)) \<and> vm_inv UNIV m"
proof -
  have "vm_inv UNIV (kvm (fresh_kernel 0x400000))" by (simp add: fresh_vm_inv)
  from mmap_maps_pages [OF this, of "0x2000" 2 3] show ?thesis by auto
qed



text \<open>C33 In an address space as the kernel sets it up, whose last-level tables hold no address, all
  the pages that \<open>SYS_mmap\<close> maps are one: byte \<open>j\<close> of each of them is physical address \<open>j\<close>, so
  that what is stored in one page is read from every other; and the address space stays so.\<close>

theorem user_pages_alias:
  assumes "blank_space A (kvm s)" and "unat len = 4096 * n" and "n < 0x7FFFF"
    and "\<And>i. i < n \<Longrightarrow> mem_start s + of_nat i * PAGESIZE \<in> A" and "aligned (mem_start s)"
  shows "\<exists>s'. SYS_mmap 0 len prot s = Inr (mem_start s, s') \<and> blank_space A (kvm s')
    \<and> (mem_avail (kvm s') = {} \<or> (\<forall>i < n. \<forall>k < n. \<forall>j < 4096. \<forall>x.
         frame_of (kvm s') (mem_start s + of_nat i * PAGESIZE + of_nat j) = Some (of_nat j)
         \<and> (\<exists>t. user_store (mem_start s + of_nat i * PAGESIZE + of_nat j) x s' = Inr t
              \<and> user_load (mem_start s + of_nat k * PAGESIZE + of_nat j) t = Inr x)))"
  using sys_mmap_aliases [OF assms] same_frame_store_load by metis

theorem user_pages_alias_witness:
  "\<exists>s'. SYS_mmap 0 0x2000 3 (fresh_kernel 0x400000) = Inr (0x400000, s')
     \<and> (mem_avail (kvm s') = {} \<or> (\<exists>t. user_store 0x400005 65 s' = Inr t \<and> user_load 0x401005 t = Inr 65))"
proof -
  have "blank_space UNIV (kvm (fresh_kernel 0x400000))" by (simp add: fresh_blank)
  from user_pages_alias [OF this, of "0x2000" 2 3] obtain s' where s': "SYS_mmap 0 0x2000 3 (fresh_kernel 0x400000) = Inr (0x400000, s')"
    "mem_avail (kvm s') = {} \<or> (\<forall>i < 2. \<forall>k < 2. \<forall>j < 4096. \<forall>x.
       \<exists>t. user_store (0x400000 + of_nat i * PAGESIZE + of_nat j) x s' = Inr t
         \<and> user_load (0x400000 + of_nat k * PAGESIZE + of_nat j) t = Inr x)"
    by (auto simp: aligned_def)
  show ?thesis
  proof (cases "mem_avail (kvm s') = {}")
    case False
    then have "\<forall>i < 2. \<forall>k < 2. \<forall>j < 4096. \<forall>x.
       \<exists>t. user_store (0x400000 + of_nat i * PAGESIZE + of_nat j) x s' = Inr t
         \<and> user_load (0x400000 + of_nat k * PAGESIZE + of_nat j) t = Inr x" using s'(2) by blast
    from this [rule_format, of 0 1 5 65] show ?thesis using s'(1) by auto
  qed (use s'(1) in blast)
qed

text \<open>C34 \<open>malloc\<close>, over \<open>SYS_mmap\<close>: a run of requests, each below 2 GB and all of them below the
  limit of user space, returns one block per request, aligned to 16 bytes and at least as long
  as asked; the blocks are pairwise disjoint, mapped unless physical memory has run out, and
  every earlier mapping stays.\<close>

theorem malloc_blocks_disjoint:
  assumes "heap_ok lim hs" and "\<forall>sz \<in> set szs. block_size sz < 0x7FFFF000 - 0x1000"
    and "unat (mem_start (snd hs)) + pages_for szs \<le> lim"
  shows "\<exists>ps hs'. mallocs szs hs = Inr (ps, hs') \<and> length ps = length szs \<and> heap_ok lim hs'
     \<and> (\<forall>i < length szs. 16 dvd unat (ps ! i) \<and> unat (szs ! i) \<le> block_size (szs ! i)
          \<and> bytes_mapped (unat (ps ! i)) (block_size (szs ! i)) (kvm (snd hs')))
     \<and> (\<forall>i < length szs. \<forall>j < i. block (ps ! i) (szs ! i) \<inter> block (ps ! j) (szs ! j) = {})
     \<and> (\<forall>q n. q + n \<le> lim \<longrightarrow> bytes_mapped q n (kvm (snd hs)) \<longrightarrow> bytes_mapped q n (kvm (snd hs')))"
  using mallocs_disjoint [OF assms] up_props(1) [of 16] unfolding block_size_def by fastforce

theorem malloc_blocks_disjoint_witness:
  "\<exists>p q hs'. mallocs [16, 5000] (empty_heap, fresh_kernel 0x80000000000) = Inr ([p, q], hs')
     \<and> block q 5000 \<inter> block p 16 = {}"
proof -
  have "\<forall>sz \<in> set [16, 5000]. block_size sz < 0x7FFFF000 - 0x1000"
    and "unat (mem_start (snd (empty_heap, fresh_kernel 0x80000000000))) + pages_for [16, 5000] \<le> 0x800000000000"
    by (simp_all add: block_size_def up_def)
  from malloc_blocks_disjoint [OF sample_heap_ok this] obtain ps hs' where
    "mallocs [16, 5000] (empty_heap, fresh_kernel 0x80000000000) = Inr (ps, hs')" "length ps = 2"
    "\<forall>i < 2. \<forall>j < i. block (ps ! i) ([16, 5000] ! i) \<inter> block (ps ! j) ([16, 5000] ! j) = {}"
    by auto
  moreover from this(2) obtain p q where pq: "ps = [p, q]" by (auto simp: numeral_2_eq_2 length_Suc_conv)
  moreover from calculation(3) have "block q 5000 \<inter> block p 16 = {}"
    by (elim allE [of _ 1] impE allE [of _ 0]) (simp_all add: pq)
  ultimately show ?thesis by blast
qed

text \<open>C35 Loading a segment whose first page is not mapped yet, with three pages free: if it lies
  in that page, the page is mapped and the segment's bytes of the image stand at its virtual
  addresses, and no other byte of memory changes; if it reaches into the next page and that is
  not mapped either, it faults at that page's first byte.\<close>

theorem load_segment_copies:
  assumes "vm_inv A (lvm s)" and "p_vaddr ph AND NOT 0xFFF \<in> A" and "p_type ph = 1" and "p_memsz ph \<noteq> 0"
    and "unat (p_offset ph) + unat (p_memsz ph) \<le> length img"
    and "\<not> page_present (lvm s) (p_vaddr ph AND NOT 0xFFF)"
    and "P \<subseteq> mem_avail (lvm s)" and "finite P" and "3 \<le> card P"
  shows "if unat (p_vaddr ph AND 0xFFF) + unat (p_memsz ph) \<le> 4096
    then \<exists>m r f. load_segment img ph s = Inr (s\<lparr>lvm := m, ram := r\<rparr>) \<and> vm_inv A m
      \<and> (\<forall>j < unat (p_memsz ph). frame_of m (p_vaddr ph + of_nat j) = Some (f + of_nat j)
           \<and> r (f + of_nat j) = img ! (unat (p_offset ph) + j))
      \<and> (\<forall>b. (\<forall>j < unat (p_memsz ph). b \<noteq> f + of_nat j) \<longrightarrow> r b = ram s b)
    else (p_vaddr ph AND NOT 0xFFF) + 0x1000 \<in> A \<longrightarrow> \<not> page_present (lvm s) ((p_vaddr ph AND NOT 0xFFF) + 0x1000) \<longrightarrow>
      load_segment img ph s = Inl (Page_Fault ((p_vaddr ph AND NOT 0xFFF) + 0x1000))"
proof (cases "unat (p_vaddr ph AND 0xFFF) + unat (p_memsz ph) \<le> 4096")
  case True
  show ?thesis unfolding if_P [OF True] using load_segment_page [OF assms(1-4) True assms(5-)] by blast
next
  case False
  then have long: "4096 < unat (p_vaddr ph AND 0xFFF) + unat (p_memsz ph)" by linarith
  show ?thesis unfolding if_not_P [OF False]
    using load_segment_faults [OF assms(1,2) _ assms(3,4) long assms(5,6) _ assms(7-)] by blast
qed

theorem load_segment_copies_witness:
  "\<exists>m r f. load_segment [1, 2, 3, 4] \<lparr>p_type = 1, p_flags = 5, p_offset = 1, p_vaddr = 0x400010, p_memsz = 3\<rparr>
       \<lparr>lvm = sample_ram, ram = (\<lambda>_. 0)\<rparr> = Inr \<lparr>lvm = m, ram = r\<rparr>
     \<and> frame_of m (0x400010 + 2) = Some (f + 2) \<and> r (f + 2) = 4"
proof -
  let ?ph = "\<lparr>p_type = 1, p_flags = 5, p_offset = 1, p_vaddr = 0x400010, p_memsz = 3\<rparr>"
  let ?s = "\<lparr>lvm = sample_ram, ram = (\<lambda>_. 0 :: u8)\<rparr>" and ?img = "[1, 2, 3, 4 :: u8]"
  have "vm_inv UNIV (lvm ?s)" "\<not> page_present (lvm ?s) (p_vaddr ?ph AND NOT 0xFFF)"
    using fresh_vm_inv fresh_absent by simp_all
  moreover have "{0x100000, 0x101000, 0x102000} \<subseteq> mem_avail (lvm ?s)" by (simp add: fresh_avail)
  ultimately obtain m r f where
    "load_segment ?img ?ph ?s = Inr (?s\<lparr>lvm := m, ram := r\<rparr>)"
    "\<forall>j < 3. frame_of m (0x400010 + of_nat j) = Some (f + of_nat j) \<and> r (f + of_nat j) = ?img ! (1 + j)"
    using load_segment_copies [of UNIV ?s ?ph ?img "{0x100000, 0x101000, 0x102000}"] by auto
  moreover from this(2) [rule_format, of 2] have "frame_of m (0x400010 + 2) = Some (f + 2)" "r (f + 2) = 4" by simp_all
  ultimately show ?thesis by auto
qed

text \<open>C36 Running a program by the name of a module: the old program's half of the address space is
  cleared and its tables freed; exactly the pages of the program's segments become present, the
  heap address starts again, nothing is printed, and the entry point is called. Every page is
  physical page 0: a segment's bytes go to their offset in that page, one segment after the
  other, so that a later segment overwrites an earlier one whose offsets it shares.\<close>

theorem exec_loads_module:
  assumes "tree_ok (kvm s)" and "mem_inv (kvm s)" and "\<forall>p \<in> mem_avail (kvm s). phys p" and "term_ok (kcon s)"
    and "user_string module s = name @ [0]" and "0 \<notin> set name" and "length name < 100"
    and "find_tag (boot_hdr s) MODULES_ID = Some (Modules_Tag ms)" and "\<forall>m \<in> set ms. terminated (mod_string m)"
    and "find (\<lambda>m. cstr (mod_string m) = name) ms = Some md"
    and "read_elf_header (mod_image md) = Inr eh" and "length phs = e_phnum eh"
    and "\<forall>i < length phs. read_program_header (mod_image md) (e_phoff eh + 56 * of_nat i) = Inr (phs ! i)"
    and "\<forall>ph \<in> set (filter loads phs). seg_ok lower_half (mod_image md) ph"
    and "distinct (map (\<lambda>ph. page_no (seg_page ph)) (filter loads phs))"
    and "P \<subseteq> mem_avail (kvm s) \<union> set (lower_tables (kvm s))" and "finite P" and "3 * length (filter loads phs) \<le> card P"
  shows "\<exists>s'. SYS_exec module s = Inr (Call (e_entry eh), s') \<and> mem_start s' = MMAP_MEM_START
    \<and> blank_space lower_half (kvm s') \<and> (\<forall>b \<in> lower_half. page_present (kvm s') b \<longleftrightarrow> page_no b \<in> seg_pages phs)
    \<and> kram s' = fold (place (mod_image md)) (filter loads phs) (kram s) \<and> kcon s' = kcon s"
  using assms by (rule exec_loads)

theorem exec_loads_module_witness:
  "\<exists>s'. SYS_exec START_ADDR run_kernel = Inr (Call 0x400000, s') \<and> page_present (kvm s') 0x400000
    \<and> page_present (kvm s') 0x401000 \<and> \<not> page_present (kvm s') 0x402000
    \<and> kram run_kernel 0 = 0x68 \<and> kram s' 0 = 0x90 \<and> kram s' 0x10 = 42"
proof -
  have name: "0 \<notin> set (bytes_of ''hello'')" "length (bytes_of ''hello'') < 100"
    "find (\<lambda>m. cstr (mod_string m) = bytes_of ''hello'') [run_module ''init'', run_module ''hello''] = Some (run_module ''hello'')"
    by (simp_all add: run_module_def c_lit_def bytes_of_def)
  have len: "length run_headers = e_phnum \<lparr>e_entry = 0x400000, e_phoff = 64, e_phnum = 2\<rparr>" by (simp add: run_module_ok)
  have hd: "\<forall>i < length run_headers. read_program_header (mod_image (run_module ''hello''))
      (e_phoff \<lparr>e_entry = 0x400000, e_phoff = 64, e_phnum = 2\<rparr> + 56 * of_nat i) = Inr (run_headers ! i)"
    using run_module_ok(2) by simp
  from exec_loads_module [OF run_kernel_ok(1-4) run_name name(1,2) run_kernel_ok(5,6) name(3) run_module_ok(1) len hd
      run_module_ok(3,4) run_kernel_ok(7) boot_pages(1) run_module_ok(6)]
  obtain s' where s': "SYS_exec START_ADDR run_kernel = Inr (Call 0x400000, s')"
    "\<forall>b \<in> lower_half. page_present (kvm s') b \<longleftrightarrow> page_no b \<in> seg_pages run_headers"
    "kram s' = fold (place (mod_image (run_module ''hello''))) (filter loads run_headers) (kram run_kernel)" by auto
  have "kram run_kernel 0 = 0x68" by (simp add: run_kernel_def c_lit_def bytes_of_def)
  moreover have "kram s' 0 = 0x90" "kram s' 0x10 = 42" unfolding s'(3) by (rule run_placed)+
  ultimately show ?thesis using s'(1,2) run_pages by (intro exI [of _ s']) simp
qed

text \<open>C37 When a program exits, its half of the address space is cleared and its tables freed, the
  module \<open>init\<close> is loaded again, the user stack is mapped, and user mode is entered at the entry
  point of \<open>init\<close> with the stack pointer below the top of the stack; exactly the pages of \<open>init\<close> and
  of the stack are then present.\<close>

theorem exit_restarts_init:
  assumes "tree_ok (kvm s)" and "mem_inv (kvm s)" and "\<forall>p \<in> mem_avail (kvm s). phys p" and "term_ok (kcon s)"
    and "find_tag (boot_hdr s) MODULES_ID = Some (Modules_Tag ms)" and "\<forall>m \<in> set ms. terminated (mod_string m)"
    and "find (\<lambda>m. cstr (mod_string m) = bytes_of ''init'') ms = Some md"
    and "read_elf_header (mod_image md) = Inr eh" and "length phs = e_phnum eh"
    and "\<forall>i < length phs. read_program_header (mod_image md) (e_phoff eh + 56 * of_nat i) = Inr (phs ! i)"
    and "\<forall>ph \<in> set (filter loads phs). seg_ok lower_half (mod_image md) ph"
    and "distinct (map (\<lambda>ph. page_no (seg_page ph)) (filter loads phs))"
    and "P \<subseteq> mem_avail (kvm s) \<union> set (lower_tables (kvm s))" and "finite P" and "24 + 3 * length (filter loads phs) \<le> card P"
    and "seg_pages phs \<inter> stack_nos = {}"
  shows "\<exists>s'. SYS_exit s = Inr (Usermode (USER_DATA_SELECTOR OR 3) (USER_STACK + 8 * 0x1000 - 8) (USER_CODE_SELECTOR OR 3) (e_entry eh), s')
    \<and> mem_start s' = MMAP_MEM_START \<and> blank_space lower_half (kvm s')
    \<and> (\<forall>b \<in> lower_half. page_present (kvm s') b \<longleftrightarrow> page_no b \<in> seg_pages phs \<union> stack_nos)
    \<and> kram s' = fold (place (mod_image md)) (filter loads phs) (kram s) \<and> kcon s' = kcon s"
  using assms by (rule exit_loads)

theorem exit_restarts_init_witness:
  "\<exists>s'. SYS_exit run_kernel = Inr (Usermode 0x43 0x70000007FF8 0x3B 0x400000, s')
    \<and> page_present (kvm s') 0x400000 \<and> kram s' 0x10 = 42"
proof -
  have name: "find (\<lambda>m. cstr (mod_string m) = bytes_of ''init'') [run_module ''init'', run_module ''hello''] = Some (run_module ''init'')"
    by (simp add: run_module_def c_lit_def bytes_of_def)
  have len: "length run_headers = e_phnum \<lparr>e_entry = 0x400000, e_phoff = 64, e_phnum = 2\<rparr>" by (simp add: run_module_ok)
  have hd: "\<forall>i < length run_headers. read_program_header (mod_image (run_module ''init''))
      (e_phoff \<lparr>e_entry = 0x400000, e_phoff = 64, e_phnum = 2\<rparr> + 56 * of_nat i) = Inr (run_headers ! i)"
    using run_module_ok(2) by simp
  from exit_restarts_init [OF run_kernel_ok(1-6) name run_module_ok(1) len hd run_module_ok(3,4) run_kernel_ok(7) boot_pages(1) run_module_ok(5) run_apart]
  obtain s' where s': "SYS_exit run_kernel = Inr (Usermode (USER_DATA_SELECTOR OR 3) (USER_STACK + 8 * 0x1000 - 8) (USER_CODE_SELECTOR OR 3) 0x400000, s')"
    "\<forall>b \<in> lower_half. page_present (kvm s') b \<longleftrightarrow> page_no b \<in> seg_pages run_headers \<union> stack_nos"
    "kram s' = fold (place (mod_image (run_module ''init''))) (filter loads run_headers) (kram run_kernel)" by auto
  moreover have "kram s' 0x10 = 42" unfolding s'(3) by (rule run_placed)
  ultimately show ?thesis using run_pages by (intro exI [of _ s']) simp
qed



section \<open>The shell\<close>

text \<open>C38 The shell reads a line: a line of fewer than 256 characters is echoed and collected, its
  end ends it, and then the module of that name is run, by \<open>SYS_exec\<close> on the line in the
  buffer, or the complaint is printed and the next line starts.\<close>

theorem shell_reads_line:
  assumes "shell_ok buffer f [] s" and "length line < BUFFER_SIZE" and "10 \<notin> set line" and "0 \<notin> set line"
    and "prompt_stream s = line @ 10 # rest" and "unat buffer + BUFFER_SIZE \<le> 2 ^ 64"
  shows "\<exists>s'. prompt_stream s' = rest \<and> shell_ok buffer f [] s'
    \<and> (if line \<in> set shell_names then
         shell_run (length line + 1) buffer 0 s = map_res (\<lambda>(r, s). (Exec r, s)) (SYS_exec buffer s')
         \<and> user_string buffer s' = line @ [0] \<and> screen_of (kcon s') = fold screen_put (line @ [10]) (screen_of (kcon s))
       else shell_run (length line + 1) buffer 0 s = Inr (Loop 0, s')
         \<and> screen_of (kcon s') = fold screen_put (line @ [10] @ invalid_msg) (screen_of (kcon s)))"
  using assms by (rule shell_line)

theorem shell_reads_line_witness:
  "\<exists>s'. shell_run 3 0x5000 0 (sample_kernel [0x23, 0x17, 0x1C]) = Inr (Loop 0, s')
     \<and> screen_of (kcon s') = fold screen_put ([104, 105] @ [10] @ invalid_msg) (screen_of sample_term)"
proof -
  have "prompt_stream (sample_kernel [0x23, 0x17, 0x1C]) = [104, 105] @ 10 # []"
    by (simp add: prompt_stream_def sample_stream key_table_def bytes_of_def)
  from shell_reads_line [OF sample_shell_ok _ _ _ this] show ?thesis
    by (simp add: shell_names_def bytes_of_def numeral_3_eq_3 del: shell_run.simps) blast
qed

section \<open>Starting\<close>

text \<open>C39 The tables the kernel starts with: at the four selectors the processor reads a kernel
  code, kernel data, user code and user data segment (ring 0 and ring 3), the task descriptor
  names the task state, whose stack is the top of the interrupt stack; a gate of the interrupt
  table is a trap gate to the handler that \<open>idt_setup\<close> lists for its number, and not present
  for any other; and of the sixteen interrupt lines only the keyboard's is open.\<close>

theorem startup_tables:
  assumes "gdt_size g \<le> 0x58"
  shows "(\<exists>g'. gdt_setup gdt_addr tss_addr st g = Inr g'
       \<and> seg_at g' KERNEL_CODE_SELECTOR = zero_seg\<lparr>seg_access := 0x9A, seg_flags := 2\<rparr>
       \<and> seg_at g' KERNEL_DATA_SELECTOR = zero_seg\<lparr>seg_access := 0x92\<rparr>
       \<and> seg_at g' USER_CODE_SELECTOR = zero_seg\<lparr>seg_access := 0xFA, seg_flags := 2\<rparr>
       \<and> seg_at g' USER_DATA_SELECTOR = zero_seg\<lparr>seg_access := 0xF2\<rparr>
       \<and> read_base (drop (unat TSS_SELECTOR) (gdt g')) = tss_addr
       \<and> rsp0 (task g') = st + 0x7FF8 \<and> gdtr g' = Some (0x57, gdt_addr))
    \<and> (\<forall>i. case map_of idt_handlers i of
         None \<Rightarrow> present (fst (idt_setup addr_of idt_addr) ! unat i) = 0
       | Some h \<Rightarrow> trap_gate (addr_of h) (fst (idt_setup addr_of idt_addr) ! unat i))
    \<and> (\<forall>k. irq_masked (settle (pic_unmask_irq 1 (settle (pic_init p)))) k = (k < 16 \<and> k \<noteq> 1))"
proof (intro conjI allI)
  show "\<exists>g'. gdt_setup gdt_addr tss_addr st g = Inr g'
       \<and> seg_at g' KERNEL_CODE_SELECTOR = zero_seg\<lparr>seg_access := 0x9A, seg_flags := 2\<rparr>
       \<and> seg_at g' KERNEL_DATA_SELECTOR = zero_seg\<lparr>seg_access := 0x92\<rparr>
       \<and> seg_at g' USER_CODE_SELECTOR = zero_seg\<lparr>seg_access := 0xFA, seg_flags := 2\<rparr>
       \<and> seg_at g' USER_DATA_SELECTOR = zero_seg\<lparr>seg_access := 0xF2\<rparr>
       \<and> read_base (drop (unat TSS_SELECTOR) (gdt g')) = tss_addr
       \<and> rsp0 (task g') = st + 0x7FF8 \<and> gdtr g' = Some (0x57, gdt_addr)"
    using gdt_setup_segments [OF assms] by blast
  show "case map_of idt_handlers i of
         None \<Rightarrow> present (fst (idt_setup addr_of idt_addr) ! unat i) = 0
       | Some h \<Rightarrow> trap_gate (addr_of h) (fst (idt_setup addr_of idt_addr) ! unat i)" for i
    using idt_setup_gates [where i = i and addr_of = addr_of and a = idt_addr] by (simp add: zero_gate_def split: option.splits)
  show "irq_masked (settle (pic_unmask_irq 1 (settle (pic_init p)))) k = (k < 16 \<and> k \<noteq> 1)" for k
    by (rule only_keyboard_line)
qed

theorem startup_tables_witness:
  "\<exists>g'. gdt_setup 0x1000 0x2000 0x3000 \<lparr>gdt = [], gdt_size = 0, task = zero_tss, gdtr = None, task_register = None\<rparr> = Inr g'
     \<and> read_base (drop 0x48 (gdt g')) = 0x2000"
proof -
  have "gdt_size \<lparr>gdt = [], gdt_size = 0, task = zero_tss, gdtr = None, task_register = None\<rparr> \<le> 0x58" by simp
  from startup_tables [OF this, of "0x1000" "0x2000" "0x3000", THEN conjunct1] show ?thesis by auto
qed

text \<open>Starting the kernel, with the upper half mapped apart from the lower, returns from every
  step up to the loader. The state in which \<open>init\<close> is loaded has an empty file system, the
  invariant of memory on the lower half, in which no last-level entry names a frame, and a user
  stack of eight mapped pages unless physical memory has run out; user mode is then entered at
  the program's entry point.\<close>

theorem kernel_starts:
  assumes "gdt_size (mgdt mc) \<le> 0x58" and "freelist_init hdr (kvm (pics_ready (kernel mc))) = Inr m"
    and "mem_inv m" and "\<forall>p \<in> mem_avail m. phys p" and "tree_ok m" and "region_present m" and "region_apart m"
    and "length (term_buf (kcon (kernel mc))) = 2000" and "unmounted (kfs (kernel mc))"
  shows "\<exists>s mc'. start_kernel lay hdr mc = map_res (\<lambda>(entry, s).
        (Usermode (USER_DATA_SELECTOR OR 3) (USER_STACK + 8 * 0x1000 - 8) (USER_CODE_SELECTOR OR 3) entry, mc'\<lparr>kernel := s\<rparr>))
        (loading (load_module hdr (c_lit ''init'')) s)
    \<and> fm_rel fm_empty (kfs s) \<and> blank_space lower_half (kvm s)
    \<and> ((\<forall>i < 8. page_present (kvm s) (USER_STACK + of_nat i * 0x1000)) \<or> mem_avail (kvm s) = {})
    \<and> kkbd s = kkbd (kernel mc) \<and> boot_hdr s = hdr"
  using assms by (rule start_kernel_loads)

theorem kernel_starts_witness:
  "\<exists>s mc'. start_kernel sample_layout [Hhdm_Tag direct_map, Memmap_Tag boot_map] boot_machine = map_res (\<lambda>(entry, s).
        (Usermode (USER_DATA_SELECTOR OR 3) (USER_STACK + 8 * 0x1000 - 8) (USER_CODE_SELECTOR OR 3) entry, mc'\<lparr>kernel := s\<rparr>))
        (loading (load_module [Hhdm_Tag direct_map, Memmap_Tag boot_map] (c_lit ''init'')) s)
    \<and> fm_rel fm_empty (kfs s)"
proof -
  let ?c = "sample_term\<lparr>tports := pic_unmask_irq 1 (pic_init (tports sample_term))\<rparr>"
  have "gdt_size (mgdt boot_machine) \<le> 0x58" "length (term_buf (kcon (kernel boot_machine))) = 2000"
    by (simp_all add: boot_machine_def boot_kernel_def sample_term_def)
  moreover have "\<forall>p \<in> mem_avail (boot_mem ?c). phys p" unfolding boot_avail using boot_pages(3) by blast
  ultimately show ?thesis
    using kernel_starts [OF _ boot_freelist boot_avail(3) _ boot_tree boot_region _ boot_unmounted, of sample_layout] by blast
qed





text \<open>Mounting the file system and running the demonstration prints exactly the text of
  \<open>demo_out\<close>, in which each file shows what was written to it, and leaves two files, \<open>f1.txt\<close>
  with the appended and \<open>f2.txt\<close> with the overwritten contents.\<close>

theorem demo_prints:
  assumes "init_state s" and "region_present (vm (fds s))" and "next_fd (fds s) = 0" and "fds_backed s"
  shows "\<exists>t s'. fs_init s = Inr t \<and> fs_demo t = Inr ((), s')
     \<and> fm_rel (demo_model (''hello world'' @ [nl]) ''a hao'') s'
     \<and> puts term_putchar demo_out (con (vm (fds t))) = Inr (con (vm (fds s')))"
  using fs_init_rel [OF assms] demo_does unfolding demo.does_def by blast

theorem demo_prints_witness:
  "\<exists>t s'. fs_init sample_boot = Inr t \<and> fs_demo t = Inr ((), s')
     \<and> fm_rel (demo_model (''hello world'' @ [nl]) ''a hao'') s'"
  using demo_prints [OF sample_boot_init] by blast

end
